(* ===== verification/Prelude.thy ===== *)
theory Prelude
  imports Complex_Main "HOL-Library.Word"
begin

text \<open>
  The prelude of the libtasks development: the collections of simplification rules the component
  theories share, memory writes into a byte vector, little-endian 16 bit fields, and the parts of
  the C library the sources call on strings (\<^verbatim>\<open>std::to_string\<close>, \<^verbatim>\<open>atoi\<close>, C strings
  in a character array).

  A byte (C's \<^verbatim>\<open>char\<close>) is an Isabelle \<^typ>\<open>char\<close>; sizes and offsets
  (\<^verbatim>\<open>std::size_t\<close>, 64 bit) are \<^typ>\<open>nat\<close>, since no buffer of the program can reach
  \<open>2 ^ 64\<close> bytes; a narrower integer is a word of its width wherever the code can wrap it.
\<close>

named_theorems mem_simps \<open>reading and writing byte vectors\<close>
named_theorems run_simps \<open>unfolding rules for running a model on a concrete state\<close>

type_synonym bytes = "char list"

section \<open>Memory writes into a byte vector\<close>

text \<open>Overwriting a vector from an offset on, as \<^verbatim>\<open>memcpy(&v[i], data, n)\<close> does.\<close>

definition overwrite :: "nat \<Rightarrow> 'a list \<Rightarrow> 'a list \<Rightarrow> 'a list" where
  "overwrite i xs v = take i v @ xs @ drop (i + length xs) v"

lemma overwrite_Nil [simp]: "overwrite i [] v = v"
  by (simp add: overwrite_def)

lemma length_overwrite [mem_simps]:
  "i + length xs \<le> length v \<Longrightarrow> length (overwrite i xs v) = length v"
  by (simp add: overwrite_def)

lemma take_overwrite_before [mem_simps]:
  "j \<le> i \<Longrightarrow> i \<le> length v \<Longrightarrow> take j (overwrite i xs v) = take j v"
  by (simp add: overwrite_def min_def)

lemma take_overwrite_after [mem_simps]:
  "i \<le> length v \<Longrightarrow> take (i + length xs) (overwrite i xs v) = take i v @ xs"
  by (simp add: overwrite_def)

lemma drop_overwrite_after [mem_simps]:
  "i + length xs \<le> j \<Longrightarrow> i + length xs \<le> length v \<Longrightarrow> drop j (overwrite i xs v) = drop j v"
  by (simp add: overwrite_def)

lemma nth_overwrite:
  "i + length xs \<le> length v \<Longrightarrow> j < length v \<Longrightarrow>
   overwrite i xs v ! j = (if i \<le> j \<and> j < i + length xs then xs ! (j - i) else v ! j)"
  by (auto simp: overwrite_def nth_append)

lemma overwrite_single: "i < length v \<Longrightarrow> overwrite i [x] v = v[i := x]"
  by (simp add: overwrite_def upd_conv_take_nth_drop)

section \<open>Little-endian 16 bit fields\<close>

text \<open>
  The two bytes of a \<^verbatim>\<open>uint16_t\<close> in memory, in the byte order of the machines the uwsgi
  protocol is defined for (least significant byte first).
\<close>

definition u16_of_bytes :: "char \<Rightarrow> char \<Rightarrow> 16 word" where
  "u16_of_bytes lo hi = word_of_nat (of_char lo + 256 * of_char hi)"

definition bytes_of_u16 :: "16 word \<Rightarrow> bytes" where
  "bytes_of_u16 w = [char_of (unat w), char_of (unat w div 256)]"

lemma length_bytes_of_u16 [simp]: "length (bytes_of_u16 w) = 2"
  by (simp add: bytes_of_u16_def)

lemma of_char_less_256: "(of_char c :: nat) < 256"
  by (cases c) (auto simp: of_char_def split: if_splits)

lemma unat_u16_of_nat: "unat (word_of_nat n :: 16 word) = n mod 65536"
  by (simp add: unat_of_nat)

lemma unat_u16_of_bytes: "unat (u16_of_bytes lo hi) = of_char lo + 256 * of_char hi"
proof -
  have "of_char lo + 256 * of_char hi < (65536 :: nat)"
    using of_char_less_256 [of lo] of_char_less_256 [of hi] by linarith
  then show ?thesis
    unfolding u16_of_bytes_def by (simp only: unat_u16_of_nat mod_less)
qed

lemma unat_u16_less: "unat (w :: 16 word) < 65536"
  using unsigned_less [of w] by simp

lemma u16_round_trip: "u16_of_bytes (bytes_of_u16 w ! 0) (bytes_of_u16 w ! 1) = w"
proof -
  have "unat w div 256 < 256" using unat_u16_less [of w] by simp
  then show ?thesis
    by (simp add: u16_of_bytes_def bytes_of_u16_def)
qed

section \<open>C integer conversions and decimal numbers\<close>

text \<open>Conversion of a value to a 32 bit \<^verbatim>\<open>int\<close> and to a 64 bit \<^verbatim>\<open>std::size_t\<close>.\<close>

definition to_int32 :: "int \<Rightarrow> int" where
  "to_int32 v = (v + 2 ^ 31) mod 2 ^ 32 - 2 ^ 31"

definition to_size :: "int \<Rightarrow> nat" where
  "to_size v = nat (v mod 2 ^ 64)"

lemma to_int32_id: "- (2 ^ 31) \<le> v \<Longrightarrow> v < 2 ^ 31 \<Longrightarrow> to_int32 v = v"
  by (simp add: to_int32_def)

lemma to_size_nonneg: "0 \<le> v \<Longrightarrow> v < 2 ^ 64 \<Longrightarrow> to_size v = nat v"
  by (simp add: to_size_def)

text \<open>\<^verbatim>\<open>std::to_string\<close> of an unsigned number.\<close>

fun to_string :: "nat \<Rightarrow> string" where
  "to_string n = (if n < 10 then [char_of (48 + n)] else to_string (n div 10) @ [char_of (48 + n mod 10)])"

declare to_string.simps [simp del]

definition int_to_string :: "int \<Rightarrow> string" where
  "int_to_string i = (if i < 0 then CHR ''-'' # to_string (nat (- i)) else to_string (nat i))"

definition is_digit :: "char \<Rightarrow> bool" where
  "is_digit c \<longleftrightarrow> 48 \<le> (of_char c :: nat) \<and> (of_char c :: nat) \<le> 57"

definition is_space :: "char \<Rightarrow> bool" where
  "is_space c \<longleftrightarrow> (of_char c :: nat) = 32 \<or> 9 \<le> (of_char c :: nat) \<and> (of_char c :: nat) \<le> 13"

definition digits_value :: "nat \<Rightarrow> string \<Rightarrow> nat" where
  "digits_value acc ds = foldl (\<lambda>a c. 10 * a + (of_char c - 48)) acc ds"

text \<open>
  \<^verbatim>\<open>atoi\<close> as the C library documents it: leading white space, an optional sign, decimal
  digits up to the first other character, and no number at all is 0. The value is read as a
  \<^verbatim>\<open>long\<close> (\<^verbatim>\<open>strtol\<close> saturates) and converted to \<^verbatim>\<open>int\<close>.
\<close>

definition clamp_long :: "int \<Rightarrow> int" where
  "clamp_long v = max (- (2 ^ 63)) (min (2 ^ 63 - 1) v)"

definition atoi :: "string \<Rightarrow> int" where
  "atoi s =
     (let s1 = dropWhile is_space s;
          neg = (s1 \<noteq> [] \<and> hd s1 = CHR ''-'');
          s2 = (if s1 \<noteq> [] \<and> (hd s1 = CHR ''-'' \<or> hd s1 = CHR ''+'') then tl s1 else s1);
          n = int (digits_value 0 (takeWhile is_digit s2))
      in to_int32 (clamp_long (if neg then - n else n)))"

lemma is_digit_char_of [simp]: "n < 10 \<Longrightarrow> is_digit (char_of (48 + n :: nat))"
  by (simp add: is_digit_def)

lemma to_string_digits: "\<forall>c \<in> set (to_string n). is_digit c"
proof (induction n rule: to_string.induct)
  case (1 n)
  then show ?case
    by (subst to_string.simps) auto
qed

lemma to_string_not_Nil: "to_string n \<noteq> []"
  by (subst to_string.simps) simp

lemma digits_value_append: "digits_value acc (xs @ ys) = digits_value (digits_value acc xs) ys"
  by (simp add: digits_value_def)

lemma digits_value_to_string: "digits_value 0 (to_string n) = n"
proof (induction n rule: to_string.induct)
  case (1 n)
  show ?case
  proof (cases "n < 10")
    case True
    then show ?thesis by (subst to_string.simps) (simp add: digits_value_def)
  next
    case False
    with "1.IH" have "digits_value 0 (to_string (n div 10)) = n div 10" by simp
    with False show ?thesis
      by (subst to_string.simps) (simp only: if_False digits_value_append, simp add: digits_value_def)
  qed
qed

lemma digit_not_space: "is_digit c \<Longrightarrow> \<not> is_space c"
  by (auto simp: is_digit_def is_space_def)

lemma digit_not_sign: "is_digit c \<Longrightarrow> c \<noteq> CHR ''-'' \<and> c \<noteq> CHR ''+''"
  by (auto simp: is_digit_def)

lemma atoi_digits:
  assumes "ds \<noteq> []" and "\<forall>c \<in> set ds. is_digit c"
    and "rest = [] \<or> \<not> is_digit (hd rest)" and "digits_value 0 ds < 2 ^ 31"
  shows "atoi (ds @ rest) = int (digits_value 0 ds)"
proof -
  obtain d ds' where ds: "ds = d # ds'" using assms(1) by (cases ds) auto
  with assms(2) have d: "\<not> is_space d" "d \<noteq> CHR ''-''" "d \<noteq> CHR ''+''"
    using digit_not_space digit_not_sign by auto
  have "takeWhile is_digit (ds @ rest) = ds"
    using assms(2,3) by (cases rest) auto
  moreover have "to_int32 (clamp_long (int (digits_value 0 ds))) = int (digits_value 0 ds)"
    using assms(4) by (simp add: to_int32_id clamp_long_def)
  ultimately show ?thesis
    using d by (simp add: atoi_def Let_def ds)
qed

lemma atoi_to_string: "n < 2 ^ 31 \<Longrightarrow> atoi (to_string n) = int n"
  using atoi_digits [of "to_string n" "[]"] to_string_digits to_string_not_Nil
  by (simp add: digits_value_to_string)

section \<open>Finding the first index\<close>

lemma find_map: "find P (map f xs) = map_option f (find (\<lambda>x. P (f x)) xs)"
  by (induction xs) auto

lemma find_Some_set: "find P xs = Some x \<Longrightarrow> x \<in> set xs \<and> P x"
  by (auto simp: find_Some_iff)

end
