(* ===== verification/Errors.thy ===== *)
theory Errors
  imports Prelude
begin

text \<open>
  Errors (\<^verbatim>\<open>include/tasks/tasks_exception.h\<close>, \<^verbatim>\<open>include/tasks/error_base.h\<close>) and how the
  model of every other component reports them.

  \<open>tasks_exception\<close> is the exception class and \<open>error_base\<close> the mix-in that keeps the last
  exception of a task. A computation that can throw, fail an \<^verbatim>\<open>assert\<close> or touch memory it does
  not own ends in a \<open>failure\<close>; a stateful method is a \<open>prog\<close>: it returns the state in every case,
  because a C++ exception leaves the fields written before the throw as they are.
\<close>

section \<open>tasks\_exception.h\<close>

datatype tasks_error =
    SOCKET_SOCKET | SOCKET_SOCKOPT_NOSIGPIPE | SOCKET_SOCKOPT_REUSEADDR | SOCKET_FNCTL
  | SOCKET_BIND | SOCKET_CHMOD | SOCKET_LISTEN | SOCKET_LISTEN_UDP | SOCKET_ACCEPT
  | SOCKET_CONNECT | SOCKET_NOHOST | SOCKET_WRITE | SOCKET_READ | SOCKET_NOCON
  | HTTP_NOT_IMPL | HTTP_SENDER_INVALID_REMOTE | HTTP_NO_CONTENT_LENGTH
  | HTTP_INVALID_STATUS_CODE | HTTP_INVALID_HEADER
  | UWSGI_HEADER_ERROR | UWSGI_NOT_IMPL | UWSGI_THRIFT_TRANSPORT | UWSGI_THRIFT_HANDLER
  | TERM_NO_DEVICE | TERM_TCGETATTR | TERM_TCSETATTR | TERM_OPEN | TERM_FCNTL
  | TERM_CFSETOSPEED | TERM_CFSETISPEED | TERM_INVALID_PARITY | TERM_INVALID_STOPBITS
  | TERM_INVALID_MODE | DISKIO_INVALID_EVENT | UNSET

record tasks_exception =
  m_error :: tasks_error
  m_what :: string
  m_sys_errno :: int

definition tasks_exception_default :: tasks_exception where
  "tasks_exception_default = \<lparr>m_error = UNSET, m_what = [], m_sys_errno = 0\<rparr>"

definition tasks_exception_errno :: "tasks_error \<Rightarrow> string \<Rightarrow> int \<Rightarrow> tasks_exception" where
  "tasks_exception_errno error what sys_errno =
     \<lparr>m_error = error, m_what = what, m_sys_errno = sys_errno\<rparr>"

definition tasks_exception_msg :: "tasks_error \<Rightarrow> string \<Rightarrow> tasks_exception" where
  "tasks_exception_msg error what = \<lparr>m_error = error, m_what = what, m_sys_errno = 0\<rparr>"

definition exception_reset :: "tasks_exception \<Rightarrow> tasks_exception" where
  "exception_reset e = e\<lparr>m_error := UNSET, m_what := [], m_sys_errno := 0\<rparr>"

lemma m_error_new [simp]:
  "m_error (tasks_exception_errno e w n) = e" "m_error (tasks_exception_msg e w) = e"
  by (simp_all add: tasks_exception_errno_def tasks_exception_msg_def)

lemma exception_reset_default [simp]: "exception_reset e = tasks_exception_default"
  by (simp add: exception_reset_def tasks_exception_default_def)

section \<open>error\_base.h\<close>

record error_base =
  m_exception :: tasks_exception

definition error_base_new :: error_base where
  "error_base_new = \<lparr>m_exception = tasks_exception_default\<rparr>"

definition error :: "('a) error_base_scheme \<Rightarrow> bool" where
  "error b \<longleftrightarrow> m_error (m_exception b) \<noteq> UNSET"

definition error_code :: "('a) error_base_scheme \<Rightarrow> tasks_error" where
  "error_code b = m_error (m_exception b)"

definition set_exception :: "tasks_exception \<Rightarrow> ('a) error_base_scheme \<Rightarrow> ('a) error_base_scheme" where
  "set_exception e b = b\<lparr>m_exception := e\<rparr>"

definition reset_error :: "('a) error_base_scheme \<Rightarrow> ('a) error_base_scheme" where
  "reset_error b = b\<lparr>m_exception := exception_reset (m_exception b)\<rparr>"

lemma error_reset [simp]: "\<not> error (reset_error b)"
  by (simp add: error_def reset_error_def tasks_exception_default_def)

lemma error_set [simp]: "error (set_exception e b) \<longleftrightarrow> m_error e \<noteq> UNSET"
  by (simp add: error_def set_exception_def)

section \<open>Failing and stateful computations\<close>

text \<open>The exceptions of Apache Thrift: its transport exception, and the rest of its classes, each with \<^verbatim>\<open>what()\<close>.\<close>

datatype thrift_exception = TTransportException string | TException string

fun thrift_what :: "thrift_exception \<Rightarrow> string" where
  "thrift_what (TTransportException m) = m"
| "thrift_what (TException m) = m"

datatype failure =
    Thrown tasks_exception  \<comment> \<open>a C++ exception of the library\<close>
  | Foreign thrift_exception  \<comment> \<open>an exception that the library's own \<^verbatim>\<open>catch\<close> clauses let through\<close>
  | Standard                \<comment> \<open>an exception of the standard library, such as \<^verbatim>\<open>std::length_error\<close>\<close>
  | Assertion               \<comment> \<open>an \<^verbatim>\<open>assert\<close> fails and the process aborts\<close>
  | Memory                  \<comment> \<open>an access outside the vector, to a deleted object or through null\<close>
  | Arithmetic              \<comment> \<open>a division by zero\<close>

type_synonym 'a result = "failure + 'a"
type_synonym ('s, 'a) prog = "'s \<Rightarrow> 'a result \<times> 's"

text \<open>Sequencing of failing computations: without a state, and with one that survives a throw.\<close>

definition rbind :: "'a result \<Rightarrow> ('a \<Rightarrow> 'b result) \<Rightarrow> 'b result" where
  "rbind m f = (case m of Inl e \<Rightarrow> Inl e | Inr a \<Rightarrow> f a)"

lemma rbind_simps [simp]: "rbind (Inl e) f = Inl e" "rbind (Inr a) f = f a"
  by (simp_all add: rbind_def)

lemma rbind_Inr [simp]: "rbind m f = Inr b \<longleftrightarrow> (\<exists>a. m = Inr a \<and> f a = Inr b)"
  by (cases m) auto

lemma rbind_cong [fundef_cong]: "m = m' \<Longrightarrow> (\<And>a. m' = Inr a \<Longrightarrow> f a = f' a) \<Longrightarrow> rbind m f = rbind m' f'"
  by (cases m') auto

lemma map_sum_Inr [simp]: "map_sum f g m = Inr y \<longleftrightarrow> (\<exists>x. m = Inr x \<and> y = g x)"
  by (cases m) auto

definition assert_that :: "bool \<Rightarrow> unit result" where
  "assert_that p = (if p then Inr () else Inl Assertion)"

lemma assert_that_simps [simp]:
  "assert_that p = Inr u \<longleftrightarrow> p" "assert_that True = Inr ()" "assert_that False = Inl Assertion"
  by (simp_all add: assert_that_def)

definition ret :: "'a \<Rightarrow> ('s, 'a) prog" where
  "ret a s = (Inr a, s)"

definition fails :: "failure \<Rightarrow> ('s, 'a) prog" where
  "fails e s = (Inl e, s)"

definition bnd :: "('s, 'a) prog \<Rightarrow> ('a \<Rightarrow> ('s, 'b) prog) \<Rightarrow> ('s, 'b) prog" where
  "bnd m f s = (case m s of (Inl e, s') \<Rightarrow> (Inl e, s') | (Inr a, s') \<Rightarrow> f a s')"

definition sq :: "('s, unit) prog \<Rightarrow> ('s, 'b) prog \<Rightarrow> ('s, 'b) prog" where
  "sq m n = bnd m (\<lambda>_. n)"

definition gets :: "('s \<Rightarrow> 'a) \<Rightarrow> ('s, 'a) prog" where
  "gets f s = (Inr (f s), s)"

definition modify :: "('s \<Rightarrow> 's) \<Rightarrow> ('s, unit) prog" where
  "modify f s = (Inr (), f s)"

definition unless_throw :: "bool \<Rightarrow> tasks_exception \<Rightarrow> ('s, unit) prog" where
  "unless_throw ok e = (if ok then ret () else fails (Thrown e))"

lemmas prog_defs = ret_def fails_def bnd_def sq_def gets_def modify_def unless_throw_def

lemma bnd_assoc: "bnd (bnd m f) g = bnd m (\<lambda>a. bnd (f a) g)"
  by (rule ext) (simp add: bnd_def split: sum.splits prod.splits)

lemma bnd_ret [simp]: "bnd (ret a) f = f a" "bnd m ret = m"
  by (rule ext, simp add: bnd_def ret_def split: sum.splits prod.splits)+

lemma bnd_fails [simp]: "bnd (fails e) f = fails e"
  by (rule ext) (simp add: bnd_def fails_def)

lemma bnd_fst:
  "fst (m s) = Inl e \<Longrightarrow> bnd m f s = (Inl e, snd (m s))"
  "fst (m s) = Inr a \<Longrightarrow> bnd m f s = f a (snd (m s))"
  by (cases "m s"; simp add: bnd_def)+

lemma bnd_Inr: "bnd m f s = (Inr b, s') \<longleftrightarrow> (\<exists>a s1. m s = (Inr a, s1) \<and> f a s1 = (Inr b, s'))"
  by (auto simp: bnd_def split: sum.splits prod.splits)

end
