(* ===== verification/Bitset.thy ===== *)
theory Bitset
  imports Errors
begin

text \<open>
  The bitset of \<^verbatim>\<open>include/tasks/tools/bitset.h\<close>, which the dispatcher uses to find a follower.
  Each element of \<^verbatim>\<open>m_bitset\<close> is one atomic boolean, so every single operation below is one
  atomic step; interleavings of several operations are explored where the bitset is used. A call
  with an index out of range fails the \<^verbatim>\<open>assert\<close>.
\<close>

section \<open>State and operations\<close>

record bitset =
  m_bitset :: "bool list"
  m_bits :: nat

definition bitset_new :: "nat \<Rightarrow> bitset" where
  "bitset_new bits = \<lparr>m_bitset = replicate bits False, m_bits = bits\<rparr>"

definition bits :: "bitset \<Rightarrow> nat" where
  "bits b = m_bits b"

definition buckets :: "bitset \<Rightarrow> nat" where
  "buckets b = length (m_bitset b)"

definition bit_at :: "bitset \<Rightarrow> nat \<Rightarrow> bool result" where
  "bit_at b p = (if p < length (m_bitset b) then Inr (m_bitset b ! p) else Inl Memory)"

definition bitset_test :: "bitset \<Rightarrow> nat \<Rightarrow> bool result" where
  "bitset_test b p = (if p < m_bits b then bit_at b p else Inl Assertion)"

definition put_bit :: "nat \<Rightarrow> bool \<Rightarrow> bitset \<Rightarrow> bitset result" where
  "put_bit p v b =
     (if p < length (m_bitset b) then Inr (b\<lparr>m_bitset := (m_bitset b)[p := v]\<rparr>) else Inl Memory)"

definition bitset_toggle :: "nat \<Rightarrow> bitset \<Rightarrow> bitset result" where
  "bitset_toggle p b =
     (if p < m_bits b
      then (case bit_at b p of Inl e \<Rightarrow> Inl e | Inr v \<Rightarrow> put_bit p (\<not> v) b)
      else Inl Assertion)"

definition bitset_set :: "nat \<Rightarrow> bitset \<Rightarrow> bitset result" where
  "bitset_set p b = (if p < m_bits b then put_bit p True b else Inl Assertion)"

definition bitset_unset :: "nat \<Rightarrow> bitset \<Rightarrow> bitset result" where
  "bitset_unset p b = (if p < m_bits b then put_bit p False b else Inl Assertion)"

text \<open>\<^verbatim>\<open>any\<close> returns its boolean and leaves the number of bits it skipped in \<^verbatim>\<open>offset\<close>.\<close>

fun any_loop :: "bool list \<Rightarrow> nat \<Rightarrow> bool \<times> nat" where
  "any_loop [] offset = (False, offset)"
| "any_loop (v # rest) offset = (if v then (True, offset) else any_loop rest (offset + 1))"

definition bitset_any :: "bitset \<Rightarrow> bool \<times> nat" where
  "bitset_any b = any_loop (m_bitset b) 0"

definition bitset_first :: "bitset \<Rightarrow> bool \<times> nat" where
  "bitset_first b = bitset_any b"

text \<open>
  The loop of \<^verbatim>\<open>next\<close> is a do/while loop with two counters: the body runs at least once and then
  as long as \<^verbatim>\<open>chk_cnt < m_bits\<close>. The result \<open>Some idx\<close> is the C++ result \<^verbatim>\<open>true\<close> with the
  index stored; \<open>None\<close> is \<^verbatim>\<open>false\<close>, with the reference argument left alone.
\<close>

function next_loop :: "bitset \<Rightarrow> nat \<Rightarrow> nat \<Rightarrow> nat option result" where
  "next_loop b chk_idx chk_cnt =
     (case bitset_test b chk_idx of
        Inl e \<Rightarrow> Inl e
      | Inr True \<Rightarrow> Inr (Some chk_idx)
      | Inr False \<Rightarrow>
          (let chk_idx' = (if chk_idx + 1 = m_bits b then 0 else chk_idx + 1);
               chk_cnt' = chk_cnt + 1
           in if chk_cnt' < m_bits b then next_loop b chk_idx' chk_cnt' else Inr None))"
  by pat_completeness auto
termination
  by (relation "measure (\<lambda>(b, _, chk_cnt). m_bits b - chk_cnt)") auto

declare next_loop.simps [simp del]

definition bitset_next :: "bitset \<Rightarrow> nat \<Rightarrow> nat option result" where
  "bitset_next b start = (if start < m_bits b then next_loop b start 0 else Inl Assertion)"

text \<open>\<^verbatim>\<open>to_string\<close>: one character per bit and a blank after every eighth.\<close>

fun bitset_to_string_loop :: "bitset \<Rightarrow> nat \<Rightarrow> nat list \<Rightarrow> string result" where
  "bitset_to_string_loop b n [] = Inr []"
| "bitset_to_string_loop b n (i # is) =
     (case bitset_test b i of
        Inl e \<Rightarrow> Inl e
      | Inr v \<Rightarrow>
          (case bitset_to_string_loop b n is of
             Inl e \<Rightarrow> Inl e
           | Inr out \<Rightarrow>
               Inr ((if v then CHR ''1'' else CHR ''0'') #
                    (if (i + 1) mod 8 = 0 then [CHR '' ''] else []) @ out)))"

definition bitset_to_string :: "bitset \<Rightarrow> string result" where
  "bitset_to_string b = bitset_to_string_loop b (m_bits b) [0..<m_bits b]"

section \<open>Well-formedness\<close>

definition bitset_ok :: "bitset \<Rightarrow> bool" where
  "bitset_ok b \<longleftrightarrow> length (m_bitset b) = m_bits b"

lemma bitset_ok_new [simp]: "bitset_ok (bitset_new n)"
  by (simp add: bitset_ok_def bitset_new_def)

lemma bitset_test_ok:
  "bitset_ok b \<Longrightarrow> p < m_bits b \<Longrightarrow> bitset_test b p = Inr (m_bitset b ! p)"
  by (simp add: bitset_ok_def bitset_test_def bit_at_def)

lemma bitset_set_ok:
  "bitset_ok b \<Longrightarrow> p < m_bits b \<Longrightarrow> bitset_set p b = Inr (b\<lparr>m_bitset := (m_bitset b)[p := True]\<rparr>)"
  by (simp add: bitset_ok_def bitset_set_def put_bit_def)

lemma bitset_unset_ok:
  "bitset_ok b \<Longrightarrow> p < m_bits b \<Longrightarrow> bitset_unset p b = Inr (b\<lparr>m_bitset := (m_bitset b)[p := False]\<rparr>)"
  by (simp add: bitset_ok_def bitset_unset_def put_bit_def)

lemma bitset_toggle_ok:
  "bitset_ok b \<Longrightarrow> p < m_bits b \<Longrightarrow>
   bitset_toggle p b = Inr (b\<lparr>m_bitset := (m_bitset b)[p := \<not> m_bitset b ! p]\<rparr>)"
  by (simp add: bitset_ok_def bitset_toggle_def put_bit_def bit_at_def)

lemmas bitset_op_ok = bitset_test_ok bitset_set_ok bitset_unset_ok bitset_toggle_ok

section \<open>The searches against their reference definitions\<close>

lemma any_loop_find:
  "any_loop bs off = (case find ((!) bs) [0..<length bs] of
     Some i \<Rightarrow> (True, off + i) | None \<Rightarrow> (False, off + length bs))"
proof (induction bs arbitrary: off)
  case Nil
  then show ?case by simp
next
  case (Cons x bs)
  have "find ((!) (x # bs)) [0..<length (x # bs)] =
      (if x then Some 0 else map_option Suc (find ((!) bs) [0..<length bs]))"
    by (simp add: upt_conv_Cons map_Suc_upt [symmetric] find_map comp_def del: upt_Suc map_Suc_upt)
  then show ?case by (simp add: Cons.IH del: upt_Suc split: option.splits)
qed

text \<open>The indices \<^verbatim>\<open>next\<close> visits from \<open>start\<close> on: up to the last bit and then from the first.\<close>

definition cyclic_from :: "nat \<Rightarrow> nat \<Rightarrow> nat list" where
  "cyclic_from n start = [start..<n] @ [0..<start]"

lemma set_cyclic_from: "start < n \<Longrightarrow> set (cyclic_from n start) = {0..<n}"
  by (auto simp: cyclic_from_def)

text \<open>
  The loop after \<open>cnt\<close> rounds still has the indices from \<open>cnt\<close> on of the cyclic order to visit.
\<close>

lemma next_loop_find:
  assumes "bitset_ok b" and "start < m_bits b" and "cnt < m_bits b"
  shows "next_loop b ((start + cnt) mod m_bits b) cnt =
           Inr (find ((!) (m_bitset b)) (drop cnt (cyclic_from (m_bits b) start)))"
  using assms(3)
proof (induction "m_bits b - cnt" arbitrary: cnt rule: less_induct)
  case less
  let ?n = "m_bits b" and ?i = "(start + cnt) mod m_bits b"
  have i: "?i < ?n" using less.prems by simp
  have nth: "cyclic_from ?n start ! cnt = ?i"
    using assms(2) less.prems by (auto simp: cyclic_from_def nth_append mod_if)
  have len: "length (cyclic_from ?n start) = ?n" using assms(2) by (simp add: cyclic_from_def)
  have drop: "drop cnt (cyclic_from ?n start) = ?i # drop (Suc cnt) (cyclic_from ?n start)"
    using nth len less.prems by (metis Cons_nth_drop_Suc)
  show ?case
  proof (cases "Suc cnt < ?n")
    case True
    with less.hyps [of "Suc cnt"] less.prems
    have "next_loop b (if Suc ?i = ?n then 0 else Suc ?i) (Suc cnt) =
        Inr (find ((!) (m_bitset b)) (drop (Suc cnt) (cyclic_from ?n start)))"
      by (simp add: mod_Suc diff_less_mono2)
    with True show ?thesis
      by (subst next_loop.simps)
         (auto simp: bitset_test_ok [OF assms(1) i] drop Let_def split: bool.split)
  next
    case False
    with len have "drop (Suc cnt) (cyclic_from ?n start) = []" by simp
    with False show ?thesis
      by (subst next_loop.simps)
         (simp add: bitset_test_ok [OF assms(1) i] drop Let_def split: bool.split)
  qed
qed

lemma bitset_next_find:
  "bitset_ok b \<Longrightarrow> start < m_bits b \<Longrightarrow>
   bitset_next b start = Inr (find ((!) (m_bitset b)) (cyclic_from (m_bits b) start))"
  using next_loop_find [of b start 0] by (simp add: bitset_next_def)

lemma bitset_next_Some:
  assumes "bitset_ok b" and "bitset_next b start = Inr (Some i)"
  shows "i < m_bits b \<and> m_bitset b ! i"
proof -
  from assms(2) have st: "start < m_bits b" by (auto simp: bitset_next_def split: if_splits)
  with assms have "find ((!) (m_bitset b)) (cyclic_from (m_bits b) start) = Some i"
    by (simp add: bitset_next_find)
  with st show ?thesis by (auto dest!: find_Some_set simp: set_cyclic_from)
qed

lemma bitset_next_None:
  assumes "bitset_ok b" and "start < m_bits b"
  shows "bitset_next b start = Inr None \<longleftrightarrow> True \<notin> set (m_bitset b)"
  using assms
  by (auto simp: bitset_next_find find_None_iff set_cyclic_from in_set_conv_nth bitset_ok_def)

lemma nth_cyclic_from:
  "start < n \<Longrightarrow> k < n \<Longrightarrow> cyclic_from n start ! k = (start + k) mod n"
  by (auto simp: cyclic_from_def nth_append mod_if)

lemma length_cyclic_from [simp]: "start < n \<Longrightarrow> length (cyclic_from n start) = n"
  by (simp add: cyclic_from_def)

section \<open>The interface the dispatcher relies on\<close>

text \<open>
  A pool of slots: a slot is free while it is marked, \<open>pick\<close> finds a free one, and the operations
  on a slot in range never fail. The client lemma is the pair of calls the dispatcher makes to
  claim a follower: pick one, then unmark it.
\<close>

locale slot_pool =
  fixes mark :: "nat \<Rightarrow> 'b \<Rightarrow> 'b result"
    and unmark :: "nat \<Rightarrow> 'b \<Rightarrow> 'b result"
    and pick :: "'b \<Rightarrow> nat \<Rightarrow> nat option result"
    and cap :: "'b \<Rightarrow> nat"
    and slots :: "'b \<Rightarrow> nat set"
    and pool_ok :: "'b \<Rightarrow> bool"
  assumes slots_bound: "pool_ok b \<Longrightarrow> i \<in> slots b \<Longrightarrow> i < cap b"
    and mark_law: "pool_ok b \<Longrightarrow> p < cap b \<Longrightarrow>
      \<exists>b'. mark p b = Inr b' \<and> pool_ok b' \<and> cap b' = cap b \<and> slots b' = insert p (slots b)"
    and unmark_law: "pool_ok b \<Longrightarrow> p < cap b \<Longrightarrow>
      \<exists>b'. unmark p b = Inr b' \<and> pool_ok b' \<and> cap b' = cap b \<and> slots b' = slots b - {p}"
    and pick_law: "pool_ok b \<Longrightarrow> start < cap b \<Longrightarrow>
      \<exists>r. pick b start = Inr r \<and> (r = None \<longleftrightarrow> slots b = {}) \<and> (\<forall>i. r = Some i \<longrightarrow> i \<in> slots b)"
begin

lemma pick_free:
  "pool_ok b \<Longrightarrow> start < cap b \<Longrightarrow> pick b start = Inr (Some i) \<Longrightarrow> i \<in> slots b \<and> i < cap b"
  using pick_law [of b start] slots_bound by auto

lemma claim_slot:
  assumes "pool_ok b" and "start < cap b" and "pick b start = Inr (Some i)"
  shows "\<exists>b'. unmark i b = Inr b' \<and> pool_ok b' \<and> cap b' = cap b \<and> slots b' = slots b - {i}
    \<and> i \<in> slots b"
  using unmark_law [of b i] pick_free [OF assms] assms(1) by blast

lemma pick_succeeds:
  "pool_ok b \<Longrightarrow> start < cap b \<Longrightarrow> slots b \<noteq> {} \<Longrightarrow> \<exists>i. pick b start = Inr (Some i)"
  using pick_law [of b start] by (metis not_None_eq)

lemma pick_empty:
  "pool_ok b \<Longrightarrow> start < cap b \<Longrightarrow> slots b = {} \<Longrightarrow> pick b start = Inr None"
  using pick_law [of b start] by auto

end

definition set_slots :: "bitset \<Rightarrow> nat set" where
  "set_slots b = {i. i < m_bits b \<and> m_bitset b ! i}"

lemma set_slots_new [simp]: "set_slots (bitset_new n) = {}"
  by (auto simp: set_slots_def bitset_new_def)

interpretation bs: slot_pool bitset_set bitset_unset bitset_next m_bits set_slots bitset_ok
proof unfold_locales
  fix b :: bitset and p :: nat
  assume ok: "bitset_ok b"
  show "\<And>i. i \<in> set_slots b \<Longrightarrow> i < m_bits b" by (simp add: set_slots_def)
  assume p: "p < m_bits b"
  show "\<exists>b'. bitset_set p b = Inr b' \<and> bitset_ok b' \<and> m_bits b' = m_bits b
      \<and> set_slots b' = insert p (set_slots b)"
    using ok p by (auto simp: bitset_set_ok bitset_ok_def set_slots_def nth_list_update)
  show "\<exists>b'. bitset_unset p b = Inr b' \<and> bitset_ok b' \<and> m_bits b' = m_bits b
      \<and> set_slots b' = set_slots b - {p}"
    using ok p by (auto simp: bitset_unset_ok bitset_ok_def set_slots_def nth_list_update)
  show "\<exists>r. bitset_next b p = Inr r \<and> (r = None \<longleftrightarrow> set_slots b = {})
      \<and> (\<forall>i. r = Some i \<longrightarrow> i \<in> set_slots b)"
    using bitset_next_Some [OF ok, of p] bitset_next_None [OF ok p] bitset_next_find [OF ok p] ok
    by (auto simp: set_slots_def in_set_conv_nth bitset_ok_def)
qed

section \<open>Properties\<close>

text \<open>
  C30: \<^verbatim>\<open>bitset::next\<close> never fails for a start in range and finds the first set bit in cyclic
  order from \<^verbatim>\<open>start\<close>: it returns \<^verbatim>\<open>false\<close> only when no bit is set, and otherwise an
  index that is set while every index visited before it is clear.
\<close>

theorem next_finds_first_cyclically:
  assumes "bitset_ok b" and "start < m_bits b"
  shows "case bitset_next b start of
           Inl _ \<Rightarrow> False
         | Inr None \<Rightarrow> \<forall>p < m_bits b. \<not> m_bitset b ! p
         | Inr (Some i) \<Rightarrow> i < m_bits b \<and> m_bitset b ! i \<and>
             (\<exists>k < m_bits b. i = (start + k) mod m_bits b \<and>
                (\<forall>d < k. \<not> m_bitset b ! ((start + d) mod m_bits b)))"
proof (cases "find ((!) (m_bitset b)) (cyclic_from (m_bits b) start)")
  case None
  with assms(2) have "\<forall>p < m_bits b. \<not> m_bitset b ! p"
    by (simp add: find_None_iff set_cyclic_from)
  with None assms show ?thesis by (simp add: bitset_next_find)
next
  case (Some i)
  with assms(2) obtain k where "k < m_bits b" "m_bitset b ! i" "i = (start + k) mod m_bits b"
    "\<forall>d < k. \<not> m_bitset b ! ((start + d) mod m_bits b)"
    by (auto simp: find_Some_iff nth_cyclic_from)
  with assms Some show ?thesis
    by (auto simp: bitset_next_find)
qed

theorem next_finds_first_cyclically_witness:
  "bitset_next \<lparr>m_bitset = [True, False, False], m_bits = 3\<rparr> 1 = Inr (Some 0) \<and>
   (\<exists>k < 3. (0::nat) = (1 + k) mod 3)"
  using next_finds_first_cyclically [of "\<lparr>m_bitset = [True, False, False], m_bits = 3\<rparr>" 1]
  by (auto simp: bitset_ok_def next_loop.simps bitset_next_def bitset_test_def bit_at_def)

text \<open>
  The three update operations of the bitset: in range they succeed, keep the representation
  invariant and change the tested value of exactly that bit (to true, to false, to its
  complement); out of range they fail the assertion.
\<close>

theorem bitset_updates:
  assumes "bitset_ok b"
  shows "(op, f) \<in> {(bitset_set, \<lambda>_. True), (bitset_unset, \<lambda>_. False), (bitset_toggle, Not)} \<longrightarrow>
    (if p < m_bits b
     then \<exists>b'. op p b = Inr b' \<and> bitset_ok b' \<and> m_bits b' = m_bits b \<and>
       (\<forall>q. bitset_test b' q = (if q = p then Inr (f (m_bitset b ! p)) else bitset_test b q))
     else op p b = Inl Assertion)"
  using assms
  by (auto simp: bitset_op_ok bitset_ok_def bitset_test_def bit_at_def bitset_set_def
      bitset_unset_def bitset_toggle_def put_bit_def nth_list_update)

theorem bitset_updates_witness:
  "\<exists>b'. bitset_toggle 1 (bitset_new 2) = Inr b' \<and> bitset_test b' 1 = Inr True"
  using bitset_updates [of "bitset_new 2" bitset_toggle Not 1]
  by (auto simp: bitset_new_def bitset_ok_def)

end
