(* ===== verification/Buffer.thy ===== *)
theory Buffer
  imports Errors
begin

text \<open>
  The stream buffer of \<^verbatim>\<open>include/tasks/tools/buffer.h\<close>, a \<^verbatim>\<open>std::streambuf\<close> over a
  \<^verbatim>\<open>std::vector<char>\<close>.

  The get and put pointers are offsets from \<^verbatim>\<open>ptr_begin()\<close>. The class passes \<^verbatim>\<open>ptr_end()\<close>
  to every \<^verbatim>\<open>setg\<close> and \<^verbatim>\<open>setp\<close> and calls them after each change of \<^verbatim>\<open>m_size\<close>, so the
  ends of both stream areas (\<^verbatim>\<open>egptr\<close>, \<^verbatim>\<open>epptr\<close>) are always the offset \<^verbatim>\<open>m_size\<close> and
  need no field of their own. The offsets are not bounded by the type: \<^verbatim>\<open>set_size\<close> to a smaller
  size leaves them behind the end, which is why \<^verbatim>\<open>to_read\<close> and \<^verbatim>\<open>to_write\<close> are signed.
\<close>

section \<open>State and operations\<close>

record buffer =
  m_buffer :: bytes
  m_size :: nat
  gptr :: nat
  pptr :: nat

definition buffer_new :: buffer where
  "buffer_new = \<lparr>m_buffer = [], m_size = 0, gptr = 0, pptr = 0\<rparr>"

definition ptr :: "nat \<Rightarrow> buffer \<Rightarrow> nat result" where
  "ptr pos b = (if pos \<le> m_size b then Inr pos else Inl Assertion)"

definition offset_write :: "buffer \<Rightarrow> nat" where
  "offset_write b = pptr b"

definition offset_read :: "buffer \<Rightarrow> nat" where
  "offset_read b = gptr b"

definition move_ptr_write :: "nat \<Rightarrow> buffer \<Rightarrow> buffer" where
  "move_ptr_write s b = b\<lparr>pptr := pptr b + s\<rparr>"

definition move_ptr_read :: "nat \<Rightarrow> buffer \<Rightarrow> buffer" where
  "move_ptr_read s b = b\<lparr>gptr := gptr b + s\<rparr>"

definition move_ptr_write_abs :: "nat \<Rightarrow> buffer \<Rightarrow> buffer result" where
  "move_ptr_write_abs pos b = map_sum id (\<lambda>p. b\<lparr>pptr := p\<rparr>) (ptr pos b)"

definition move_ptr_read_abs :: "nat \<Rightarrow> buffer \<Rightarrow> buffer result" where
  "move_ptr_read_abs pos b = map_sum id (\<lambda>p. b\<lparr>gptr := p\<rparr>) (ptr pos b)"

definition to_write :: "buffer \<Rightarrow> int" where
  "to_write b = int (m_size b) - int (pptr b)"

definition to_read :: "buffer \<Rightarrow> int" where
  "to_read b = int (m_size b) - int (gptr b)"

text \<open>\<^verbatim>\<open>std::vector::resize\<close>: cut off, or extended with zero bytes.\<close>

definition vec_resize :: "nat \<Rightarrow> bytes \<Rightarrow> bytes" where
  "vec_resize n v = take n v @ replicate (n - length v) (CHR 0x00)"

text \<open>
  \<^verbatim>\<open>set_size\<close> reallocates when the vector is too short, and re-establishes the pointers with
  \<^verbatim>\<open>ptr\<close>, whose assertion still sees the old \<^verbatim>\<open>m_size\<close>.
\<close>

definition set_size :: "nat \<Rightarrow> buffer \<Rightarrow> buffer result" where
  "set_size s b =
     (if length (m_buffer b) < s
      then (let oread = offset_read b; owrite = offset_write b;
                b1 = b\<lparr>m_buffer := vec_resize (s + 1024) (m_buffer b)\<rparr>
            in case ptr oread b1 of
                 Inl e \<Rightarrow> Inl e
               | Inr p_rd \<Rightarrow>
                   (case ptr owrite b1 of
                      Inl e \<Rightarrow> Inl e
                    | Inr p_wr \<Rightarrow> Inr (b1\<lparr>m_size := s, gptr := p_rd, pptr := p_wr\<rparr>)))
      else Inr (b\<lparr>m_size := s\<rparr>))"

definition buffer_new_size :: "nat \<Rightarrow> buffer result" where
  "buffer_new_size sz = set_size sz buffer_new"

definition shrink :: "buffer \<Rightarrow> buffer" where
  "shrink b = b\<lparr>m_buffer := vec_resize (m_size b) (m_buffer b)\<rparr>"

definition buffer_size :: "buffer \<Rightarrow> nat" where
  "buffer_size b = length (m_buffer b)"

definition buffer_clear :: "buffer \<Rightarrow> buffer" where
  "buffer_clear b = b\<lparr>m_size := 0, gptr := 0, pptr := 0\<rparr>"

text \<open>Loads and stores through a pointer into the vector.\<close>

definition store :: "nat \<Rightarrow> bytes \<Rightarrow> buffer \<Rightarrow> buffer result" where
  "store i xs b =
     (if i + length xs \<le> length (m_buffer b)
      then Inr (b\<lparr>m_buffer := overwrite i xs (m_buffer b)\<rparr>) else Inl Memory)"

definition fetch :: "nat \<Rightarrow> nat \<Rightarrow> buffer \<Rightarrow> bytes result" where
  "fetch i n b =
     (if i + n \<le> length (m_buffer b) then Inr (take n (drop i (m_buffer b))) else Inl Memory)"

lemma set_size_Inr:
  "set_size s b = Inr b' \<Longrightarrow>
   m_size b' = s \<and> gptr b' = gptr b \<and> pptr b' = pptr b \<and> s \<le> length (m_buffer b')"
  by (auto simp: set_size_def ptr_def Let_def vec_resize_def offset_read_def offset_write_def
      split: if_splits)

text \<open>
  \<^verbatim>\<open>sputc\<close> grows the buffer by one and calls \<^verbatim>\<open>std::streambuf::sputc\<close>, which stores at the put
  pointer or, when that is not before the end, calls \<^verbatim>\<open>overflow\<close>, that is \<^verbatim>\<open>sputc\<close> again.
\<close>

function buffer_sputc :: "char \<Rightarrow> buffer \<Rightarrow> buffer result" where
  "buffer_sputc c b =
     (case set_size (m_size b + 1) b of
        Inl e \<Rightarrow> Inl e
      | Inr b1 \<Rightarrow>
          (if pptr b1 < m_size b1
           then map_sum id (\<lambda>b2. b2\<lparr>pptr := pptr b2 + 1\<rparr>) (store (pptr b1) [c] b1)
           else buffer_sputc c b1))"
  by pat_completeness auto
termination
  by (relation "measure (\<lambda>(c, b). pptr b + 1 - m_size b)") (auto dest!: set_size_Inr)

declare buffer_sputc.simps [simp del]

definition overflow :: "char \<Rightarrow> buffer \<Rightarrow> buffer result" where
  "overflow ch b = buffer_sputc ch b"

text \<open>
  \<^verbatim>\<open>std::streambuf::xsputn\<close>: copy what fits before the end of the put area, hand the next
  character to \<^verbatim>\<open>overflow\<close>, and go on with the rest.
\<close>

function std_xsputn :: "bytes \<Rightarrow> buffer \<Rightarrow> buffer result" where
  "std_xsputn xs b =
     (if xs = [] then Inr b
      else if to_write b < 0 then Inl Memory
      else
        (let n = min (nat (to_write b)) (length xs)
         in case store (pptr b) (take n xs) b of
              Inl e \<Rightarrow> Inl e
            | Inr b1 \<Rightarrow>
                (let b2 = b1\<lparr>pptr := pptr b1 + n\<rparr>
                 in if drop n xs = [] then Inr b2
                    else (case overflow (hd (drop n xs)) b2 of
                            Inl e \<Rightarrow> Inl e
                          | Inr b3 \<Rightarrow> std_xsputn (tl (drop n xs)) b3))))"
  by pat_completeness auto
termination
  by (relation "measure (\<lambda>(xs, b). length xs)") auto

declare std_xsputn.simps [simp del]

definition xsputn :: "bytes \<Rightarrow> buffer \<Rightarrow> (nat \<times> buffer) result" where
  "xsputn s b =
     (case set_size (m_size b + length s) b of
        Inl e \<Rightarrow> Inl e
      | Inr b1 \<Rightarrow> map_sum id (\<lambda>b2. (length s, b2)) (std_xsputn s b1))"

definition buffer_write :: "bytes \<Rightarrow> buffer \<Rightarrow> (nat \<times> buffer) result" where
  "buffer_write data b = xsputn data b"

text \<open>
  \<^verbatim>\<open>std::streambuf::xsgetn\<close> copies from the get area; the base class refills it with nothing, so it
  stops there. A negative count copies nothing.
\<close>

definition std_xsgetn :: "int \<Rightarrow> buffer \<Rightarrow> (bytes \<times> buffer) result" where
  "std_xsgetn sz b =
     (let n = nat (min sz (to_read b))
      in map_sum id (\<lambda>data. (data, b\<lparr>gptr := gptr b + n\<rparr>)) (fetch (gptr b) n b))"

definition xsgetn :: "nat \<Rightarrow> buffer \<Rightarrow> (bytes \<times> buffer) result" where
  "xsgetn count b =
     (let bytes_left = to_read b;
          sz = (if int count > bytes_left then bytes_left else int count)
      in if sz \<le> 0 then Inr ([], b) else std_xsgetn sz b)"

definition buffer_read :: "nat \<Rightarrow> buffer \<Rightarrow> (bytes \<times> buffer) result" where
  "buffer_read sz b = xsgetn sz b"

section \<open>Invariants\<close>

definition buffer_ok :: "buffer \<Rightarrow> bool" where
  "buffer_ok b \<longleftrightarrow> m_size b \<le> length (m_buffer b) \<and> gptr b \<le> m_size b \<and> pptr b \<le> m_size b"

text \<open>The state of a buffer that is only written to at its end, and what is left to read of it.\<close>

definition append_ok :: "buffer \<Rightarrow> bool" where
  "append_ok b \<longleftrightarrow> buffer_ok b \<and> pptr b = m_size b"

definition unread :: "buffer \<Rightarrow> bytes" where
  "unread b = drop (gptr b) (take (m_size b) (m_buffer b))"

lemma buffer_ok_new [simp]: "buffer_ok buffer_new" "append_ok buffer_new" "unread buffer_new = []"
  by (simp_all add: buffer_ok_def append_ok_def buffer_new_def unread_def)

lemma buffer_new_sel [simp]: "m_size buffer_new = 0" "gptr buffer_new = 0" "m_buffer buffer_new = []"
  by (simp_all add: buffer_new_def)

lemma append_ok_ok: "append_ok b \<Longrightarrow> buffer_ok b"
  by (simp add: append_ok_def)

lemma buffer_ok_clear [simp]:
  "buffer_ok (buffer_clear b)" "append_ok (buffer_clear b)" "unread (buffer_clear b) = []"
  by (simp_all add: buffer_ok_def append_ok_def buffer_clear_def unread_def)

lemma length_unread: "buffer_ok b \<Longrightarrow> int (length (unread b)) = to_read b"
  by (auto simp: buffer_ok_def unread_def to_read_def)

text \<open>The vector after growing it to hold \<open>s\<close> bytes: \<open>set_size\<close> never loses a byte.\<close>

definition grow :: "nat \<Rightarrow> bytes \<Rightarrow> bytes" where
  "grow s v = (if length v < s then v @ replicate (s + 1024 - length v) (CHR 0x00) else v)"

lemma length_grow: "s \<le> length (grow s v)" "length v \<le> length (grow s v)"
  by (simp_all add: grow_def)

lemma take_grow [simp]: "n \<le> length v \<Longrightarrow> take n (grow s v) = take n v"
  by (simp add: grow_def)

lemma set_size_ok:
  "buffer_ok b \<Longrightarrow> set_size s b = Inr (b\<lparr>m_buffer := grow s (m_buffer b), m_size := s\<rparr>)"
  by (auto simp: set_size_def buffer_ok_def ptr_def Let_def vec_resize_def grow_def
      offset_read_def offset_write_def)

lemma store_ok:
  "i + length xs \<le> length (m_buffer b) \<Longrightarrow>
   store i xs b = Inr (b\<lparr>m_buffer := overwrite i xs (m_buffer b)\<rparr>)"
  by (simp add: store_def)

lemma std_xsputn_fits:
  assumes "pptr b + length xs \<le> m_size b" and "m_size b \<le> length (m_buffer b)"
  shows "std_xsputn xs b =
    Inr (b\<lparr>m_buffer := overwrite (pptr b) xs (m_buffer b), pptr := pptr b + length xs\<rparr>)"
proof (cases "xs = []")
  case False
  then have "min (nat (to_write b)) (length xs) = length xs" "\<not> to_write b < 0"
    using assms by (auto simp: to_write_def)
  with False assms show ?thesis
    by (subst std_xsputn.simps) (simp add: store_ok Let_def)
qed (simp add: std_xsputn.simps)

lemma buffer_write_ok:
  assumes "buffer_ok b"
  shows "buffer_write xs b = Inr (length xs,
    b\<lparr>m_buffer := overwrite (pptr b) xs (grow (m_size b + length xs) (m_buffer b)),
      m_size := m_size b + length xs, pptr := pptr b + length xs\<rparr>)"
proof -
  let ?s = "m_size b + length xs"
  have "pptr b + length xs \<le> ?s" using assms by (simp add: buffer_ok_def)
  with std_xsputn_fits [of "b\<lparr>m_buffer := grow ?s (m_buffer b), m_size := ?s\<rparr>" xs] show ?thesis
    by (simp add: buffer_write_def xsputn_def set_size_ok [OF assms] length_grow)
qed

lemma buffer_sputc_write:
  assumes "buffer_ok b"
  shows "buffer_sputc c b = map_sum id snd (buffer_write [c] b)"
proof -
  have "pptr b < Suc (m_size b)" using assms by (simp add: buffer_ok_def)
  moreover have "Suc (pptr b) \<le> length (grow (Suc (m_size b)) (m_buffer b))"
    using assms length_grow(1) [of "Suc (m_size b)" "m_buffer b"] by (simp add: buffer_ok_def)
  ultimately show ?thesis
    by (subst buffer_sputc.simps) (simp add: set_size_ok assms buffer_write_ok store_def)
qed

lemma buffer_read_ok:
  assumes "buffer_ok b"
  shows "buffer_read n b =
    Inr (take n (unread b), b\<lparr>gptr := gptr b + min n (m_size b - gptr b)\<rparr>)"
proof -
  have le: "gptr b \<le> m_size b" "m_size b \<le> length (m_buffer b)"
    using assms by (simp_all add: buffer_ok_def)
  consider "n = 0 \<or> gptr b = m_size b" | "0 < n" "gptr b < m_size b" using le by linarith
  then show ?thesis
  proof cases
    case 1
    then show ?thesis
      by (auto simp: buffer_read_def xsgetn_def to_read_def Let_def unread_def)
  next
    case 2
    define k where "k = min n (m_size b - gptr b)"
    have k: "0 < k" "gptr b + k \<le> length (m_buffer b)" "nat (min (int k) (to_read b)) = k"
      and sz: "(if int n > to_read b then to_read b else int n) = int k"
      using 2 le by (auto simp: k_def to_read_def min_def)
    have "buffer_read n b = std_xsgetn (int k) b"
      using k(1) unfolding buffer_read_def xsgetn_def Let_def sz by simp
    moreover have "fetch (gptr b) k b = Inr (take n (unread b))"
      using k(2) le by (simp add: fetch_def k_def unread_def drop_take min_def)
    ultimately show ?thesis
      by (simp add: std_xsgetn_def Let_def k(3) k_def [symmetric])
  qed
qed

section \<open>The interface the protocol classes rely on\<close>

text \<open>Writing a list of pieces one after the other, as the serialisers do.\<close>

fun put_all :: "(bytes \<Rightarrow> 'b \<Rightarrow> (nat \<times> 'b) result) \<Rightarrow> bytes list \<Rightarrow> 'b \<Rightarrow> 'b result" where
  "put_all put [] b = Inr b"
| "put_all put (xs # xss) b =
     (case put xs b of Inl e \<Rightarrow> Inl e | Inr (_, b') \<Rightarrow> put_all put xss b')"

text \<open>A client's sequence of writes and reads, collecting what the reads return.\<close>

datatype stream_op = Write bytes | Read nat

fun run_stream ::
  "(bytes \<Rightarrow> 'b \<Rightarrow> (nat \<times> 'b) result) \<Rightarrow> (nat \<Rightarrow> 'b \<Rightarrow> (bytes \<times> 'b) result) \<Rightarrow>
   stream_op list \<Rightarrow> 'b \<Rightarrow> (bytes \<times> 'b) result" where
  "run_stream put get [] b = Inr ([], b)"
| "run_stream put get (Write xs # ops) b =
     (case put xs b of Inl e \<Rightarrow> Inl e | Inr (_, b') \<Rightarrow> run_stream put get ops b')"
| "run_stream put get (Read n # ops) b =
     (case get n b of Inl e \<Rightarrow> Inl e
      | Inr (out, b') \<Rightarrow> map_sum id (\<lambda>(rest, b''). (out @ rest, b'')) (run_stream put get ops b'))"

fun written :: "stream_op list \<Rightarrow> bytes" where
  "written [] = []"
| "written (Write xs # ops) = xs @ written ops"
| "written (Read n # ops) = written ops"

locale byte_stream =
  fixes put :: "bytes \<Rightarrow> 'b \<Rightarrow> (nat \<times> 'b) result"
    and get :: "nat \<Rightarrow> 'b \<Rightarrow> (bytes \<times> 'b) result"
    and pending :: "'b \<Rightarrow> bytes"
    and stream_ok :: "'b \<Rightarrow> bool"
  assumes put_law: "stream_ok b \<Longrightarrow>
      \<exists>b'. put xs b = Inr (length xs, b') \<and> stream_ok b' \<and> pending b' = pending b @ xs"
    and get_law: "stream_ok b \<Longrightarrow>
      \<exists>b'. get n b = Inr (take n (pending b), b') \<and> stream_ok b' \<and> pending b' = drop n (pending b)"
begin

lemma put_all_concat:
  "stream_ok b \<Longrightarrow>
   \<exists>b'. put_all put xss b = Inr b' \<and> stream_ok b' \<and> pending b' = pending b @ concat xss"
proof (induction xss arbitrary: b)
  case (Cons xs xss)
  obtain b1 where "put xs b = Inr (length xs, b1)" "stream_ok b1" "pending b1 = pending b @ xs"
    using put_law [OF Cons.prems] by blast
  with Cons.IH [of b1] show ?case by auto
qed simp

lemma run_stream_fifo:
  "stream_ok b \<Longrightarrow>
   \<exists>out b'. run_stream put get ops b = Inr (out, b') \<and> stream_ok b' \<and>
     out @ pending b' = pending b @ written ops"
proof (induction ops arbitrary: b)
  case (Cons op ops)
  show ?case
  proof (cases op)
    case (Write xs)
    then show ?thesis using put_law [OF Cons.prems, of xs] Cons.IH by fastforce
  next
    case (Read n)
    obtain b1 where "get n b = Inr (take n (pending b), b1)" "stream_ok b1"
      "pending b1 = drop n (pending b)"
      using get_law [OF Cons.prems] by blast
    moreover obtain out b' where "run_stream put get ops b1 = Inr (out, b')" "stream_ok b'"
      "out @ pending b' = pending b1 @ written ops"
      using Cons.IH [OF calculation(2)] by blast
    ultimately show ?thesis
      using Read by (simp flip: append_assoc) (simp add: append_assoc [symmetric])
  qed
qed simp

lemma put_get_round_trip:
  assumes "stream_ok b" and "pending b = []"
  shows "\<exists>b1 b2. put xs b = Inr (length xs, b1) \<and> get (length xs) b1 = Inr (xs, b2) \<and> pending b2 = []"
proof -
  obtain b1 where b1: "put xs b = Inr (length xs, b1)" "stream_ok b1" "pending b1 = xs"
    using put_law [OF assms(1), of xs] assms(2) by auto
  then show ?thesis using get_law [OF b1(2), of "length xs"] by auto
qed

end

lemma buffer_write_append:
  assumes "append_ok b"
  shows "\<exists>b'. buffer_write xs b = Inr (length xs, b') \<and> append_ok b' \<and> unread b' = unread b @ xs
    \<and> gptr b' = gptr b \<and> m_size b' = m_size b + length xs
    \<and> take (m_size b) (m_buffer b') = take (m_size b) (m_buffer b)"
proof -
  let ?s = "m_size b + length xs" and ?v = "grow (m_size b + length xs) (m_buffer b)"
  have ok: "m_size b \<le> length (m_buffer b)" "gptr b \<le> m_size b" "pptr b = m_size b"
    using assms by (simp_all add: append_ok_def buffer_ok_def)
  have len: "?s \<le> length ?v" by (rule length_grow)
  then have "take ?s (overwrite (m_size b) xs ?v) = take (m_size b) (m_buffer b) @ xs"
    using ok by (simp add: take_overwrite_after)
  with ok len show ?thesis
    by (simp add: buffer_write_ok append_ok_ok [OF assms])
       (simp add: append_ok_def buffer_ok_def unread_def mem_simps)
qed

lemma buffer_write_keeps_ok:
  assumes "buffer_ok b"
  shows "\<exists>b'. buffer_write xs b = Inr (length xs, b') \<and> buffer_ok b'"
  using assms length_grow(1) [of "m_size b + length xs" "m_buffer b"]
  by (simp add: buffer_write_ok buffer_ok_def mem_simps)

lemma buffer_read_append:
  assumes "append_ok b"
  shows "\<exists>b'. buffer_read n b = Inr (take n (unread b), b') \<and> append_ok b'
    \<and> unread b' = drop n (unread b)"
  using assms
  by (auto simp: buffer_read_ok append_ok_ok append_ok_def buffer_ok_def unread_def min_def add.commute)

interpretation buf: byte_stream buffer_write buffer_read unread append_ok
proof unfold_locales
  fix b :: buffer and xs n
  assume "append_ok b"
  then show "\<exists>b'. buffer_write xs b = Inr (length xs, b') \<and> append_ok b' \<and> unread b' = unread b @ xs"
    and "\<exists>b'. buffer_read n b = Inr (take n (unread b), b') \<and> append_ok b'
      \<and> unread b' = drop n (unread b)"
    using buffer_write_append buffer_read_append by blast+
qed

section \<open>Properties\<close>

text \<open>
  C28: a buffer that is only written at its end is a first-in first-out byte stream: any sequence
  of writes and reads succeeds, and the bytes read so far followed by the bytes still unread are
  the bytes that were unread before followed by everything written, in order.
\<close>

theorem buffer_is_fifo:
  assumes "append_ok b"
  shows "\<exists>out b'. run_stream buffer_write buffer_read ops b = Inr (out, b') \<and> append_ok b' \<and>
    out @ unread b' = unread b @ written ops"
  using assms by (rule buf.run_stream_fifo)

theorem buffer_is_fifo_witness:
  "\<exists>out b'. run_stream buffer_write buffer_read [Write ''ab'', Read 1, Write ''c''] buffer_new =
     Inr (out, b') \<and> append_ok b' \<and> out @ unread b' = ''abc''"
  using buffer_is_fifo [of buffer_new "[Write ''ab'', Read 1, Write ''c'']"] by simp



text \<open>
  C40: putting a single character (directly, or through \<^verbatim>\<open>overflow\<close> when the base class finds the
  put area full) is the same as writing a one byte string, so a stream and a bulk write agree.
\<close>

theorem sputc_is_write:
  assumes "buffer_ok b"
  shows "buffer_sputc c b = map_sum id snd (buffer_write [c] b) \<and> overflow c b = buffer_sputc c b"
  using buffer_sputc_write [OF assms] by (simp add: overflow_def)

theorem sputc_is_write_witness:
  "map_sum id m_size (buffer_sputc CHR ''x'' buffer_new) = Inr 1"
  using sputc_is_write [of buffer_new "CHR ''x''"] by (simp add: buffer_write_ok)

end
