(* ===== verification/System.thy ===== *)
theory System
  imports Bitset Buffer
begin

text \<open>
  The state the task system's threads share: the dispatcher singleton
  (\<^verbatim>\<open>include/tasks/dispatcher.h\<close>), the workers (\<^verbatim>\<open>include/tasks/worker.h\<close>), and the event tasks
  (\<^verbatim>\<open>task.h\<close>, \<^verbatim>\<open>event_task.h\<close>, \<^verbatim>\<open>io_task_base.h\<close>, \<^verbatim>\<open>timer_task.h\<close>,
  \<^verbatim>\<open>disposable.h\<close>, \<^verbatim>\<open>cleanup_task.h\<close>).

  Objects are named by numbers: a worker by its index in \<^verbatim>\<open>m_workers\<close>, a task by the number the
  allocation gave it, a libev loop by a number (0 is \<^verbatim>\<open>ev_default_loop(0)\<close>). A deleted task has
  no entry in \<open>tasks\<close>, so touching it is a \<open>Memory\<close> failure. The closures the library hands to
  \<^verbatim>\<open>exec_in_worker_ctx\<close> are the constructors of \<open>task_func\<close>, one per lambda of the sources.
  libev itself is not modelled beyond what the library relies on: an active watcher can fire, a
  sent async watcher will run its callback, and \<^verbatim>\<open>ev_userdata\<close> returns what was set.
\<close>

section \<open>Tasks\<close>

type_synonym tid = nat
type_synonym wid = nat
type_synonym loop = nat

text \<open>The event masks of libev.\<close>

definition EV_UNDEF :: int where "EV_UNDEF = -1"
definition EV_READ :: int where "EV_READ = 1"
definition EV_WRITE :: int where "EV_WRITE = 2"

datatype mode = SINGLE_LOOP | MULTI_LOOP

text \<open>The classes below \<^verbatim>\<open>event_task\<close>; a cleanup task keeps the disposable it waits for.\<close>

datatype task_kind = Io_task | Timer_task | Cleanup_task tid | Disk_task

text \<open>Callbacks: type 0 of the source's function structs takes the worker, type 1 does not.\<close>

datatype callback = F_worker nat | F_void nat

record etask = error_base +
  em_kind :: task_kind
  em_auto_delete :: bool
  em_finish_funcs :: "callback list"
  em_error_funcs :: "callback list"
  em_worker :: "wid option"
  em_can_dispose :: bool
  em_fd :: int
  em_events :: int
  em_watcher_initialized :: bool
  em_change_pending :: bool
  em_after :: rat
  em_repeat :: rat
  em_immediate :: bool
  em_timer :: "rat \<times> rat"    \<comment> \<open>the arguments of \<^verbatim>\<open>ev_timer_init\<close>\<close>
  em_active :: "loop option"  \<comment> \<open>the loop the watcher is active on, \<^verbatim>\<open>ev_is_active\<close>\<close>
  em_watch :: "int \<times> int"    \<comment> \<open>descriptor and event mask the watcher is set to\<close>

record event =
  ev_task :: tid
  ev_revents :: int

datatype task_func =
    Start_io tid       \<comment> \<open>\<^verbatim>\<open>io_task_base::start_watcher\<close>\<close>
  | Stop_io tid        \<comment> \<open>\<^verbatim>\<open>io_task_base::stop_watcher\<close>\<close>
  | Update_io tid      \<comment> \<open>\<^verbatim>\<open>io_task_base::update_watcher\<close>\<close>
  | Dispose_io tid     \<comment> \<open>\<^verbatim>\<open>io_task_base::dispose\<close>\<close>
  | Start_timer tid    \<comment> \<open>\<^verbatim>\<open>timer_task::start_watcher\<close>\<close>
  | Stop_timer tid     \<comment> \<open>\<^verbatim>\<open>timer_task::stop_watcher\<close>\<close>
  | Add_net wid tid    \<comment> \<open>\<^verbatim>\<open>net_io_task::add_task(worker, task)\<close>\<close>
  | Async_event event  \<comment> \<open>\<^verbatim>\<open>worker::add_async_event\<close>\<close>
  | Send_response tid  \<comment> \<open>the finish callback of \<^verbatim>\<open>uwsgi_thrift_async_processor\<close>\<close>

section \<open>Workers, dispatcher, system\<close>

text \<open>
  Where a worker's thread stands in \<^verbatim>\<open>worker::run\<close>: before its first \<^verbatim>\<open>mark_free\<close>, waiting to be
  promoted, at the head of the leader loop, inside \<^verbatim>\<open>ev_loop\<close>, after it returned, about to hand
  the loop to a follower, in the loop over its queued events, and gone.
\<close>

datatype pc = Boot | Waiting | Running | Polling | Polled | Handing wid | Handling | Exited

record worker =
  wm_id :: "8 word"
  wm_events_count :: "64 word"
  wm_loop :: "loop option"
  wm_term :: bool
  wm_leader :: bool
  wm_events_queue :: "event list"
  wm_tfq :: "task_func list"  \<comment> \<open>the \<^verbatim>\<open>task_func_queue_t\<close> of the worker's signal watcher\<close>
  wm_async_sent :: bool       \<comment> \<open>\<^verbatim>\<open>ev_async_send\<close> was called and the callback has not run\<close>
  wm_pc :: pc

datatype entry =
    Handled wid tid int
  | Error_cb nat "wid option" tasks_exception
  | Finish_cb nat "wid option"
  | Deleted tid

record sys =
  m_run_mode :: mode
  dm_num_workers :: "8 word"
  dm_workers_busy :: bitset
  dm_last_worker_id :: nat
  dm_rr_worker_id :: "8 word"
  dm_started :: bool
  dm_term :: bool
  workers :: "worker list"
  userdata :: "loop \<Rightarrow> wid option"
  tasks :: "tid \<rightharpoonup> etask"
  next_tid :: tid             \<comment> \<open>the number the next allocated task gets\<close>
  history :: "entry list"         \<comment> \<open>what happened, oldest entry first\<close>

section \<open>Access\<close>

definition worker_of :: "sys \<Rightarrow> wid \<Rightarrow> worker result" where
  "worker_of s w = (if w < length (workers s) then Inr (workers s ! w) else Inl Memory)"

definition upd_worker :: "wid \<Rightarrow> (worker \<Rightarrow> worker) \<Rightarrow> sys \<Rightarrow> sys" where
  "upd_worker w f s = s\<lparr>workers := (workers s)[w := f (workers s ! w)]\<rparr>"

definition task_of :: "sys \<Rightarrow> tid \<Rightarrow> etask result" where
  "task_of s t = (case tasks s t of None \<Rightarrow> Inl Memory | Some e \<Rightarrow> Inr e)"

definition upd_task :: "tid \<Rightarrow> (etask \<Rightarrow> etask) \<Rightarrow> sys \<Rightarrow> sys result" where
  "upd_task t f s = rbind (task_of s t) (\<lambda>e. Inr (s\<lparr>tasks := (tasks s)(t \<mapsto> f e)\<rparr>))"

definition add_log :: "entry \<Rightarrow> sys \<Rightarrow> sys" where
  "add_log x s = s\<lparr>history := history s @ [x]\<rparr>"

definition delete_task :: "tid \<Rightarrow> sys \<Rightarrow> sys" where
  "delete_task t s = add_log (Deleted t) (s\<lparr>tasks := (tasks s)(t := None)\<rparr>)"

definition new_task :: "etask \<Rightarrow> sys \<Rightarrow> tid \<times> sys" where
  "new_task e s = (next_tid s, s\<lparr>tasks := (tasks s)(next_tid s \<mapsto> e), next_tid := next_tid s + 1\<rparr>)"

lemma task_of_Inr [simp]: "task_of s t = Inr e \<longleftrightarrow> tasks s t = Some e"
  by (simp add: task_of_def split: option.splits)

lemma worker_of_Inr [simp]: "worker_of s w = Inr k \<longleftrightarrow> w < length (workers s) \<and> k = workers s ! w"
  by (auto simp: worker_of_def)

lemma upd_worker_sel [simp]:
  "length (workers (upd_worker w f s)) = length (workers s)"
  "m_run_mode (upd_worker w f s) = m_run_mode s" "dm_num_workers (upd_worker w f s) = dm_num_workers s"
  "dm_workers_busy (upd_worker w f s) = dm_workers_busy s"
  "dm_last_worker_id (upd_worker w f s) = dm_last_worker_id s"
  "userdata (upd_worker w f s) = userdata s" "tasks (upd_worker w f s) = tasks s"
  "next_tid (upd_worker w f s) = next_tid s" "history (upd_worker w f s) = history s"
  "dm_started (upd_worker w f s) = dm_started s"
  by (simp_all add: upd_worker_def)

lemma nth_upd_worker [simp]:
  "v < length (workers s) \<Longrightarrow>
   workers (upd_worker w f s) ! v = (if v = w then f (workers s ! w) else workers s ! v)"
  by (auto simp: upd_worker_def nth_list_update)

section \<open>Constructors of the task classes\<close>

text \<open>A fresh \<^verbatim>\<open>event_task\<close>: auto deletion is on, no callbacks, no worker, no error.\<close>

definition event_task_new :: "task_kind \<Rightarrow> etask" where
  "event_task_new k = \<lparr>m_exception = tasks_exception_default, em_kind = k, em_auto_delete = True,
     em_finish_funcs = [], em_error_funcs = [], em_worker = None, em_can_dispose = True,
     em_fd = -1, em_events = -1, em_watcher_initialized = False, em_change_pending = False,
     em_after = 0, em_repeat = 0, em_immediate = False, em_timer = (0, 0),
     em_active = None, em_watch = (0, 0)\<rparr>"

definition io_task_base_new :: "int \<Rightarrow> etask" where
  "io_task_base_new events = (event_task_new Io_task)\<lparr>em_events := events\<rparr>"

text \<open>
  The \<^verbatim>\<open>double\<close> arguments are rationals: the code compares the first with zero and adds the two.
\<close>

definition timer_task_new :: "rat \<Rightarrow> rat \<Rightarrow> bool \<Rightarrow> task_kind \<Rightarrow> etask" where
  "timer_task_new after repeat immediate k =
     (event_task_new k)\<lparr>em_after := after, em_repeat := repeat, em_immediate := immediate,
       em_timer := (if after = 0 \<and> immediate then after + repeat else after, repeat)\<rparr>"

definition cleanup_task_new :: "tid \<Rightarrow> etask" where
  "cleanup_task_new d = timer_task_new 1 1 False (Cleanup_task d)"

section \<open>Small methods: task.h, disposable.h, event\_task.h\<close>

definition disable_auto_delete :: "etask \<Rightarrow> etask" where
  "disable_auto_delete e = e\<lparr>em_auto_delete := False\<rparr>"

definition on_finish :: "callback \<Rightarrow> etask \<Rightarrow> etask" where
  "on_finish f e = e\<lparr>em_finish_funcs := em_finish_funcs e @ [f]\<rparr>"

definition on_error :: "callback \<Rightarrow> etask \<Rightarrow> etask" where
  "on_error f e = e\<lparr>em_error_funcs := em_error_funcs e @ [f]\<rparr>"

definition disable_dispose :: "etask \<Rightarrow> etask" where
  "disable_dispose e = e\<lparr>em_can_dispose := False\<rparr>"

definition enable_dispose :: "etask \<Rightarrow> etask" where
  "enable_dispose e = e\<lparr>em_can_dispose := True\<rparr>"

text \<open>\<^verbatim>\<open>dynamic_cast<disposable*>\<close> succeeds for the classes that derive from it.\<close>

definition is_disposable :: "etask \<Rightarrow> bool" where
  "is_disposable e \<longleftrightarrow> em_kind e = Io_task"

fun run_finish_cb :: "wid option \<Rightarrow> callback \<Rightarrow> sys \<Rightarrow> sys" where
  "run_finish_cb w (F_worker k) s = add_log (Finish_cb k w) s"
| "run_finish_cb w (F_void k) s = add_log (Finish_cb k None) s"

fun run_error_cb :: "wid option \<Rightarrow> tasks_exception \<Rightarrow> callback \<Rightarrow> sys \<Rightarrow> sys" where
  "run_error_cb w e (F_worker k) s = add_log (Error_cb k w e) s"
| "run_error_cb w e (F_void k) s = add_log (Error_cb k None e) s"

definition notify_error :: "wid option \<Rightarrow> tid \<Rightarrow> sys \<Rightarrow> sys result" where
  "notify_error w t s =
     rbind (task_of s t) (\<lambda>e. Inr (fold (run_error_cb w (m_exception e)) (em_error_funcs e) s))"

definition assign_worker :: "wid \<Rightarrow> tid \<Rightarrow> sys \<Rightarrow> sys result" where
  "assign_worker w t s =
     (case m_run_mode s of
        MULTI_LOOP \<Rightarrow>
          rbind (task_of s t) (\<lambda>e.
            let e' = (if em_worker e = None then e\<lparr>em_worker := Some w\<rparr> else e)
            in rbind (assert_that (em_worker e' = Some w)) (\<lambda>_.
                 Inr (s\<lparr>tasks := (tasks s)(t \<mapsto> e')\<rparr>)))
      | SINGLE_LOOP \<Rightarrow> Inr s)"

end
