(* ===== verification/Watchers.thy ===== *)
theory Watchers
  imports System
begin

text \<open>
  Running code in the context of a worker: \<^verbatim>\<open>exec_in_worker_ctx\<close>, \<^verbatim>\<open>async_call\<close>,
  \<^verbatim>\<open>add_async_event\<close> and the async callback of \<^verbatim>\<open>worker.h\<close> / \<^verbatim>\<open>worker.cpp\<close>, and the
  watcher methods of \<^verbatim>\<open>io_task_base.cpp\<close>, \<^verbatim>\<open>timer_task.cpp\<close> and \<^verbatim>\<open>net_io_task.cpp\<close> that
  are built on it. \<open>cur\<close> is \<^verbatim>\<open>worker::get()\<close>: the worker whose thread is executing, if any.
\<close>

section \<open>The closures\<close>

definition ev_start :: "tid \<Rightarrow> loop \<Rightarrow> sys \<Rightarrow> sys result" where
  "ev_start t l s =
     rbind (task_of s t) (\<lambda>e.
       if em_active e = None then upd_task t (\<lambda>e. e\<lparr>em_active := Some l\<rparr>) s else Inr s)"

definition ev_stop :: "tid \<Rightarrow> sys \<Rightarrow> sys result" where
  "ev_stop t s =
     rbind (task_of s t) (\<lambda>e.
       if em_active e \<noteq> None then upd_task t (\<lambda>e. e\<lparr>em_active := None\<rparr>) s else Inr s)"

definition add_event :: "event \<Rightarrow> wid \<Rightarrow> sys \<Rightarrow> sys" where
  "add_event e w s = upd_worker w (\<lambda>k. k\<lparr>wm_events_queue := wm_events_queue k @ [e]\<rparr>) s"

text \<open>\<^verbatim>\<open>io_task_base::init_watcher\<close>; the timer's and the disk task's do nothing.\<close>

definition init_watcher :: "tid \<Rightarrow> sys \<Rightarrow> sys result" where
  "init_watcher t s =
     rbind (task_of s t) (\<lambda>e.
       if em_kind e = Io_task
       then upd_task t (\<lambda>e. e\<lparr>em_watch := (em_fd e, em_events e), em_watcher_initialized := True\<rparr>) s
       else Inr s)"

definition loop_worker :: "loop \<Rightarrow> sys \<Rightarrow> wid result" where
  "loop_worker l s = (case userdata s l of None \<Rightarrow> Inl Memory | Some w \<Rightarrow> Inr w)"

definition set_events :: "int \<Rightarrow> tid \<Rightarrow> sys \<Rightarrow> sys result" where
  "set_events events t s =
     upd_task t (\<lambda>e. if em_events e \<noteq> events
                     then e\<lparr>em_events := events, em_change_pending := True\<rparr> else e) s"

text \<open>The closure of \<^verbatim>\<open>update_watcher\<close>: a watcher that is active is started again with the new mask.\<close>

definition update_io :: "tid \<Rightarrow> loop \<Rightarrow> sys \<Rightarrow> sys result" where
  "update_io t l s =
     upd_task t (\<lambda>e. e\<lparr>em_watch := (em_fd e, em_events e),
                       em_active := (if em_active e = None then None else Some l)\<rparr>) s"

text \<open>
  Closures run on the thread of the leader that owns the loop. So in \<^verbatim>\<open>send_response\<close>, which takes
  \<^verbatim>\<open>worker::get()\<close> and calls its \<^verbatim>\<open>update_watcher\<close>, the inner closure runs at once on the same loop
  (\<open>send_response_on_leader\<close> below).
\<close>

fun run_func :: "task_func \<Rightarrow> loop \<Rightarrow> sys \<Rightarrow> sys result" where
  "run_func (Start_io t) l s = ev_start t l s"
| "run_func (Stop_io t) l s = ev_stop t s"
| "run_func (Update_io t) l s = update_io t l s"
| "run_func (Dispose_io t) l s = rbind (ev_stop t s) (\<lambda>s. Inr (delete_task t s))"
| "run_func (Start_timer t) l s = ev_start t l s"
| "run_func (Stop_timer t) l s = ev_stop t s"
| "run_func (Add_net w t) l s =
     rbind (init_watcher t s) (\<lambda>s. rbind (assign_worker w t s) (\<lambda>s. ev_start t l s))"
| "run_func (Async_event e) l s = rbind (loop_worker l s) (\<lambda>w. Inr (add_event e w s))"
| "run_func (Send_response t) l s =
     rbind (set_events EV_WRITE t s) (\<lambda>s.
       rbind (task_of s t) (\<lambda>e. rbind (assert_that (em_watcher_initialized e)) (\<lambda>_.
         if em_change_pending e
         then rbind (update_io t l s) (upd_task t (\<lambda>e. e\<lparr>em_change_pending := False\<rparr>))
         else Inr s)))"

declare update_io_def [simp]

section \<open>worker.h: executing in a worker's context\<close>

text \<open>
  \<^verbatim>\<open>loop_ptr\<close>: in multi loop mode the worker's own loop, which must exist, and the default loop
  otherwise.
\<close>

definition loop_ptr :: "wid \<Rightarrow> sys \<Rightarrow> loop result" where
  "loop_ptr w s =
     (case m_run_mode s of
        MULTI_LOOP \<Rightarrow> rbind (worker_of s w) (\<lambda>k.
          case wm_loop k of None \<Rightarrow> Inl Assertion | Some l \<Rightarrow> Inr l)
      | SINGLE_LOOP \<Rightarrow> Inr 0)"

definition async_call :: "wid \<Rightarrow> task_func \<Rightarrow> sys \<Rightarrow> sys result" where
  "async_call w f s =
     rbind (worker_of s w) (\<lambda>_.
       let s1 = upd_worker w (\<lambda>k. k\<lparr>wm_tfq := wm_tfq k @ [f]\<rparr>) s
       in rbind (loop_ptr w s1) (\<lambda>_. Inr (upd_worker w (\<lambda>k. k\<lparr>wm_async_sent := True\<rparr>) s1)))"

definition exec_in_worker_ctx :: "wid option \<Rightarrow> wid \<Rightarrow> task_func \<Rightarrow> sys \<Rightarrow> (bool \<times> sys) result" where
  "exec_in_worker_ctx cur w f s =
     rbind (worker_of s w) (\<lambda>k.
       if wm_leader k \<and> cur = Some w
       then (case wm_loop k of
               None \<Rightarrow> Inl Memory
             | Some l \<Rightarrow> map_sum id (Pair True) (run_func f l s))
       else map_sum id (Pair False) (async_call w f s))"

definition last_worker :: "sys \<Rightarrow> wid" where
  "last_worker s = dm_last_worker_id s"

definition add_async_event :: "event \<Rightarrow> sys \<Rightarrow> sys result" where
  "add_async_event e s = async_call (last_worker s) (Async_event e) s"

text \<open>
  \<^verbatim>\<open>tasks_async_callback\<close>: the executing worker is the one registered at the loop. The queue of the
  signalled worker is swapped out and its closures run one by one in that worker's context. The call
  that runs a closure is the argument of \<^verbatim>\<open>assert\<close>, so with \<^verbatim>\<open>NDEBUG\<close> (a Release build) it is not
  compiled.
\<close>

fun run_queued :: "bool \<Rightarrow> wid \<Rightarrow> task_func list \<Rightarrow> sys \<Rightarrow> sys result" where
  "run_queued ndebug w [] s = Inr s"
| "run_queued ndebug w (f # fs) s =
     (if ndebug then run_queued ndebug w fs s
      else rbind (exec_in_worker_ctx (Some w) w f s) (\<lambda>(done, s).
             rbind (assert_that done) (\<lambda>_. run_queued ndebug w fs s)))"

definition tasks_async_callback :: "bool \<Rightarrow> loop \<Rightarrow> wid \<Rightarrow> sys \<Rightarrow> sys result" where
  "tasks_async_callback ndebug l signalled s =
     (case userdata s l of
        None \<Rightarrow> Inl Assertion
      | Some w \<Rightarrow>
          rbind (worker_of s signalled) (\<lambda>k.
            run_queued ndebug w (wm_tfq k)
              (upd_worker signalled (\<lambda>k. k\<lparr>wm_tfq := [], wm_async_sent := False\<rparr>) s)))"

section \<open>Watcher methods\<close>

definition in_ctx :: "wid option \<Rightarrow> wid \<Rightarrow> task_func \<Rightarrow> sys \<Rightarrow> sys result" where
  "in_ctx cur w f s = map_sum id snd (exec_in_worker_ctx cur w f s)"

definition io_start_watcher :: "wid option \<Rightarrow> wid \<Rightarrow> tid \<Rightarrow> sys \<Rightarrow> sys result" where
  "io_start_watcher cur w t s =
     rbind (task_of s t) (\<lambda>e. rbind (assert_that (em_watcher_initialized e)) (\<lambda>_.
       in_ctx cur w (Start_io t) s))"

definition io_stop_watcher :: "wid option \<Rightarrow> wid \<Rightarrow> tid \<Rightarrow> sys \<Rightarrow> sys result" where
  "io_stop_watcher cur w t s =
     rbind (task_of s t) (\<lambda>e. rbind (assert_that (em_watcher_initialized e)) (\<lambda>_.
       in_ctx cur w (Stop_io t) s))"

definition update_watcher :: "wid option \<Rightarrow> wid \<Rightarrow> tid \<Rightarrow> sys \<Rightarrow> sys result" where
  "update_watcher cur w t s =
     rbind (task_of s t) (\<lambda>e. rbind (assert_that (em_watcher_initialized e)) (\<lambda>_.
       if em_change_pending e
       then rbind (in_ctx cur w (Update_io t) s) (upd_task t (\<lambda>e. e\<lparr>em_change_pending := False\<rparr>))
       else Inr s))"

lemma send_response_on_leader:
  assumes "w < length (workers s)" "wm_leader (workers s ! w)" "wm_loop (workers s ! w) = Some l"
  shows "run_func (Send_response t) l s = rbind (set_events EV_WRITE t s) (update_watcher (Some w) w t)"
proof (rule trans [OF run_func.simps(9)], rule rbind_cong [OF refl])
  fix s1
  assume "set_events EV_WRITE t s = Inr s1"
  then have "workers s1 = workers s" by (auto simp: set_events_def upd_task_def)
  with assms show "rbind (task_of s1 t) (\<lambda>e. rbind (assert_that (em_watcher_initialized e)) (\<lambda>_.
         if em_change_pending e
         then rbind (update_io t l s1) (upd_task t (\<lambda>e. e\<lparr>em_change_pending := False\<rparr>)) else Inr s1)) =
      update_watcher (Some w) w t s1"
    by (auto simp: update_watcher_def in_ctx_def exec_in_worker_ctx_def worker_of_def upd_task_def
        simp del: update_io_def intro!: rbind_cong) (auto simp: update_io_def upd_task_def rbind_def split: sum.splits)
qed

definition io_dispose :: "wid option \<Rightarrow> wid \<Rightarrow> tid \<Rightarrow> sys \<Rightarrow> sys result" where
  "io_dispose cur w t s = in_ctx cur w (Dispose_io t) s"

definition net_add_task :: "wid option \<Rightarrow> wid \<Rightarrow> tid \<Rightarrow> sys \<Rightarrow> sys result" where
  "net_add_task cur w t s = in_ctx cur w (Add_net w t) s"

text \<open>
  The virtual \<^verbatim>\<open>start_watcher\<close> and \<^verbatim>\<open>stop_watcher\<close>. \<open>start_armed\<close> is \<^verbatim>\<open>start_watcher\<close> but
  for the immediate execution of a timer, which calls back into the event handler.
\<close>

definition start_armed :: "wid option \<Rightarrow> wid \<Rightarrow> tid \<Rightarrow> sys \<Rightarrow> sys result" where
  "start_armed cur w t s =
     rbind (task_of s t) (\<lambda>e.
       case em_kind e of
         Io_task \<Rightarrow> io_start_watcher cur w t s
       | Timer_task \<Rightarrow> in_ctx cur w (Start_timer t) s
       | Cleanup_task _ \<Rightarrow> in_ctx cur w (Start_timer t) s
       | Disk_task \<Rightarrow> Inr s)"

definition stop_watcher :: "wid option \<Rightarrow> wid \<Rightarrow> tid \<Rightarrow> sys \<Rightarrow> sys result" where
  "stop_watcher cur w t s =
     rbind (task_of s t) (\<lambda>e.
       case em_kind e of
         Io_task \<Rightarrow> io_stop_watcher cur w t s
       | Timer_task \<Rightarrow> in_ctx cur w (Stop_timer t) s
       | Cleanup_task _ \<Rightarrow> in_ctx cur w (Stop_timer t) s
       | Disk_task \<Rightarrow> Inr s)"

text \<open>
  \<^verbatim>\<open>tasks_event_callback\<close>: an event fired on the watcher of a task. The watcher is stopped before
  the event is queued, so it stays silent until the handler has run.
\<close>

definition tasks_event_callback :: "loop \<Rightarrow> wid option \<Rightarrow> tid \<Rightarrow> int \<Rightarrow> sys \<Rightarrow> sys result" where
  "tasks_event_callback l cur t e s =
     (case userdata s l of
        None \<Rightarrow> Inl Assertion
      | Some w \<Rightarrow>
          rbind (stop_watcher cur w t s) (\<lambda>s.
            Inr (add_event \<lparr>ev_task = t, ev_revents = e\<rparr> w s)))"

end
