(* ===== verification/Dispatcher.thy ===== *)
theory Dispatcher
  imports Watchers
begin

text \<open>
  The dispatcher (\<^verbatim>\<open>tasks/dispatcher.cpp\<close>, \<^verbatim>\<open>include/tasks/dispatcher.h\<close>): the pool of free
  workers, the choice of a worker for a task, and adding and removing event tasks. Executors and
  exec tasks are in the theory of the executor.
\<close>

section \<open>Construction\<close>

text \<open>
  The constructor. \<^verbatim>\<open>instance()\<close> passes the number of processors, which the \<^verbatim>\<open>uint8_t\<close>
  parameter reduces modulo 256.
\<close>

definition dispatcher_new :: "mode \<Rightarrow> 8 word \<Rightarrow> sys" where
  "dispatcher_new m num_workers =
     \<lparr>m_run_mode = m, dm_num_workers = num_workers,
      dm_workers_busy = bitset_new (unat num_workers), dm_last_worker_id = 0, dm_rr_worker_id = 0,
      dm_started = False, dm_term = False, workers = [], userdata = (\<lambda>_. None),
      tasks = Map.empty, next_tid = 0, history = []\<rparr>"

definition dispatcher_instance :: "mode \<Rightarrow> int \<Rightarrow> sys" where
  "dispatcher_instance m nprocessors = dispatcher_new m (word_of_int nprocessors)"

section \<open>The pool of free workers\<close>

definition free_worker :: "sys \<Rightarrow> (wid option \<times> sys) result" where
  "free_worker s =
     (if 1 < unat (dm_num_workers s)
      then rbind (bitset_next (dm_workers_busy s) (dm_last_worker_id s)) (\<lambda>r.
             case r of
               None \<Rightarrow> Inr (None, s)
             | Some i \<Rightarrow>
                 rbind (bitset_unset i (dm_workers_busy s)) (\<lambda>b.
                   Inr (Some i, s\<lparr>dm_last_worker_id := i, dm_workers_busy := b\<rparr>)))
      else Inr (None, s))"

definition add_free_worker :: "wid \<Rightarrow> sys \<Rightarrow> sys result" where
  "add_free_worker i s =
     rbind (bitset_set i (dm_workers_busy s)) (\<lambda>b. Inr (s\<lparr>dm_workers_busy := b\<rparr>))"

section \<open>Choosing a worker\<close>

text \<open>
  \<^verbatim>\<open>get_worker_by_task\<close>: the assigned worker, or in multi loop mode the next one of the 8 bit
  round robin counter, or in single loop mode the executing worker, or else the last promoted one.
\<close>

definition get_worker_by_task :: "wid option \<Rightarrow> tid \<Rightarrow> sys \<Rightarrow> (wid \<times> sys) result" where
  "get_worker_by_task cur t s =
     rbind (task_of s t) (\<lambda>e.
       case em_worker e of
         Some w \<Rightarrow> Inr (w, s)
       | None \<Rightarrow>
           (case m_run_mode s of
              MULTI_LOOP \<Rightarrow>
                (if dm_num_workers s = 0 then Inl Arithmetic
                 else (let w = unat (dm_rr_worker_id s) mod unat (dm_num_workers s);
                           s' = s\<lparr>dm_rr_worker_id := dm_rr_worker_id s + 1\<rparr>
                       in rbind (worker_of s' w) (\<lambda>_. Inr (w, s'))))
            | SINGLE_LOOP \<Rightarrow>
                (case cur of
                   Some w \<Rightarrow> Inr (w, s)
                 | None \<Rightarrow> rbind (worker_of s (dm_last_worker_id s)) (\<lambda>_.
                     Inr (dm_last_worker_id s, s)))))"

section \<open>Removing tasks\<close>

definition dispose_later :: "wid option \<Rightarrow> wid \<Rightarrow> tid \<Rightarrow> sys \<Rightarrow> sys result" where
  "dispose_later cur w t s =
     (case new_task (cleanup_task_new t) s of
        (ct, s) \<Rightarrow>
          rbind (init_watcher ct s) (\<lambda>s. rbind (assign_worker w ct s) (start_armed cur w ct)))"

text \<open>
  \<^verbatim>\<open>remove_event_task\<close>: a disposable that can be disposed is disposed in the context of its
  worker; one that cannot yet gets a cleanup task that tries again every second; everything else is
  deleted at once.
\<close>

definition remove_event_task :: "wid option \<Rightarrow> tid \<Rightarrow> sys \<Rightarrow> sys result" where
  "remove_event_task cur t s =
     rbind (task_of s t) (\<lambda>e.
       if is_disposable e
       then rbind (get_worker_by_task cur t s) (\<lambda>(w, s).
              if em_can_dispose e
              then io_dispose cur w t s
              else dispose_later cur w t s)
       else Inr (delete_task t s))"

text \<open>\<^verbatim>\<open>task::finish\<close> of an event task: the finish callbacks, then \<^verbatim>\<open>remove_task\<close>.\<close>

definition task_finish :: "wid option \<Rightarrow> wid option \<Rightarrow> tid \<Rightarrow> sys \<Rightarrow> sys result" where
  "task_finish cur w t s =
     rbind (task_of s t) (\<lambda>e.
       remove_event_task cur t (fold (run_finish_cb w) (em_finish_funcs e) s))"

end
