(* ===== verification/Worker.thy ===== *)
theory Worker
  imports Dispatcher
begin

text \<open>
  The worker thread (\<^verbatim>\<open>tasks/worker.cpp\<close>, \<^verbatim>\<open>include/tasks/worker.h\<close>): executing an event
  handler, promoting the next leader, and the steps of \<^verbatim>\<open>worker::run\<close>; with it the parts of the
  dispatcher that start workers and add tasks.

  User code enters through \<open>handler\<close>: what \<^verbatim>\<open>handle_event\<close> of a task does is a list of calls of
  the library's interface on the task itself (\<open>h_action\<close>) and the boolean it returns, both an
  arbitrary function of the task, the event mask and the state.
\<close>

section \<open>Event handlers\<close>

datatype h_action =
    Set_exception tasks_exception
  | Set_events int
  | Update_watcher
  | Disable_dispose
  | Enable_dispose
  | Disable_auto_delete
  | On_finish callback
  | On_error callback
  | Finish_response
  | Spawn int int  \<comment> \<open>a new \<^verbatim>\<open>net_io_task\<close> on a descriptor, passed to \<^verbatim>\<open>add_task(worker, task)\<close>\<close>

type_synonym handler = "tid \<Rightarrow> int \<Rightarrow> sys \<Rightarrow> h_action list \<times> bool"

text \<open>The constructor \<^verbatim>\<open>net_io_task(socket, events)\<close>, which sets up the watcher of an open socket.\<close>

definition net_io_task_new :: "int \<Rightarrow> int \<Rightarrow> etask" where
  "net_io_task_new fd events =
     (let e = (io_task_base_new events)\<lparr>em_fd := fd\<rparr>
      in if fd \<noteq> -1 then e\<lparr>em_watch := (fd, events), em_watcher_initialized := True\<rparr> else e)"

text \<open>
  The end of the finish callback that \<^verbatim>\<open>uwsgi_thrift_async_processor\<close> gives to its handler: unless the task
  has failed meanwhile the response is sent from the context of a worker, then disposal is allowed again.
  It is called by the handler of the task itself or, when the service has gone on elsewhere, by any thread.
\<close>

definition finish_response :: "wid option \<Rightarrow> tid \<Rightarrow> sys \<Rightarrow> sys result" where
  "finish_response cur t s =
     rbind (task_of s t) (\<lambda>e.
       rbind (if error_code e = UNSET
              then rbind (get_worker_by_task cur t s) (\<lambda>(w, s). in_ctx cur w (Send_response t) s)
              else Inr s)
         (upd_task t enable_dispose))"

fun perform :: "wid option \<Rightarrow> wid \<Rightarrow> tid \<Rightarrow> h_action \<Rightarrow> sys \<Rightarrow> sys result" where
  "perform cur w t (Set_exception x) s = upd_task t (set_exception x) s"
| "perform cur w t (Set_events n) s = set_events n t s"
| "perform cur w t Update_watcher s = update_watcher cur w t s"
| "perform cur w t Disable_dispose s = upd_task t disable_dispose s"
| "perform cur w t Enable_dispose s = upd_task t enable_dispose s"
| "perform cur w t Disable_auto_delete s = upd_task t disable_auto_delete s"
| "perform cur w t (On_finish f) s = upd_task t (on_finish f) s"
| "perform cur w t (On_error f) s = upd_task t (on_error f) s"
| "perform cur w t Finish_response s = finish_response cur t s"
| "perform cur w t (Spawn fd events) s =
     (let (c, s) = new_task (net_io_task_new fd events) s in net_add_task cur w c s)"

fun perform_all :: "wid option \<Rightarrow> wid \<Rightarrow> tid \<Rightarrow> h_action list \<Rightarrow> sys \<Rightarrow> sys result" where
  "perform_all cur w t [] s = Inr s"
| "perform_all cur w t (a # as) s = rbind (perform cur w t a s) (perform_all cur w t as)"

text \<open>
  The virtual \<^verbatim>\<open>handle_event\<close>: the cleanup task's own (\<^verbatim>\<open>cleanup_task.h\<close>), the disk task's own
  (it only lets itself be deleted), and user code for the rest.
\<close>

definition cleanup_handle_event :: "wid option \<Rightarrow> wid \<Rightarrow> tid \<Rightarrow> sys \<Rightarrow> (bool \<times> sys) result" where
  "cleanup_handle_event cur w d s =
     rbind (task_of s d) (\<lambda>de.
       if em_can_dispose de
       then rbind (io_dispose cur w d s) (\<lambda>s. Inr (False, s))
       else Inr (True, s))"

definition handle_event ::
  "handler \<Rightarrow> wid option \<Rightarrow> wid \<Rightarrow> tid \<Rightarrow> int \<Rightarrow> sys \<Rightarrow> (bool \<times> sys) result" where
  "handle_event H cur w t revents s =
     rbind (task_of s t) (\<lambda>e.
       let s = add_log (Handled w t revents) s
       in case em_kind e of
            Cleanup_task d \<Rightarrow> cleanup_handle_event cur w d s
          | Disk_task \<Rightarrow> Inr (False, s)
          | _ \<Rightarrow> (let (acts, cont) = H t revents s
                  in rbind (perform_all cur w t acts s) (\<lambda>s. Inr (cont, s))))"

text \<open>
  \<^verbatim>\<open>worker::exec_event_handler\<close>, over the \<^verbatim>\<open>start_watcher\<close> it calls. An immediate timer's
  \<^verbatim>\<open>start_watcher\<close> calls \<^verbatim>\<open>exec_event_handler\<close> again, but only after clearing the flag, so the
  second call starts the watcher through the plain path: two levels close the recursion
  (\<open>start_watcher_no_immediate\<close> below).
\<close>

definition exec_handler ::
  "(wid option \<Rightarrow> wid \<Rightarrow> tid \<Rightarrow> sys \<Rightarrow> sys result) \<Rightarrow>
   handler \<Rightarrow> wid option \<Rightarrow> wid \<Rightarrow> event \<Rightarrow> sys \<Rightarrow> sys result" where
  "exec_handler start H cur w ev s =
     rbind (handle_event H cur w (ev_task ev) (ev_revents ev) s) (\<lambda>(cont, s).
       rbind (task_of s (ev_task ev)) (\<lambda>e.
         rbind (if error e then notify_error (Some w) (ev_task ev) s else Inr s) (\<lambda>s.
           if cont
           then rbind (upd_task (ev_task ev) reset_error s) (start cur w (ev_task ev))
           else if em_auto_delete e
           then task_finish cur (Some w) (ev_task ev) s
           else Inr s)))"

lemma exec_handlerE:
  assumes "exec_handler start H cur w ev s = Inr s'"
  obtains c s1 s2 and e :: etask where "handle_event H cur w (ev_task ev) (ev_revents ev) s = Inr (c, s1)"
    "(if error e then notify_error (Some w) (ev_task ev) s1 else Inr s1) = Inr s2"
    "(if c then rbind (upd_task (ev_task ev) reset_error s2) (start cur w (ev_task ev))
      else if em_auto_delete e then task_finish cur (Some w) (ev_task ev) s2 else Inr s2) = Inr s'"
  using assms
  by (simp only: exec_handler_def rbind_Inr split_paired_Ex prod.case) (elim exE conjE, rule that, assumption+)

definition is_timer :: "etask \<Rightarrow> bool" where
  "is_timer e \<longleftrightarrow> (case em_kind e of Timer_task \<Rightarrow> True | Cleanup_task _ \<Rightarrow> True | _ \<Rightarrow> False)"

definition start_watcher :: "handler \<Rightarrow> wid option \<Rightarrow> wid \<Rightarrow> tid \<Rightarrow> sys \<Rightarrow> sys result" where
  "start_watcher H cur w t s =
     rbind (task_of s t) (\<lambda>e.
       if is_timer e \<and> em_immediate e
       then rbind (upd_task t (\<lambda>e. e\<lparr>em_immediate := False\<rparr>) s)
              (exec_handler start_armed H cur w \<lparr>ev_task = t, ev_revents = 0\<rparr>)
       else start_armed cur w t s)"

definition exec_event_handler :: "handler \<Rightarrow> wid option \<Rightarrow> wid \<Rightarrow> event \<Rightarrow> sys \<Rightarrow> sys result" where
  "exec_event_handler H = exec_handler (start_watcher H) H"

lemma start_watcher_no_immediate:
  "tasks s t = Some e \<Longrightarrow> \<not> em_immediate e \<Longrightarrow> start_watcher H cur w t s = start_armed cur w t s"
  by (simp add: start_watcher_def task_of_def)

section \<open>Adding tasks\<close>

definition add_event_task :: "handler \<Rightarrow> wid option \<Rightarrow> tid \<Rightarrow> sys \<Rightarrow> sys result" where
  "add_event_task H cur t s =
     rbind (get_worker_by_task cur t s) (\<lambda>(w, s).
       rbind (init_watcher t s) (\<lambda>s. rbind (assign_worker w t s) (start_watcher H cur w t)))"

definition add_task :: "handler \<Rightarrow> wid option \<Rightarrow> tid \<Rightarrow> sys \<Rightarrow> sys result" where
  "add_task H cur t s = rbind (assert_that (dm_started s)) (\<lambda>_. add_event_task H cur t s)"

section \<open>Leadership\<close>

definition mark_free :: "wid \<Rightarrow> sys \<Rightarrow> sys result" where
  "mark_free w s = (case m_run_mode s of SINGLE_LOOP \<Rightarrow> add_free_worker w s | MULTI_LOOP \<Rightarrow> Inr s)"

definition set_event_loop :: "loop \<Rightarrow> wid \<Rightarrow> sys \<Rightarrow> sys" where
  "set_event_loop l w s =
     upd_worker w (\<lambda>k. k\<lparr>wm_loop := Some l, wm_leader := True\<rparr>)
       (s\<lparr>userdata := (userdata s)(l := Some w)\<rparr>)"

text \<open>
  \<^verbatim>\<open>promote_leader\<close> in the two parts another thread can come between: giving up the lead after a
  follower was claimed, and passing the loop on to it.
\<close>

definition set_pc :: "pc \<Rightarrow> wid \<Rightarrow> sys \<Rightarrow> sys" where
  "set_pc p w s = upd_worker w (\<lambda>k. k\<lparr>wm_pc := p\<rparr>) s"

definition promote_claim :: "wid \<Rightarrow> sys \<Rightarrow> sys result" where
  "promote_claim w s =
     (case m_run_mode s of
        MULTI_LOOP \<Rightarrow> Inr (set_pc Handling w s)
      | SINGLE_LOOP \<Rightarrow>
          rbind (free_worker s) (\<lambda>(r, s).
            case r of
              None \<Rightarrow> Inr (set_pc Handling w s)
            | Some x \<Rightarrow> Inr (set_pc (Handing x) w (upd_worker w (\<lambda>k. k\<lparr>wm_leader := False\<rparr>) s))))"

definition promote_pass :: "wid \<Rightarrow> wid \<Rightarrow> sys \<Rightarrow> sys result" where
  "promote_pass w x s =
     rbind (worker_of s w) (\<lambda>k.
       rbind (worker_of s x) (\<lambda>_.
         case wm_loop k of
           None \<Rightarrow> Inl Memory
         | Some l \<Rightarrow>
             Inr (set_pc Handling w
               (set_event_loop l x (upd_worker w (\<lambda>k. k\<lparr>wm_loop := None\<rparr>) s)))))"

section \<open>worker::run\<close>

text \<open>
  One round of the loop over the queued events. The event is taken out of the queue only after its
  handler has run.
\<close>

definition handle_front :: "handler \<Rightarrow> wid \<Rightarrow> sys \<Rightarrow> sys result" where
  "handle_front H w s =
     rbind (worker_of s w) (\<lambda>k.
       case wm_events_queue k of
         [] \<Rightarrow> Inr (set_pc Running w s)
       | ev # _ \<Rightarrow>
           rbind (exec_event_handler H (Some w) w ev
                    (upd_worker w (\<lambda>k. k\<lparr>wm_events_count := wm_events_count k + 1\<rparr>) s))
             (\<lambda>s. Inr (upd_worker w (\<lambda>k. k\<lparr>wm_events_queue := tl (wm_events_queue k)\<rparr>) s)))"

text \<open>
  One step of the thread of worker \<open>w\<close>. A waiting follower and a leader inside \<^verbatim>\<open>ev_loop\<close> do not
  move by themselves: the first until it is promoted or terminated, the second until libev returns.
\<close>

definition advance :: "handler \<Rightarrow> wid \<Rightarrow> sys \<Rightarrow> sys result" where
  "advance H w s =
     rbind (worker_of s w) (\<lambda>k.
       case wm_pc k of
         Boot \<Rightarrow> rbind (mark_free w s) (\<lambda>s. Inr (set_pc Waiting w s))
       | Waiting \<Rightarrow> if wm_leader k \<or> wm_term k then Inr (set_pc Running w s) else Inr s
       | Running \<Rightarrow>
           if wm_leader k \<and> \<not> wm_term k then Inr (set_pc Polling w s)
           else if \<not> wm_term k then rbind (mark_free w s) (\<lambda>s. Inr (set_pc Waiting w s))
           else Inr (set_pc Exited w s)
       | Polling \<Rightarrow> Inr s
       | Polled \<Rightarrow> if wm_events_queue k = [] then Inr (set_pc Running w s) else promote_claim w s
       | Handing x \<Rightarrow> promote_pass w x s
       | Handling \<Rightarrow> handle_front H w s
       | Exited \<Rightarrow> Inr s)"

section \<open>dispatcher::start\<close>

text \<open>The worker's constructor; its thread starts at the top of \<^verbatim>\<open>run\<close>.\<close>

definition worker_new :: "nat \<Rightarrow> loop option \<Rightarrow> worker" where
  "worker_new i l = \<lparr>wm_id = word_of_nat i, wm_events_count = 0, wm_loop = l, wm_term = False,
     wm_leader = (l \<noteq> None), wm_events_queue = [], wm_tfq = [], wm_async_sent = False, wm_pc = Boot\<rparr>"

text \<open>
  The first loop of \<^verbatim>\<open>start\<close>: in multi loop mode worker \<open>i\<close> gets a loop of its own, the default
  loop for the first and a new one for each other.
\<close>

fun start_workers :: "nat list \<Rightarrow> sys \<Rightarrow> sys result" where
  "start_workers [] s = Inr s"
| "start_workers (i # is) s =
     rbind (bitset_unset i (dm_workers_busy s)) (\<lambda>b.
       let l = (case m_run_mode s of MULTI_LOOP \<Rightarrow> Some i | SINGLE_LOOP \<Rightarrow> None);
           s1 = s\<lparr>dm_workers_busy := b, workers := workers s @ [worker_new i l]\<rparr>;
           s2 = (case l of None \<Rightarrow> s1 | Some l \<Rightarrow> s1\<lparr>userdata := (userdata s1)(l := Some i)\<rparr>)
       in start_workers is s2)"

definition start_spawn :: "sys \<Rightarrow> sys result" where
  "start_spawn s = start_workers [0..<unat (dm_num_workers s)] s"

text \<open>
  The rest of \<^verbatim>\<open>start\<close> in single loop mode, once every worker has marked itself free: the first
  worker gets the default loop.
\<close>

definition all_free :: "sys \<Rightarrow> bool" where
  "all_free s \<longleftrightarrow> list_all (\<lambda>i. bitset_test (dm_workers_busy s) i = Inr True) [0..<unat (dm_num_workers s)]"

definition start_promote :: "sys \<Rightarrow> sys result" where
  "start_promote s =
     (case m_run_mode s of
        MULTI_LOOP \<Rightarrow> Inr (s\<lparr>dm_started := True\<rparr>)
      | SINGLE_LOOP \<Rightarrow>
          rbind (bitset_unset 0 (dm_workers_busy s)) (\<lambda>b.
            rbind (worker_of s 0) (\<lambda>_.
              Inr ((set_event_loop 0 0 (s\<lparr>dm_workers_busy := b\<rparr>))\<lparr>dm_started := True\<rparr>))))"

section \<open>Termination\<close>

text \<open>\<^verbatim>\<open>worker::terminate\<close> up to the join: the flag, and a wake-up of the leader's loop.\<close>

definition worker_terminate :: "wid \<Rightarrow> sys \<Rightarrow> sys result" where
  "worker_terminate w s =
     rbind (worker_of s w) (\<lambda>k.
       let s = upd_worker w (\<lambda>k. k\<lparr>wm_term := True\<rparr>) s
       in if wm_leader k
          then rbind (loop_ptr w s) (\<lambda>_. Inr (upd_worker w (\<lambda>k. k\<lparr>wm_async_sent := True\<rparr>) s))
          else Inr s)"

text \<open>\<^verbatim>\<open>dispatcher::terminate\<close>: any thread may ask for the end; \<^verbatim>\<open>join\<close> looks at the flag.\<close>

definition dispatcher_terminate :: "sys \<Rightarrow> sys" where
  "dispatcher_terminate s = s\<lparr>dm_term := True\<rparr>"

end
