(* ===== verification/Leader_Followers.thy ===== *)
theory Leader_Followers
  imports Worker
begin

text \<open>
  The Leader/Followers protocol as the threads run it: the steps of the worker threads, of libev
  inside \<^verbatim>\<open>ev_loop\<close>, and of the thread that called \<^verbatim>\<open>dispatcher::start\<close>, interleaved in any order,
  with the invariant of the single loop mode: the one event loop is never lost and never owned twice,
  only its owner polls it, and a follower that is promoted is idle.
\<close>

section \<open>Steps\<close>

text \<open>
  \<open>ndebug\<close> and the user's handlers are parameters. While a leader is inside \<^verbatim>\<open>ev_loop\<close> any active
  watcher of its loop can fire and the callback of any signalled async watcher of its loop can run;
  every worker's async watcher is registered at the default loop in single loop mode and at the
  worker's own loop in multi loop mode. Threads outside the task system add tasks, and post the
  completion event of a disk task, or finish the response of a task that has taken a request (which in
  multi loop mode has a worker), and any thread may ask for the end.
\<close>

inductive lf_step :: "handler \<Rightarrow> sys \<Rightarrow> sys \<Rightarrow> bool" for H where
  thread: "advance H w s = Inr s' \<Longrightarrow> lf_step H s s'"
| fire: "\<lbrakk>w < length (workers s); wm_pc (workers s ! w) = Polling; wm_loop (workers s ! w) = Some l;
     tasks s t = Some e; em_active e = Some l; tasks_event_callback l (Some w) t r s = Inr s'\<rbrakk>
     \<Longrightarrow> lf_step H s s'"
| async: "\<lbrakk>w < length (workers s); wm_pc (workers s ! w) = Polling; wm_loop (workers s ! w) = Some l;
     v < length (workers s); wm_async_sent (workers s ! v); m_run_mode s = MULTI_LOOP \<longrightarrow> v = w;
     tasks_async_callback False l v s = Inr s'\<rbrakk> \<Longrightarrow> lf_step H s s'"
| poll_return: "\<lbrakk>w < length (workers s); wm_pc (workers s ! w) = Polling\<rbrakk>
     \<Longrightarrow> lf_step H s (set_pc Polled w s)"
| start: "\<lbrakk>\<not> dm_started s; m_run_mode s = SINGLE_LOOP \<longrightarrow> all_free s; start_promote s = Inr s'\<rbrakk> \<Longrightarrow> lf_step H s s'"
| add: "\<lbrakk>new_task e s = (t, s1); em_active e = None; add_task H None t s1 = Inr s'\<rbrakk>
     \<Longrightarrow> lf_step H s s'"
| post: "\<lbrakk>tasks s (ev_task ev) = Some e; em_kind e = Disk_task; add_async_event ev s = Inr s'\<rbrakk>
     \<Longrightarrow> lf_step H s s'"
| finish: "\<lbrakk>tasks s t = Some e; em_kind e = Io_task; m_run_mode s = MULTI_LOOP \<longrightarrow> em_worker e \<noteq> None;
     finish_response None t s = Inr s'\<rbrakk> \<Longrightarrow> lf_step H s s'"
| terminate: "worker_terminate w s = Inr s' \<Longrightarrow> lf_step H s s'"
| quit: "lf_step H s (dispatcher_terminate s)"

text \<open>The system after \<^verbatim>\<open>start\<close> has created the workers, and what can be reached from there.\<close>

inductive lf_reach :: "handler \<Rightarrow> mode \<Rightarrow> 8 word \<Rightarrow> sys \<Rightarrow> bool" for H m n where
  init: "start_spawn (dispatcher_new m n) = Inr s \<Longrightarrow> lf_reach H m n s"
| step: "lf_reach H m n s \<Longrightarrow> lf_step H s s' \<Longrightarrow> lf_reach H m n s'"

section \<open>What task operations leave alone\<close>

definition core :: "worker \<Rightarrow> loop option \<times> bool \<times> pc \<times> bool \<times> event list" where
  "core k = (wm_loop k, wm_leader k, wm_pc k, wm_term k, wm_events_queue k)"

text \<open>
  The control state: everything leadership depends on. The operations on tasks and watchers do not
  change it; an equation \<open>ctl s' = ctl s\<close> is their frame.
\<close>

definition ctl where
  "ctl s = (m_run_mode s, dm_num_workers s, dm_workers_busy s, dm_last_worker_id s, userdata s,
     dm_started s, map core (workers s))"

named_theorems frame \<open>operations that leave the control state alone\<close>

lemma ctl_upd_worker:
  "(\<And>k. core (f k) = core k) \<Longrightarrow> ctl (upd_worker w f s) = ctl s"
  by (simp add: ctl_def upd_worker_def map_update list_update_same_conv)
     (metis length_map list_update_beyond list_update_id map_update nth_map not_le)

lemma ctl_simps [simp]:
  "ctl (add_log x s) = ctl s" "ctl (delete_task t s) = ctl s"
  "ctl (s\<lparr>tasks := T\<rparr>) = ctl s" "ctl (s\<lparr>dm_rr_worker_id := r\<rparr>) = ctl s"
  "ctl (s\<lparr>tasks := T, next_tid := n\<rparr>) = ctl s" "ctl (dispatcher_terminate s) = ctl s"
  by (simp_all add: ctl_def add_log_def delete_task_def dispatcher_terminate_def)

lemma ctl_upd_task [frame]: "upd_task t f s = Inr s' \<Longrightarrow> ctl s' = ctl s"
  by (auto simp: upd_task_def)

lemma ctl_new_task [frame]: "new_task e s = (t, s') \<Longrightarrow> ctl s' = ctl s"
  by (auto simp: new_task_def)

lemma ctl_ev_start [frame]: "ev_start t l s = Inr s' \<Longrightarrow> ctl s' = ctl s"
  by (auto simp: ev_start_def dest: frame split: if_splits)

lemma ctl_ev_stop [frame]: "ev_stop t s = Inr s' \<Longrightarrow> ctl s' = ctl s"
  by (auto simp: ev_stop_def dest: frame split: if_splits)

lemma ctl_init_watcher [frame]: "init_watcher t s = Inr s' \<Longrightarrow> ctl s' = ctl s"
  by (auto simp: init_watcher_def dest: frame split: if_splits)

lemma ctl_assign_worker [frame]: "assign_worker w t s = Inr s' \<Longrightarrow> ctl s' = ctl s"
  by (auto simp: assign_worker_def Let_def split: mode.splits if_splits)

lemma ctl_set_events [frame]: "set_events n t s = Inr s' \<Longrightarrow> ctl s' = ctl s"
  by (auto simp: set_events_def dest: frame)

lemma ctl_run_func [frame]:
  "run_func f l s = Inr s' \<Longrightarrow> (\<And>e. f \<noteq> Async_event e) \<Longrightarrow> ctl s' = ctl s"
  by (cases f) (auto dest!: frame split: if_splits)

lemma ctl_async_call [frame]: "async_call w f s = Inr s' \<Longrightarrow> ctl s' = ctl s"
  by (auto simp: async_call_def Let_def ctl_upd_worker core_def)

lemma ctl_in_ctx [frame]:
  "in_ctx cur w f s = Inr s' \<Longrightarrow> (\<And>e. f \<noteq> Async_event e) \<Longrightarrow> ctl s' = ctl s"
  by (auto simp: in_ctx_def exec_in_worker_ctx_def dest: frame split: if_splits option.splits)

lemma ctl_start_armed [frame]: "start_armed cur w t s = Inr s' \<Longrightarrow> ctl s' = ctl s"
  by (clarsimp simp: start_armed_def) (auto simp: io_start_watcher_def dest: frame split: task_kind.splits)

lemma ctl_stop_watcher [frame]: "stop_watcher cur w t s = Inr s' \<Longrightarrow> ctl s' = ctl s"
  by (clarsimp simp: stop_watcher_def) (auto simp: io_stop_watcher_def dest: frame split: task_kind.splits)

lemma ctl_update_watcher [frame]: "update_watcher cur w t s = Inr s' \<Longrightarrow> ctl s' = ctl s"
  by (auto simp: update_watcher_def dest!: frame split: if_splits)

lemma ctl_get_worker [frame]: "get_worker_by_task cur t s = Inr (w, s') \<Longrightarrow> ctl s' = ctl s"
  by (auto simp: get_worker_by_task_def Let_def split: option.splits mode.splits if_splits)

lemma ctl_run_cbs [simp]:
  "ctl (fold (run_finish_cb w) fs s) = ctl s" "ctl (fold (run_error_cb w x) fs s) = ctl s"
proof -
  have "ctl (run_finish_cb w f s) = ctl s" "ctl (run_error_cb w x f s) = ctl s" for f s
    by (cases f; simp)+
  then show "ctl (fold (run_finish_cb w) fs s) = ctl s" "ctl (fold (run_error_cb w x) fs s) = ctl s"
    by (induction fs arbitrary: s) auto
qed

lemma ctl_dispose_later [frame]: "dispose_later cur w t s = Inr s' \<Longrightarrow> ctl s' = ctl s"
  by (auto simp: dispose_later_def dest!: frame split: prod.splits)

lemma ctl_remove_event_task [frame]: "remove_event_task cur t s = Inr s' \<Longrightarrow> ctl s' = ctl s"
  by (auto simp: remove_event_task_def io_dispose_def dest!: frame split: if_splits)

lemma ctl_task_finish [frame]: "task_finish cur w t s = Inr s' \<Longrightarrow> ctl s' = ctl s"
  by (auto simp: task_finish_def dest!: frame)

lemma ctl_notify_error [frame]: "notify_error w t s = Inr s' \<Longrightarrow> ctl s' = ctl s"
  by (auto simp: notify_error_def)

lemma ctl_finish_response [frame]: "finish_response cur t s = Inr s' \<Longrightarrow> ctl s' = ctl s"
  by (auto simp: finish_response_def dest!: frame split: if_splits)

lemma ctl_perform [frame]: "perform cur w t a s = Inr s' \<Longrightarrow> ctl s' = ctl s"
  by (cases a) (auto simp: net_add_task_def dest!: frame split: prod.splits)

lemma ctl_perform_all [frame]: "perform_all cur w t as s = Inr s' \<Longrightarrow> ctl s' = ctl s"
  by (induction as arbitrary: s) (auto dest!: frame)

lemma ctl_handle_event [frame]: "handle_event H cur w t r s = Inr (c, s') \<Longrightarrow> ctl s' = ctl s"
  by (clarsimp simp: handle_event_def Let_def)
     (auto simp: cleanup_handle_event_def io_dispose_def dest!: frame
       split: task_kind.splits prod.splits if_splits)

lemma ctl_exec_handler:
  assumes "\<And>t s s'. start cur w t s = Inr s' \<Longrightarrow> ctl s' = ctl s"
  shows "exec_handler start H cur w ev s = Inr s' \<Longrightarrow> ctl s' = ctl s"
  by (auto simp: exec_handler_def dest!: frame assms split: if_splits)

lemma ctl_exec_armed [frame]: "exec_handler start_armed H cur w ev s = Inr s' \<Longrightarrow> ctl s' = ctl s"
  by (rule ctl_exec_handler [OF ctl_start_armed])

lemma ctl_start_watcher [frame]: "start_watcher H cur w t s = Inr s' \<Longrightarrow> ctl s' = ctl s"
  by (auto simp: start_watcher_def dest!: frame split: if_splits)

lemma ctl_exec_event_handler [frame]: "exec_event_handler H cur w ev s = Inr s' \<Longrightarrow> ctl s' = ctl s"
  unfolding exec_event_handler_def by (rule ctl_exec_handler [OF ctl_start_watcher])

lemma ctl_add_task [frame]: "add_task H cur t s = Inr s' \<Longrightarrow> ctl s' = ctl s"
  by (auto simp: add_task_def add_event_task_def dest!: frame)

section \<open>The invariant of the single loop mode\<close>

text \<open>A worker that holds nothing and is waiting, or was told to terminate while it waited.\<close>

definition parked :: "worker \<Rightarrow> bool" where
  "parked k \<longleftrightarrow> \<not> wm_leader k \<and> wm_loop k = None \<and> wm_events_queue k = [] \<and>
     (wm_pc k = Waiting \<or> wm_term k \<and> wm_pc k \<in> {Running, Exited})"

text \<open>
  What holds of one worker, given the marked workers \<open>B\<close>, the worker \<open>u\<close> registered at the loop,
  whether the dispatcher has started, the number of workers and which of them are parked.
\<close>

fun handing :: "pc \<Rightarrow> wid option" where
  "handing (Handing x) = Some x"
| "handing _ = None"

definition handing_inv :: "nat set \<Rightarrow> nat \<Rightarrow> (wid \<Rightarrow> bool) \<Rightarrow> wid \<Rightarrow> worker \<Rightarrow> bool" where
  "handing_inv B n pk w k \<longleftrightarrow>
     (case handing (wm_pc k) of None \<Rightarrow> True | Some x \<Rightarrow>
        \<not> wm_leader k \<and> wm_loop k \<noteq> None \<and> x \<noteq> w \<and> x < n \<and> x \<notin> B \<and> pk x)"

definition worker_inv ::
  "nat set \<Rightarrow> wid option \<Rightarrow> bool \<Rightarrow> nat \<Rightarrow> (wid \<Rightarrow> bool) \<Rightarrow> wid \<Rightarrow> worker \<Rightarrow> bool" where
  "worker_inv B u started n pk w k \<longleftrightarrow>
     (w \<notin> B \<or> parked k) \<and>
     (wm_loop k = None \<and> \<not> wm_leader k \<or>
      wm_loop k = Some 0 \<and> u = Some w \<and> started \<and> (wm_leader k \<or> handing (wm_pc k) \<noteq> None)) \<and>
     handing_inv B n pk w k \<and>
     (wm_pc k \<notin> {Polling, Polled} \<or> wm_leader k) \<and>
     (wm_events_queue k = [] \<or> wm_pc k \<in> {Polling, Polled, Handling} \<or> handing (wm_pc k) \<noteq> None) \<and>
     (wm_pc k \<noteq> Boot \<or> \<not> started)"

abbreviation inv_at :: "sys \<Rightarrow> wid \<Rightarrow> worker \<Rightarrow> bool" where
  "inv_at s \<equiv> worker_inv (set_slots (dm_workers_busy s)) (userdata s 0) (dm_started s)
     (length (workers s)) (\<lambda>x. parked (workers s ! x))"

definition lf_inv :: "sys \<Rightarrow> bool" where
  "lf_inv s \<longleftrightarrow>
     m_run_mode s = SINGLE_LOOP \<and>
     bitset_ok (dm_workers_busy s) \<and>
     m_bits (dm_workers_busy s) = length (workers s) \<and>
     unat (dm_num_workers s) = length (workers s) \<and>
     (0 < length (workers s) \<longrightarrow> dm_last_worker_id s < length (workers s)) \<and>
     (\<forall>w < length (workers s). inv_at s w (workers s ! w)) \<and>
     (dm_started s \<longrightarrow> (\<exists>w < length (workers s). wm_loop (workers s ! w) \<noteq> None))"

lemma lf_inv_workers: "lf_inv s \<Longrightarrow> w < length (workers s) \<Longrightarrow> inv_at s w (workers s ! w)"
  by (simp add: lf_inv_def)

text \<open>The invariant is a property of the control state.\<close>

lemma ctl_eqD:
  assumes "ctl s' = ctl s"
  shows "m_run_mode s' = m_run_mode s" "dm_num_workers s' = dm_num_workers s"
    "dm_workers_busy s' = dm_workers_busy s" "dm_last_worker_id s' = dm_last_worker_id s"
    "userdata s' = userdata s" "dm_started s' = dm_started s"
    "length (workers s') = length (workers s)"
    "w < length (workers s) \<Longrightarrow> core (workers s' ! w) = core (workers s ! w)"
proof -
  have "map core (workers s') = map core (workers s)" using assms by (simp add: ctl_def)
  then show len: "length (workers s') = length (workers s)" by (metis length_map)
  show "core (workers s' ! w) = core (workers s ! w)" if "w < length (workers s)"
    using \<open>map core (workers s') = _\<close> len that by (metis nth_map)
qed (use assms in \<open>auto simp: ctl_def\<close>)

lemma core_eqD:
  "core k' = core k \<Longrightarrow> wm_loop k' = wm_loop k \<and> wm_leader k' = wm_leader k \<and> wm_pc k' = wm_pc k \<and>
     wm_term k' = wm_term k \<and> wm_events_queue k' = wm_events_queue k"
  by (simp add: core_def)

lemma parked_core: "core k' = core k \<Longrightarrow> parked k' = parked k"
  by (simp add: parked_def core_def)

lemma handing_inv_cong:
  assumes "core k' = core k" and "\<And>x. x < n \<Longrightarrow> pk' x = pk x"
  shows "handing_inv B n pk' w k' = handing_inv B n pk w k"
  using assms(2) core_eqD [OF assms(1)] by (cases "handing (wm_pc k)") (auto simp: handing_inv_def)

lemma worker_inv_cong:
  assumes "core k' = core k" and "\<And>x. x < n \<Longrightarrow> pk' x = pk x"
  shows "worker_inv B u st n pk' w k' = worker_inv B u st n pk w k"
  using core_eqD [OF assms(1)] handing_inv_cong [of k' k n pk' pk B w, OF assms] parked_core [OF assms(1)]
  by (simp add: worker_inv_def)

lemma lf_inv_ctl:
  assumes "ctl s' = ctl s" and "lf_inv s"
  shows "lf_inv s'"
proof -
  note eq = ctl_eqD(1-7) [OF assms(1)]
  have c: "core (workers s' ! w) = core (workers s ! w)" if "w < length (workers s)" for w
    using ctl_eqD(8) [OF assms(1) that] .
  have "inv_at s' w (workers s' ! w)" if "w < length (workers s)" for w
  proof -
    have "inv_at s' w (workers s' ! w) = inv_at s w (workers s ! w)"
      unfolding eq by (rule worker_inv_cong [OF c [OF that] parked_core [OF c]])
    with lf_inv_workers [OF assms(2) that] show ?thesis by simp
  qed
  moreover have "\<exists>w < length (workers s'). wm_loop (workers s' ! w) \<noteq> None" if st: "dm_started s'"
  proof -
    obtain w where "w < length (workers s)" "wm_loop (workers s ! w) \<noteq> None"
      using assms(2) st by (auto simp: lf_inv_def eq)
    then show ?thesis using core_eqD [OF c] eq(7) by metis
  qed
  ultimately show ?thesis
    using assms(2) by (auto simp: lf_inv_def eq)
qed

lemma worker_inv_mono:
  assumes "worker_inv B u st n pk w k" and "\<And>x. pk x \<Longrightarrow> pk' x"
  shows "worker_inv B u st n pk' w k"
proof -
  from assms(1) have "handing_inv B n pk w k" by (simp add: worker_inv_def)
  then have "handing_inv B n pk' w k"
    using assms(2) by (auto simp: handing_inv_def split: option.splits)
  with assms(1) show ?thesis by (simp add: worker_inv_def)
qed

text \<open>Two updates of one worker that keep the invariant: any that leaves it parked if it was, and
  marking it free.\<close>

lemma lf_inv_upd:
  assumes "lf_inv s" and w: "w < length (workers s)"
    and "inv_at s w (f (workers s ! w))"
    and p: "parked (workers s ! w) \<Longrightarrow> parked (f (workers s ! w))"
    and l: "wm_loop (f (workers s ! w)) = wm_loop (workers s ! w)"
  shows "lf_inv (upd_worker w f s)"
proof -
  let ?s' = "upd_worker w f s"
  have pk: "parked (workers s ! x) \<Longrightarrow> x < length (workers s) \<Longrightarrow> parked (workers ?s' ! x)" for x
    using p by auto
  have pk': "(\<lambda>x. x < length (workers s) \<and> parked (workers s ! x)) x \<Longrightarrow> parked (workers ?s' ! x)" for x
    using pk by simp
  have "inv_at ?s' v (workers ?s' ! v)" if v: "v < length (workers s)" for v
  proof -
    have "inv_at s v (workers ?s' ! v)"
      using assms(3) lf_inv_workers [OF assms(1) v] v by auto
    then have "worker_inv (set_slots (dm_workers_busy s)) (userdata s 0) (dm_started s)
        (length (workers s)) (\<lambda>x. x < length (workers s) \<and> parked (workers s ! x)) v (workers ?s' ! v)"
      by (subst (asm) worker_inv_cong [OF refl,
            where pk = "\<lambda>x. x < length (workers s) \<and> parked (workers s ! x)"]) auto
    from worker_inv_mono [OF this pk'] show ?thesis by simp
  qed
  moreover have "\<exists>v < length (workers s). wm_loop (workers ?s' ! v) \<noteq> None" if st: "dm_started s"
  proof -
    obtain v where v: "v < length (workers s)" "wm_loop (workers s ! v) \<noteq> None"
      using assms(1) st by (auto simp: lf_inv_def)
    with l have "wm_loop (workers ?s' ! v) \<noteq> None" by auto
    with v show ?thesis by blast
  qed
  ultimately show ?thesis using assms(1) by (simp add: lf_inv_def)
qed

lemma owner_registered:
  assumes "lf_inv s" and "w < length (workers s)" and "wm_loop (workers s ! w) \<noteq> None"
  shows "userdata s 0 = Some w" "wm_loop (workers s ! w) = Some 0" "dm_started s"
  using lf_inv_workers [OF assms(1,2)] assms(3) by (auto simp: worker_inv_def)

lemma owner_unique:
  assumes "lf_inv s" "v < length (workers s)" "w < length (workers s)"
    and "wm_loop (workers s ! v) \<noteq> None" "wm_loop (workers s ! w) \<noteq> None"
  shows "v = w"
  using owner_registered(1) [OF assms(1,2,4)] owner_registered(1) [OF assms(1,3,5)] by simp

lemma only_owner:
  assumes "lf_inv s" "v < length (workers s)" "w < length (workers s)"
    and "wm_loop (workers s ! w) \<noteq> None" and "v \<noteq> w"
  shows "wm_loop (workers s ! v) = None"
  using owner_unique [OF assms(1-3)] assms(4,5) by (metis)

lemma leader_owner:
  assumes "lf_inv s" and "w < length (workers s)" and "wm_leader (workers s ! w)"
  shows "wm_loop (workers s ! w) = Some 0" "userdata s 0 = Some w" "dm_started s"
    "w \<notin> set_slots (dm_workers_busy s)"
  using lf_inv_workers [OF assms(1,2)] assms(3) by (auto simp: worker_inv_def parked_def)

lemma handing_owner:
  assumes "lf_inv s" and "v < length (workers s)" and "handing (wm_pc (workers s ! v)) = Some x"
  shows "wm_loop (workers s ! v) \<noteq> None" "\<not> wm_leader (workers s ! v)" "x \<noteq> v"
    "x < length (workers s)" "x \<notin> set_slots (dm_workers_busy s)" "parked (workers s ! x)"
  using lf_inv_workers [OF assms(1,2)] assms(3) by (auto simp: worker_inv_def handing_inv_def)

lemma no_loop_no_handing:
  assumes "lf_inv s" and "v < length (workers s)" and "wm_loop (workers s ! v) = None"
  shows "handing (wm_pc (workers s ! v)) = None"
  using handing_owner(1) [OF assms(1,2)] assms(3) by (cases "handing (wm_pc (workers s ! v))") auto

lemma lf_inv_mark:
  assumes inv: "lf_inv s" and w: "w < length (workers s)"
    and k: "parked k" "wm_pc k \<noteq> Boot"
    and old: "wm_loop (workers s ! w) = None"
    and nh: "\<And>v. v < length (workers s) \<Longrightarrow> handing (wm_pc (workers s ! v)) \<noteq> Some w"
    and B: "bitset_ok B" "m_bits B = length (workers s)"
      "set_slots B = insert w (set_slots (dm_workers_busy s))"
  shows "lf_inv (upd_worker w (\<lambda>_. k) (s\<lparr>dm_workers_busy := B\<rparr>))"
proof -
  let ?s' = "upd_worker w (\<lambda>_. k) (s\<lparr>dm_workers_busy := B\<rparr>)"
  have nth: "workers ?s' ! v = (if v = w then k else workers s ! v)" if "v < length (workers s)" for v
    using that by simp
  have "inv_at ?s' v (workers ?s' ! v)" if v: "v < length (workers s)" for v
  proof (cases "v = w")
    case True
    with k v show ?thesis by (auto simp: worker_inv_def handing_inv_def parked_def)
  next
    case False
    have i: "inv_at s v (workers s ! v)" using lf_inv_workers [OF inv v] .
    have "handing_inv (set_slots B) (length (workers s)) (\<lambda>x. parked (workers ?s' ! x)) v (workers s ! v)"
      using handing_owner [OF inv v] nh [OF v] B(3) nth
      by (auto simp: handing_inv_def split: option.splits)
    with i False B(3) nth [OF v] show ?thesis by (simp add: worker_inv_def)
  qed
  moreover have "\<exists>v < length (workers s). wm_loop (workers ?s' ! v) \<noteq> None" if st: "dm_started s"
  proof -
    obtain v where "v < length (workers s)" "wm_loop (workers s ! v) \<noteq> None"
      using inv st by (auto simp: lf_inv_def)
    with old nth show ?thesis by metis
  qed
  ultimately show ?thesis using inv B by (simp add: lf_inv_def)
qed

section \<open>Every step keeps the invariant\<close>

lemma upd_worker_const: "upd_worker w f s = upd_worker w (\<lambda>_. f (workers s ! w)) s"
  by (simp add: upd_worker_def)

lemma mark_free_slots:
  assumes "lf_inv s" and "w < length (workers s)" and "mark_free w s = Inr s1"
  obtains B where "s1 = s\<lparr>dm_workers_busy := B\<rparr>" "bitset_ok B" "m_bits B = length (workers s)"
    "set_slots B = insert w (set_slots (dm_workers_busy s))"
proof -
  have ok: "bitset_ok (dm_workers_busy s)" "w < m_bits (dm_workers_busy s)"
    "m_bits (dm_workers_busy s) = length (workers s)" "m_run_mode s = SINGLE_LOOP"
    using assms(1,2) by (simp_all add: lf_inv_def)
  from bs.mark_law [OF ok(1,2)] obtain B where "bitset_set w (dm_workers_busy s) = Inr B"
    "bitset_ok B" "m_bits B = m_bits (dm_workers_busy s)"
    "set_slots B = insert w (set_slots (dm_workers_busy s))" by auto
  with assms(3) ok that show ?thesis by (auto simp: mark_free_def add_free_worker_def)
qed

text \<open>A worker that marks itself free: it has no loop, no events, and nobody is handing to it.\<close>

lemma lf_inv_mark_free:
  assumes inv: "lf_inv s" and w: "w < length (workers s)" and mf: "mark_free w s = Inr s1"
    and k: "\<not> wm_leader (workers s ! w)" "wm_loop (workers s ! w) = None"
      "wm_events_queue (workers s ! w) = []"
    and np: "\<not> parked (workers s ! w)"
  shows "lf_inv (set_pc Waiting w s1)"
proof -
  obtain B where s1: "s1 = s\<lparr>dm_workers_busy := B\<rparr>" and B: "bitset_ok B"
    "m_bits B = length (workers s)" "set_slots B = insert w (set_slots (dm_workers_busy s))"
    using mark_free_slots [OF inv w mf] by blast
  have "handing (wm_pc (workers s ! v)) \<noteq> Some w" if "v < length (workers s)" for v
    using handing_owner(6) [OF inv that, of w] np by blast
  moreover have "parked ((workers s ! w)\<lparr>wm_pc := Waiting\<rparr>)"
    using k by (simp add: parked_def)
  ultimately have "lf_inv (upd_worker w (\<lambda>_. (workers s ! w)\<lparr>wm_pc := Waiting\<rparr>) s1)"
    unfolding s1 using lf_inv_mark [OF inv w] k(2) B by simp
  then show ?thesis unfolding set_pc_def s1 by (subst upd_worker_const) simp
qed

lemma lf_inv_boot:
  assumes inv: "lf_inv s" and w: "w < length (workers s)" and "wm_pc (workers s ! w) = Boot"
    and "mark_free w s = Inr s1"
  shows "lf_inv (set_pc Waiting w s1)"
proof -
  from lf_inv_workers [OF inv w] assms(3)
  have "\<not> wm_leader (workers s ! w)" "wm_loop (workers s ! w) = None"
    "wm_events_queue (workers s ! w) = []" "\<not> parked (workers s ! w)"
    by (auto simp: worker_inv_def parked_def)
  with assms show ?thesis by (blast intro: lf_inv_mark_free)
qed

lemma lf_inv_retire:
  assumes inv: "lf_inv s" and w: "w < length (workers s)" and "wm_pc (workers s ! w) = Running"
    and "\<not> wm_leader (workers s ! w)" "\<not> wm_term (workers s ! w)" and "mark_free w s = Inr s1"
  shows "lf_inv (set_pc Waiting w s1)"
proof -
  from lf_inv_workers [OF inv w] assms(3,4,5)
  have "wm_loop (workers s ! w) = None" "wm_events_queue (workers s ! w) = []"
    "\<not> parked (workers s ! w)"
    by (auto simp: worker_inv_def parked_def)
  with assms show ?thesis by (blast intro: lf_inv_mark_free)
qed

text \<open>Moving on without touching shared state.\<close>

lemma lf_inv_set_pc:
  assumes inv: "lf_inv s" and w: "w < length (workers s)"
    and "inv_at s w ((workers s ! w)\<lparr>wm_pc := p\<rparr>)"
    and "parked (workers s ! w) \<Longrightarrow> parked ((workers s ! w)\<lparr>wm_pc := p\<rparr>)"
  shows "lf_inv (set_pc p w s)"
  unfolding set_pc_def using assms by (intro lf_inv_upd) auto

lemma lf_inv_claim:
  assumes inv: "lf_inv s" and w: "w < length (workers s)" and pc: "wm_pc (workers s ! w) = Polled"
    and fw: "free_worker s = Inr (Some x, s1)"
  shows "lf_inv (set_pc (Handing x) w (upd_worker w (\<lambda>k. k\<lparr>wm_leader := False\<rparr>) s1))"
proof -
  let ?B = "dm_workers_busy s" and ?n = "length (workers s)"
  let ?k = "(workers s ! w)\<lparr>wm_leader := False, wm_pc := Handing x\<rparr>"
  have ld: "wm_leader (workers s ! w)" using lf_inv_workers [OF inv w] pc by (auto simp: worker_inv_def)
  note own = leader_owner [OF inv w ld]
  have ok: "bitset_ok ?B" "dm_last_worker_id s < m_bits ?B" "m_bits ?B = ?n"
    using inv w by (auto simp: lf_inv_def)
  from fw have nx: "bitset_next ?B (dm_last_worker_id s) = Inr (Some x)"
    by (auto simp: free_worker_def split: if_splits option.splits)
  then obtain B where B: "bitset_unset x ?B = Inr B" "bitset_ok B" "m_bits B = ?n"
      "set_slots B = set_slots ?B - {x}" and x: "x \<in> set_slots ?B"
    using bs.claim_slot [OF ok(1,2) nx] ok(3) by auto
  have xn: "x < ?n" "x \<noteq> w" "parked (workers s ! x)"
    using x own(4) ok(3) lf_inv_workers [OF inv, of x] by (auto simp: set_slots_def worker_inv_def)
  let ?s = "s\<lparr>dm_last_worker_id := x, dm_workers_busy := B\<rparr>"
  have s1: "s1 = ?s" using fw nx B(1) by (auto simp: free_worker_def split: if_splits)
  let ?s' = "upd_worker w (\<lambda>_. ?k) ?s"
  have "inv_at ?s' v (workers ?s' ! v)" if v: "v < ?n" for v
  proof (cases "v = w")
    case True
    then show ?thesis using v own xn B(4) by (simp add: worker_inv_def handing_inv_def parked_def)
  next
    case False
    then have lp: "wm_loop (workers s ! v) = None" using only_owner [OF inv v w] own(1) by simp
    then have "handing (wm_pc (workers s ! v)) = None" by (rule no_loop_no_handing [OF inv v])
    with lf_inv_workers [OF inv v] lp False v B(4) show ?thesis
      by (auto simp: worker_inv_def handing_inv_def)
  qed
  moreover have "\<exists>v < ?n. wm_loop (workers ?s' ! v) \<noteq> None"
    using own(1) w by (intro exI [of _ w]) simp
  ultimately have "lf_inv ?s'" using inv B xn(1) by (simp add: lf_inv_def)
  moreover have "set_pc (Handing x) w (upd_worker w (\<lambda>k. k\<lparr>wm_leader := False\<rparr>) ?s) = ?s'"
    using w by (simp add: set_pc_def upd_worker_def)
  ultimately show ?thesis by (simp add: s1)
qed

lemma lf_inv_pass:
  assumes inv: "lf_inv s" and w: "w < length (workers s)" and pc: "wm_pc (workers s ! w) = Handing x"
    and pass: "promote_pass w x s = Inr s'"
  shows "lf_inv s'"
proof -
  let ?n = "length (workers s)"
  have h: "handing (wm_pc (workers s ! w)) = Some x" using pc by simp
  note ho = handing_owner [OF inv w h]
  note own = owner_registered [OF inv w ho(1)]
  let ?kw = "(workers s ! w)\<lparr>wm_loop := None, wm_pc := Handling\<rparr>"
  let ?kx = "(workers s ! x)\<lparr>wm_loop := Some 0, wm_leader := True\<rparr>"
  let ?s' = "upd_worker w (\<lambda>_. ?kw) (upd_worker x (\<lambda>_. ?kx) (s\<lparr>userdata := (userdata s)(0 := Some x)\<rparr>))"
  have s': "s' = ?s'"
    using pass own(2) ho(3,4) w
    by (simp add: promote_pass_def worker_of_def set_event_loop_def set_pc_def upd_worker_def
        list_update_swap)
  have nth: "workers ?s' ! v = (if v = w then ?kw else if v = x then ?kx else workers s ! v)"
    if "v < ?n" for v
    using that by simp
  have "inv_at ?s' v (workers ?s' ! v)" if v: "v < ?n" for v
  proof -
    consider "v = w" | "v = x" "v \<noteq> w" | "v \<noteq> w" "v \<noteq> x" by blast
    then show ?thesis
    proof cases
      case 1
      with lf_inv_workers [OF inv w] ho v show ?thesis
        by (auto simp: worker_inv_def handing_inv_def parked_def)
    next
      case 2
      with ho own v show ?thesis
        by (auto simp: worker_inv_def handing_inv_def parked_def)
    next
      case 3
      then have lp: "wm_loop (workers s ! v) = None" using only_owner [OF inv v w ho(1)] by simp
      then have "handing (wm_pc (workers s ! v)) = None" by (rule no_loop_no_handing [OF inv v])
      with lf_inv_workers [OF inv v] lp 3 v show ?thesis
        by (auto simp: worker_inv_def handing_inv_def)
    qed
  qed
  moreover have "\<exists>v < ?n. wm_loop (workers ?s' ! v) \<noteq> None"
    using ho(3,4) by (intro exI [of _ x]) simp
  ultimately show ?thesis using inv unfolding s' by (simp add: lf_inv_def)
qed

text \<open>Appending to or taking from the queue of a worker that may have events.\<close>

lemma lf_inv_queue:
  assumes inv: "lf_inv s" and w: "w < length (workers s)"
    and pc: "wm_pc (workers s ! w) \<in> {Polling, Handling}"
  shows "lf_inv (upd_worker w (\<lambda>k. k\<lparr>wm_events_queue := g k\<rparr>) s)"
proof (rule lf_inv_upd [OF inv w])
  from lf_inv_workers [OF inv w] pc
  show "inv_at s w ((workers s ! w)\<lparr>wm_events_queue := g (workers s ! w)\<rparr>)"
    by (auto simp: worker_inv_def handing_inv_def parked_def)
  show "parked (workers s ! w) \<Longrightarrow> parked ((workers s ! w)\<lparr>wm_events_queue := g (workers s ! w)\<rparr>)"
    using pc by (auto simp: parked_def)
qed simp

lemma lf_inv_handle:
  assumes inv: "lf_inv s" and w: "w < length (workers s)" and pc: "wm_pc (workers s ! w) = Handling"
    and hf: "handle_front H w s = Inr s'"
  shows "lf_inv s'"
proof (cases "wm_events_queue (workers s ! w)")
  case Nil
  with hf w have "s' = set_pc Running w s" by (simp add: handle_front_def worker_of_def)
  moreover have "lf_inv (set_pc Running w s)"
    using lf_inv_workers [OF inv w] pc Nil
    by (intro lf_inv_set_pc [OF inv w]) (auto simp: worker_inv_def handing_inv_def parked_def)
  ultimately show ?thesis by simp
next
  case (Cons ev evs)
  let ?s0 = "upd_worker w (\<lambda>k. k\<lparr>wm_events_count := wm_events_count k + 1\<rparr>) s"
  from hf Cons w obtain s1 where ex: "exec_event_handler H (Some w) w ev ?s0 = Inr s1"
    and s': "s' = upd_worker w (\<lambda>k. k\<lparr>wm_events_queue := tl (wm_events_queue k)\<rparr>) s1"
    by (auto simp: handle_front_def worker_of_def)
  have c: "ctl s1 = ctl s"
    using ctl_exec_event_handler [OF ex] by (simp add: ctl_upd_worker core_def)
  have "wm_pc (workers s1 ! w) = Handling" using core_eqD [OF ctl_eqD(8) [OF c w]] pc by simp
  moreover have "w < length (workers s1)" using w ctl_eqD(7) [OF c] by simp
  ultimately show ?thesis unfolding s' using lf_inv_ctl [OF c inv] by (intro lf_inv_queue) auto
qed

lemma lf_inv_running:
  assumes inv: "lf_inv s" and w: "w < length (workers s)" and Running: "wm_pc (workers s ! w) = Running"
    and adv: "advance H w s = Inr s'"
  shows "lf_inv s'"
proof -
  note i = lf_inv_workers [OF inv w] and defs = advance_def worker_of_def w
  consider "wm_leader (workers s ! w)" "\<not> wm_term (workers s ! w)"
    | "\<not> wm_leader (workers s ! w)" "\<not> wm_term (workers s ! w)" | "wm_term (workers s ! w)" by blast
  then show ?thesis
  proof cases
    case 1
    have "lf_inv (set_pc Polling w s)"
      using i 1 Running by (intro lf_inv_set_pc [OF inv w]) (auto simp: worker_inv_def handing_inv_def parked_def)
    with adv Running 1 show ?thesis by (auto simp: defs)
  next
    case 2
    with adv Running obtain s1 where "mark_free w s = Inr s1" "s' = set_pc Waiting w s1"
      by (auto simp: defs)
    with lf_inv_retire [OF inv w Running 2] show ?thesis by simp
  next
    case 3
    have "lf_inv (set_pc Exited w s)"
      using i 3 Running by (intro lf_inv_set_pc [OF inv w]) (auto simp: worker_inv_def handing_inv_def parked_def)
    with adv Running 3 show ?thesis by (auto simp: defs)
  qed
qed

lemma lf_inv_polled:
  assumes inv: "lf_inv s" and w: "w < length (workers s)" and Polled: "wm_pc (workers s ! w) = Polled"
    and adv: "advance H w s = Inr s'"
  shows "lf_inv s'"
proof (cases "wm_events_queue (workers s ! w) = []")
  case True
  have "lf_inv (set_pc Running w s)" using lf_inv_workers [OF inv w] True Polled
    by (intro lf_inv_set_pc [OF inv w]) (auto simp: worker_inv_def handing_inv_def parked_def)
  with adv Polled True show ?thesis by (simp add: advance_def worker_of_def w)
next
  case False
  have "m_run_mode s = SINGLE_LOOP" using inv by (simp add: lf_inv_def)
  with False adv Polled obtain r s1 where fw: "free_worker s = Inr (r, s1)"
    and s': "s' = (case r of None \<Rightarrow> set_pc Handling w s1
      | Some x \<Rightarrow> set_pc (Handing x) w (upd_worker w (\<lambda>k. k\<lparr>wm_leader := False\<rparr>) s1))"
    by (auto simp: advance_def worker_of_def w promote_claim_def split: option.splits)
  show ?thesis
  proof (cases r)
    case None
    with fw have "s1 = s" by (auto simp: free_worker_def split: if_splits option.splits)
    moreover have "lf_inv (set_pc Handling w s)" using lf_inv_workers [OF inv w] Polled
      by (intro lf_inv_set_pc [OF inv w]) (auto simp: worker_inv_def handing_inv_def parked_def)
    ultimately show ?thesis using None s' by simp
  next
    case (Some x)
    with fw s' lf_inv_claim [OF inv w Polled] show ?thesis by simp
  qed
qed

lemma lf_inv_advance:
  assumes inv: "lf_inv s" and adv: "advance H w s = Inr s'"
  shows "lf_inv s'"
proof -
  have w: "w < length (workers s)" using adv by (auto simp: advance_def)
  note defs = advance_def worker_of_def w
  show ?thesis
  proof (cases "wm_pc (workers s ! w)")
    case Boot
    with adv obtain s1 where "mark_free w s = Inr s1" "s' = set_pc Waiting w s1" by (auto simp: defs)
    with lf_inv_boot [OF inv w Boot] show ?thesis by simp
  next
    case Waiting
    have "lf_inv (set_pc Running w s)" if "wm_leader (workers s ! w) \<or> wm_term (workers s ! w)"
      using lf_inv_workers [OF inv w] that Waiting
      by (intro lf_inv_set_pc [OF inv w]) (auto simp: worker_inv_def handing_inv_def parked_def)
    with adv Waiting inv show ?thesis by (auto simp: defs split: if_splits)
  next
    case Running
    from lf_inv_running [OF inv w this adv] show ?thesis .
  next
    case Polled
    from lf_inv_polled [OF inv w this adv] show ?thesis .
  next
    case (Handing x)
    with adv lf_inv_pass [OF inv w Handing] show ?thesis by (auto simp: defs)
  next
    case Handling
    with adv lf_inv_handle [OF inv w Handling] show ?thesis by (auto simp: defs)
  qed (use adv inv in \<open>auto simp: defs\<close>)
qed

text \<open>The loop's callbacks run while the worker registered at the loop is polling.\<close>

lemma lf_inv_ctl_queue:
  assumes inv: "lf_inv s" and w: "w < length (workers s)" and pc: "wm_pc (workers s ! w) = Polling"
    and c: "ctl s1 = ctl s"
  shows "lf_inv (add_event ev w s1)"
proof -
  have "wm_pc (workers s1 ! w) = Polling" using core_eqD [OF ctl_eqD(8) [OF c w]] pc by simp
  moreover have "w < length (workers s1)" using w ctl_eqD(7) [OF c] by simp
  ultimately show ?thesis
    unfolding add_event_def using lf_inv_ctl [OF c inv] by (intro lf_inv_queue) auto
qed

definition polls :: "wid \<Rightarrow> sys \<Rightarrow> bool" where
  "polls w s \<longleftrightarrow> w < length (workers s) \<and> wm_pc (workers s ! w) = Polling"

lemma polls_facts:
  assumes "lf_inv s" "polls w s"
  shows "wm_leader (workers s ! w)" "wm_loop (workers s ! w) = Some 0" "userdata s 0 = Some w"
proof -
  show "wm_leader (workers s ! w)"
    using lf_inv_workers [OF assms(1), of w] assms(2) by (auto simp: worker_inv_def polls_def)
  with leader_owner [OF assms(1), of w] assms(2)
  show "wm_loop (workers s ! w) = Some 0" "userdata s 0 = Some w" by (auto simp: polls_def)
qed

lemma polls_ctl: "ctl s' = ctl s \<Longrightarrow> polls w s \<Longrightarrow> polls w s'"
  using core_eqD [OF ctl_eqD(8)] ctl_eqD(7) by (metis polls_def)

lemma polls_add_event: "polls w s \<Longrightarrow> polls w (add_event ev v s)"
  by (auto simp: polls_def add_event_def)

lemma lf_inv_run_func:
  assumes "lf_inv s" "polls w s" and rf: "run_func f 0 s = Inr s'"
  shows "lf_inv s' \<and> polls w s'"
proof (cases "\<exists>e. f = Async_event e")
  case True
  with rf polls_facts(3) [OF assms(1,2)] obtain e where "s' = add_event e w s"
    by (auto simp: loop_worker_def)
  with assms lf_inv_ctl_queue [of s w s e] polls_add_event show ?thesis by (auto simp: polls_def)
next
  case False
  with rf have "ctl s' = ctl s" using ctl_run_func by blast
  with assms show ?thesis using lf_inv_ctl polls_ctl by blast
qed

lemma lf_inv_run_queued:
  "\<lbrakk>lf_inv s; polls w s; run_queued ndebug w fs s = Inr s'\<rbrakk> \<Longrightarrow> lf_inv s' \<and> polls w s'"
proof (induction fs arbitrary: s)
  case (Cons f fs)
  show ?case
  proof (cases ndebug)
    case False
    with Cons.prems polls_facts [OF Cons.prems(1,2)] obtain s1 where
      "run_func f 0 s = Inr s1" and r: "run_queued ndebug w fs s1 = Inr s'"
      by (auto simp: exec_in_worker_ctx_def polls_def)
    with lf_inv_run_func [OF Cons.prems(1,2)] Cons.IH [OF _ _ r] show ?thesis by blast
  qed (use Cons in simp)
qed simp

lemma lf_inv_fire:
  assumes inv: "lf_inv s" and p: "polls w s"
    and f: "tasks_event_callback 0 cur t r s = Inr s'"
  shows "lf_inv s'"
proof -
  from f polls_facts(3) [OF inv p] obtain s1 where "stop_watcher cur w t s = Inr s1"
    and s': "s' = add_event \<lparr>ev_task = t, ev_revents = r\<rparr> w s1"
    by (auto simp: tasks_event_callback_def)
  then have "ctl s1 = ctl s" by (blast dest: frame)
  then show ?thesis unfolding s' using lf_inv_ctl_queue [OF inv] p by (auto simp: polls_def)
qed

lemma lf_inv_async:
  assumes inv: "lf_inv s" and p: "polls w s"
    and f: "tasks_async_callback ndebug 0 v s = Inr s'"
  shows "lf_inv s'"
proof -
  let ?s1 = "upd_worker v (\<lambda>k. k\<lparr>wm_tfq := [], wm_async_sent := False\<rparr>) s"
  have c: "ctl ?s1 = ctl s" by (simp add: ctl_upd_worker core_def)
  from f polls_facts(3) [OF inv p]
  have "run_queued ndebug w (wm_tfq (workers s ! v)) ?s1 = Inr s'"
    by (auto simp: tasks_async_callback_def)
  with lf_inv_run_queued lf_inv_ctl [OF c inv] polls_ctl [OF c p] show ?thesis by blast
qed

lemma lf_inv_poll_return:
  assumes inv: "lf_inv s" and p: "polls w s"
  shows "lf_inv (set_pc Polled w s)"
  using lf_inv_workers [OF inv, of w] p
  by (intro lf_inv_set_pc [OF inv]) (auto simp: polls_def worker_inv_def handing_inv_def parked_def)

lemma lf_inv_terminate:
  assumes inv: "lf_inv s" and t: "worker_terminate w s = Inr s'"
  shows "lf_inv s'"
proof -
  have w: "w < length (workers s)" using t by (auto simp: worker_terminate_def)
  let ?s1 = "upd_worker w (\<lambda>k. k\<lparr>wm_term := True\<rparr>) s"
  have "inv_at s w ((workers s ! w)\<lparr>wm_term := True\<rparr>)"
    using lf_inv_workers [OF inv w]
    by (cases "handing (wm_pc (workers s ! w))") (auto simp: worker_inv_def handing_inv_def parked_def)
  then have i1: "lf_inv ?s1" by (intro lf_inv_upd [OF inv w]) (auto simp: parked_def)
  have "ctl s' = ctl ?s1"
    using t by (auto simp: worker_terminate_def ctl_upd_worker core_def Let_def split: if_splits)
  with i1 show ?thesis using lf_inv_ctl by blast
qed

lemma all_free_slots:
  assumes "lf_inv s" "all_free s" "w < length (workers s)"
  shows "w \<in> set_slots (dm_workers_busy s)"
  using assms by (auto simp: all_free_def list_all_iff lf_inv_def set_slots_def bitset_test_ok)

lemma lf_inv_start:
  assumes inv: "lf_inv s" and ns: "\<not> dm_started s" and af: "all_free s"
    and st: "start_promote s = Inr s'"
  shows "lf_inv s'"
proof -
  let ?n = "length (workers s)"
  have ok: "bitset_ok (dm_workers_busy s)" "m_bits (dm_workers_busy s) = ?n" "m_run_mode s = SINGLE_LOOP"
    using inv by (auto simp: lf_inv_def)
  have n: "0 < ?n" using st ok by (auto simp: start_promote_def)
  obtain B where B: "bitset_unset 0 (dm_workers_busy s) = Inr B" "bitset_ok B" "m_bits B = ?n"
    "set_slots B = set_slots (dm_workers_busy s) - {0}"
    using bs.unmark_law [OF ok(1), of 0] n ok(2) by auto
  let ?k = "(workers s ! 0)\<lparr>wm_loop := Some 0, wm_leader := True\<rparr>"
  have pk: "parked (workers s ! v)" if "v < ?n" for v
    using all_free_slots [OF inv af that] lf_inv_workers [OF inv that] by (auto simp: worker_inv_def)
  have s': "s' = s\<lparr>dm_workers_busy := B, userdata := (userdata s)(0 := Some 0),
      workers := (workers s)[0 := ?k], dm_started := True\<rparr>"
    using st ok(3) B(1) n by (auto simp: start_promote_def set_event_loop_def upd_worker_def)
  have "inv_at s' v (workers s' ! v)" if v: "v < ?n" for v
  proof -
    from pk [OF v] have "handing (wm_pc (workers s ! v)) = None" "wm_pc (workers s ! v) \<noteq> Boot"
      "wm_pc (workers s ! v) \<notin> {Polling, Polled}" "wm_events_queue (workers s ! v) = []"
      "wm_loop (workers s ! v) = None" "\<not> wm_leader (workers s ! v)"
      by (auto simp: parked_def)
    with pk [OF v] v n B(4) show ?thesis
      by (cases "v = 0") (simp_all add: s' worker_inv_def handing_inv_def nth_list_update)
  qed
  moreover have "\<exists>v < ?n. wm_loop (workers s' ! v) \<noteq> None"
    using n by (intro exI [of _ 0]) (simp add: s')
  ultimately show ?thesis using inv B n by (auto simp: lf_inv_def s')
qed

lemma lf_inv_step:
  assumes "lf_inv s" and "lf_step H s s'"
  shows "lf_inv s'"
  using assms(2)
proof cases
  case (thread w)
  with assms(1) lf_inv_advance show ?thesis by blast
next
  case (fire w l t e r)
  with assms(1) have "polls w s" "l = 0"
    using polls_facts(2) [OF assms(1)] by (auto simp: polls_def)
  with fire assms(1) lf_inv_fire show ?thesis by blast
next
  case (async w l v)
  with assms(1) have "polls w s" "l = 0"
    using polls_facts(2) [OF assms(1)] by (auto simp: polls_def)
  with async assms(1) lf_inv_async show ?thesis by blast
next
  case (poll_return w)
  with assms(1) lf_inv_poll_return show ?thesis by (simp add: polls_def)
next
  case start
  moreover have "m_run_mode s = SINGLE_LOOP" using assms(1) by (simp add: lf_inv_def)
  ultimately show ?thesis using assms(1) lf_inv_start by blast
next
  case (add e t s1)
  then have "ctl s' = ctl s" by (auto dest!: frame)
  with assms(1) lf_inv_ctl show ?thesis by blast
next
  case (post ev e)
  then have "ctl s' = ctl s" by (auto simp: add_async_event_def dest!: frame)
  with assms(1) lf_inv_ctl show ?thesis by blast
next
  case (finish t e)
  with assms(1) lf_inv_ctl [OF ctl_finish_response] show ?thesis by blast
next
  case (terminate w)
  with assms(1) lf_inv_terminate show ?thesis by blast
next
  case quit
  with assms(1) lf_inv_ctl [of "dispatcher_terminate s" s] show ?thesis by simp
qed

section \<open>The initial state\<close>

text \<open>The system that \<^verbatim>\<open>start\<close> is building: the workers created so far have not run yet.\<close>

definition spawned :: "nat \<Rightarrow> 8 word \<Rightarrow> sys \<Rightarrow> bool" where
  "spawned i n s \<longleftrightarrow> m_run_mode s = SINGLE_LOOP \<and> bitset_ok (dm_workers_busy s) \<and>
     m_bits (dm_workers_busy s) = unat n \<and> set_slots (dm_workers_busy s) = {} \<and>
     dm_num_workers s = n \<and> dm_last_worker_id s = 0 \<and> \<not> dm_started s \<and> userdata s = (\<lambda>_. None) \<and>
     tasks s = Map.empty \<and> history s = [] \<and>
     workers s = map (\<lambda>j. worker_new j None) [0..<i]"

lemma start_workers_spawned:
  assumes "spawned i n s" and "i \<le> unat n"
  shows "\<exists>s'. start_workers [i..<unat n] s = Inr s' \<and> spawned (unat n) n s'"
  using assms
proof (induction "unat n - i" arbitrary: i s)
  case (Suc d)
  then have i: "i < unat n" and sp: "spawned i n s" by auto
  obtain B where B: "bitset_unset i (dm_workers_busy s) = Inr B" "bitset_ok B" "m_bits B = unat n"
    "set_slots B = {}"
    using bs.unmark_law [of "dm_workers_busy s" i] sp i by (auto simp: spawned_def)
  let ?s = "s\<lparr>dm_workers_busy := B, workers := workers s @ [worker_new i None]\<rparr>"
  have "spawned (Suc i) n ?s" using sp B by (simp add: spawned_def)
  with Suc.hyps(1) [of "Suc i" ?s] Suc.hyps(2) i
  have "\<exists>s'. start_workers [Suc i..<unat n] ?s = Inr s' \<and> spawned (unat n) n s'" by simp
  with i B(1) sp show ?case by (simp add: upt_conv_Cons spawned_def)
qed simp

lemma lf_inv_spawned: "spawned (unat n) n s \<Longrightarrow> lf_inv s"
  by (auto simp: lf_inv_def spawned_def worker_inv_def handing_inv_def worker_new_def)

lemma start_spawn_ok:
  "\<exists>s. start_spawn (dispatcher_new SINGLE_LOOP n) = Inr s \<and> spawned (unat n) n s"
  using start_workers_spawned [of 0 n "dispatcher_new SINGLE_LOOP n"]
  by (simp add: start_spawn_def spawned_def dispatcher_new_def bitset_new_def set_slots_def bitset_ok_def)

lemma lf_reach_inv:
  assumes "lf_reach H SINGLE_LOOP n s"
  shows "lf_inv s"
  using assms
proof induction
  case (init s)
  with start_spawn_ok [of n] lf_inv_spawned show ?case by auto
next
  case (step s s')
  then show ?case using lf_inv_step by blast
qed

end
