(* ===== verification/Task_Exclusion.thy ===== *)
theory Task_Exclusion
  imports Leader_Followers
begin

text \<open>
  No event task is in two hands. A task is \<^emph>\<open>held\<close> by its armed watcher, by an event queued at
  some worker, and by a closure that will arm it or queue an event for it. The steps of the system
  keep the number of holders at one or less, so the handler of a task never runs on a worker while
  another worker has an event of the same task: this is what lets the library call handlers without
  a lock. Disk tasks are left out: their event is posted by code outside the step relation.
\<close>

section \<open>Counting the holders of a task\<close>

fun arms :: "task_func \<Rightarrow> tid option" where
  "arms (Start_io t) = Some t"
| "arms (Start_timer t) = Some t"
| "arms (Add_net _ t) = Some t"
| "arms (Async_event e) = Some (ev_task e)"
| "arms _ = None"

definition held_by :: "worker \<Rightarrow> tid \<Rightarrow> nat" where
  "held_by k t = count_list (map ev_task (wm_events_queue k)) t + count_list (map arms (wm_tfq k)) (Some t)"

definition armed :: "sys \<Rightarrow> tid \<Rightarrow> nat" where
  "armed s t = (case tasks s t of None \<Rightarrow> 0 | Some e \<Rightarrow> if em_active e = None then 0 else 1)"

definition holders :: "sys \<Rightarrow> tid \<Rightarrow> nat" where
  "holders s t = armed s t + (\<Sum>w < length (workers s). held_by (workers s ! w) t)"

lemma holders_upd_worker:
  assumes "w < length (workers s)"
  shows "holders (upd_worker w f s) t + held_by (workers s ! w) t
       = holders s t + held_by (f (workers s ! w)) t"
proof -
  let ?n = "length (workers s)"
  have "sum (\<lambda>v. held_by (workers (upd_worker w f s) ! v) t) {..<?n}
      = held_by (f (workers s ! w)) t + sum (\<lambda>v. held_by (workers s ! v) t) ({..<?n} - {w})"
    using assms by (subst sum.remove [of _ w]) (auto intro!: sum.cong)
  moreover have "sum (\<lambda>v. held_by (workers s ! v) t) {..<?n}
      = held_by (workers s ! w) t + sum (\<lambda>v. held_by (workers s ! v) t) ({..<?n} - {w})"
    using assms by (intro sum.remove) auto
  ultimately show ?thesis by (simp add: holders_def armed_def)
qed

lemma upd_worker_beyond: "\<not> w < length (workers s) \<Longrightarrow> upd_worker w f s = s"
  by (cases s) (simp add: upd_worker_def not_less list_update_beyond)

lemma holders_upd_worker_same:
  assumes "\<And>k. held_by (f k) t = held_by k t"
  shows "holders (upd_worker w f s) t = holders s t"
  using holders_upd_worker [of w s f t] assms upd_worker_beyond [of w s f]
  by (cases "w < length (workers s)") auto

lemma holders_tasks:
  "holders (s\<lparr>tasks := T, next_tid := n\<rparr>) t + armed s t = holders s t + armed (s\<lparr>tasks := T\<rparr>) t"
  "holders (s\<lparr>tasks := T\<rparr>) t + armed s t = holders s t + armed (s\<lparr>tasks := T\<rparr>) t"
  by (simp_all add: holders_def armed_def)

lemma holders_simps [simp]:
  "holders (add_log x s) = holders s" "holders (s\<lparr>dm_rr_worker_id := r\<rparr>) = holders s"
  "holders (s\<lparr>dm_workers_busy := b\<rparr>) = holders s" "holders (s\<lparr>dm_last_worker_id := i\<rparr>) = holders s"
  "holders (s\<lparr>dm_last_worker_id := i, dm_workers_busy := b\<rparr>) = holders s"
  "holders (s\<lparr>userdata := u\<rparr>) = holders s" "holders (s\<lparr>dm_started := c\<rparr>) = holders s"
  "holders (s\<lparr>dm_term := c\<rparr>) = holders s"
  by (rule ext; simp add: holders_def armed_def add_log_def)+

section \<open>How operations change the count\<close>

text \<open>Task numbers not handed out yet name nothing.\<close>

definition fresh :: "sys \<Rightarrow> bool" where
  "fresh s \<longleftrightarrow> (\<forall>t \<ge> next_tid s. tasks s t = None \<and> holders s t = 0)"

definition kind_of :: "sys \<Rightarrow> tid \<Rightarrow> task_kind option" where
  "kind_of s t = map_option em_kind (tasks s t)"

text \<open>
  \<open>adds A s s'\<close>: from \<open>s\<close> to \<open>s'\<close> a task that was there gets no new holder, one at most if it is
  in \<open>A\<close>, keeps its kind or is deleted; a task that was not there has one holder at most.
\<close>

definition adds :: "tid set \<Rightarrow> sys \<Rightarrow> sys \<Rightarrow> bool" where
  "adds A s s' \<longleftrightarrow> (fresh s \<longrightarrow> fresh s' \<and> next_tid s \<le> next_tid s' \<and>
     (\<forall>t < next_tid s. (kind_of s' t = None \<or> kind_of s' t = kind_of s t) \<and>
        holders s' t \<le> holders s t + (if t \<in> A then 1 else 0)) \<and>
     (\<forall>t \<ge> next_tid s. holders s' t \<le> 1))"

lemma fresh_live: "fresh s \<Longrightarrow> tasks s t \<noteq> None \<Longrightarrow> t < next_tid s"
  by (auto simp: fresh_def not_le [symmetric])

lemma adds_refl [simp]: "adds A s s"
  by (auto simp: adds_def fresh_def)

lemma adds_mono: "adds A s s' \<Longrightarrow> A \<subseteq> B \<Longrightarrow> adds B s s'"
proof -
  assume a: "adds A s s'" and "A \<subseteq> B"
  then have "(if t \<in> A then 1 else 0) \<le> (if t \<in> B then 1 else 0 :: nat)" for t by auto
  with a show "adds B s s'" unfolding adds_def by (meson add_left_mono le_trans)
qed

lemma adds_trans:
  assumes "adds A s s1" and "adds B s1 s2" and "A \<inter> B = {}"
    and "fresh s \<Longrightarrow> \<forall>t \<in> B. t < next_tid s"
  shows "adds (A \<union> B) s s2"
  unfolding adds_def
proof (intro impI)
  assume fr: "fresh s"
  note a = assms(1) [unfolded adds_def, rule_format, OF fr]
  with assms(2) have b: "fresh s2" "next_tid s1 \<le> next_tid s2"
    "\<And>t. t < next_tid s1 \<Longrightarrow> (kind_of s2 t = None \<or> kind_of s2 t = kind_of s1 t) \<and>
        holders s2 t \<le> holders s1 t + (if t \<in> B then 1 else 0)"
    "\<And>t. next_tid s1 \<le> t \<Longrightarrow> holders s2 t \<le> 1"
    by (auto simp: adds_def)
  have old: "(kind_of s2 t = None \<or> kind_of s2 t = kind_of s t) \<and>
        holders s2 t \<le> holders s t + (if t \<in> A \<union> B then 1 else 0)" if t: "t < next_tid s" for t
    using a t b(3) [of t] assms(3) by (fastforce split: if_splits)
  have new: "holders s2 t \<le> 1" if t: "next_tid s \<le> t" for t
  proof (cases "t < next_tid s1")
    case True
    with b(3) [of t] a t assms(4) [OF fr] show ?thesis by (auto split: if_splits)
  qed (use b(4) in simp)
  show "fresh s2 \<and> next_tid s \<le> next_tid s2 \<and>
     (\<forall>t < next_tid s. (kind_of s2 t = None \<or> kind_of s2 t = kind_of s t) \<and>
        holders s2 t \<le> holders s t + (if t \<in> A \<union> B then 1 else 0)) \<and>
     (\<forall>t \<ge> next_tid s. holders s2 t \<le> 1)"
    using a b old new by auto
qed

lemma adds_trans0: "adds {} s s1 \<Longrightarrow> adds {} s1 s2 \<Longrightarrow> adds {} s s2"
  using adds_trans [of "{}" s s1 "{}" s2] by simp

lemma adds_after: "adds A s s1 \<Longrightarrow> adds {} s1 s2 \<Longrightarrow> adds A s s2"
  using adds_trans [of A s s1 "{}" s2] by simp

lemma adds_before:
  "adds {} s s1 \<Longrightarrow> adds {t} s1 s2 \<Longrightarrow> t < next_tid s \<or> tasks s t \<noteq> None \<Longrightarrow> adds {t} s s2"
  using adds_trans [of "{}" s s1 "{t}" s2] fresh_live [of s t] by auto

text \<open>A task is allocated and held once.\<close>

lemma adds_new:
  assumes "new_task e s = (c, s1)" and "em_active e = None" and "adds {c} s1 s2"
  shows "adds {} s s2"
  unfolding adds_def
proof (intro impI)
  assume fr: "fresh s"
  from assms(1) have c: "c = next_tid s" and
    s1: "s1 = s\<lparr>tasks := (tasks s)(c \<mapsto> e), next_tid := next_tid s + 1\<rparr>" by (auto simp: new_task_def)
  have h1: "holders s1 t = holders s t" for t
    using holders_tasks(1) [where s = s and T = "(tasks s)(c \<mapsto> e)" and n = "next_tid s + 1" and t = t] fr assms(2)
    by (cases "t = c") (auto simp: s1 armed_def fresh_def c)
  have "fresh s1" using fr h1 by (auto simp: fresh_def c) (auto simp: s1 c)
  have n1: "next_tid s1 = Suc (next_tid s)" by (simp add: s1)
  have b: "fresh s2" "next_tid s + 1 \<le> next_tid s2"
    "\<And>t. t \<le> next_tid s \<Longrightarrow> (kind_of s2 t = None \<or> kind_of s2 t = kind_of s1 t) \<and>
        holders s2 t \<le> holders s t + (if t = c then 1 else 0)"
    "\<And>t. next_tid s < t \<Longrightarrow> holders s2 t \<le> 1"
    using assms(3) \<open>fresh s1\<close> by (simp_all add: adds_def h1 n1 less_Suc_eq_le Suc_le_eq)
  have "holders s2 t \<le> 1" if "next_tid s \<le> t" for t
    using that b(3) [of t] b(4) [of t] fr by (cases "t = c") (auto simp: c fresh_def)
  moreover have "(kind_of s2 t = None \<or> kind_of s2 t = kind_of s t) \<and> holders s2 t \<le> holders s t"
    if "t < next_tid s" for t
    using that b(3) [of t] by (auto simp: s1 kind_of_def c split: if_splits)
  ultimately show "fresh s2 \<and> next_tid s \<le> next_tid s2 \<and>
     (\<forall>t < next_tid s. (kind_of s2 t = None \<or> kind_of s2 t = kind_of s t) \<and>
        holders s2 t \<le> holders s t + (if t \<in> {} then 1 else 0)) \<and>
     (\<forall>t \<ge> next_tid s. holders s2 t \<le> 1)"
    using b(1,2) by simp
qed

section \<open>The operations\<close>

named_theorems count \<open>how many holders an operation adds\<close>

text \<open>Two generic facts: an update of the task map, and one of a worker.\<close>

lemma adds_upd_task:
  assumes "upd_task t f s = Inr s'"
    and "\<And>e. tasks s t = Some e \<Longrightarrow> em_kind (f e) = em_kind e"
    and "\<And>e. tasks s t = Some e \<Longrightarrow> t \<in> A \<or> em_active e \<noteq> None \<or> em_active (f e) = None"
  shows "adds A s s'"
proof -
  from assms(1) obtain e where e: "tasks s t = Some e" and s': "s' = s\<lparr>tasks := (tasks s)(t \<mapsto> f e)\<rparr>"
    by (auto simp: upd_task_def)
  have h: "holders s' u + armed s u = holders s u + armed s' u" for u
    using holders_tasks(2) [where s = s and T = "(tasks s)(t \<mapsto> f e)" and t = u] by (simp add: s')
  have a: "armed s' u \<le> armed s u + (if u \<in> A then 1 else 0)" for u
    using assms(3) [OF e] e by (auto simp: armed_def s')
  have hu: "holders s' u \<le> holders s u + (if u \<in> A then 1 else 0)" for u
    using h [of u] a [of u] by linarith
  have ho: "holders s' u = holders s u" if "u \<noteq> t" for u
    using h [of u] that by (simp add: armed_def s')
  have k: "kind_of s' u = kind_of s u" for u using assms(2) [OF e] e by (simp add: s' kind_of_def)
  have n: "next_tid s' = next_tid s" by (simp add: s')
  have other: "u \<noteq> t" "holders s u = 0" "tasks s' u = None" if "fresh s" "next_tid s \<le> u" for u
    using that e fresh_live [OF that(1), of t] by (auto simp: fresh_def s')
  then have "fresh s'" if "fresh s" using that ho by (auto simp: fresh_def n)
  with hu k n ho other show ?thesis unfolding adds_def by simp
qed

lemma adds_upd_worker:
  assumes "\<And>t. held_by (f (workers s ! w)) t \<le> held_by (workers s ! w) t + (if t \<in> A then 1 else 0)"
    and "fresh s \<Longrightarrow> \<forall>t \<in> A. t < next_tid s"
  shows "adds A s (upd_worker w f s)"
proof (cases "w < length (workers s)")
  case True
  have h: "holders (upd_worker w f s) t \<le> holders s t + (if t \<in> A then 1 else 0)" for t
    using holders_upd_worker [OF True, of f t] assms(1) [of t] by linarith
  have z: "holders (upd_worker w f s) t = 0" if "fresh s" "next_tid s \<le> t" for t
  proof -
    have "t \<notin> A" "holders s t = 0" using assms(2) [OF that(1)] that by (auto simp: fresh_def)
    with h [of t] show ?thesis by simp
  qed
  then have "fresh (upd_worker w f s)" if "fresh s" using that by (auto simp: fresh_def)
  with h z show ?thesis by (simp add: adds_def kind_of_def)
qed (simp add: upd_worker_beyond)

lemma adds_task_field:
  assumes "upd_task t f s = Inr s'" and "\<And>e. em_kind (f e) = em_kind e" "\<And>e. em_active (f e) = em_active e"
  shows "adds {} s s'"
  by (rule adds_upd_task [OF assms(1)]) (auto simp: assms(2,3))

lemma adds_ev_start [count]: "ev_start t l s = Inr s' \<Longrightarrow> adds {t} s s'"
  by (auto simp: ev_start_def intro: adds_upd_task split: if_splits)

lemma adds_ev_stop [count]: "ev_stop t s = Inr s' \<Longrightarrow> adds {} s s'"
  by (auto simp: ev_stop_def intro: adds_upd_task split: if_splits)

lemma adds_delete [simp]: "adds {} s (delete_task t s)"
proof -
  have h: "holders (delete_task t s) u \<le> holders s u" for u
    using holders_tasks(2) [where s = s and T = "(tasks s)(t := None)" and t = u]
    by (auto simp: delete_task_def armed_def split: if_splits)
  have "fresh (delete_task t s)" if "fresh s"
  proof -
    have "holders (delete_task t s) u = 0" if "next_tid s \<le> u" for u
      using h [of u] \<open>fresh s\<close> that by (auto simp: fresh_def)
    with that show ?thesis by (auto simp: fresh_def delete_task_def add_log_def)
  qed
  moreover have "holders (delete_task t s) u \<le> 1" if "fresh s" "next_tid s \<le> u" for u
    using h [of u] that by (auto simp: fresh_def)
  ultimately show ?thesis
    using h by (auto simp: adds_def delete_task_def add_log_def kind_of_def)
qed

lemma adds_add_log [simp]: "adds {} s (add_log x s)"
  by (auto simp: adds_def fresh_def kind_of_def) (auto simp: add_log_def)

lemma adds_init_watcher [count]: "init_watcher t s = Inr s' \<Longrightarrow> adds {} s s'"
  by (auto simp: init_watcher_def intro: adds_task_field split: if_splits)

lemma adds_assign_worker [count]: "assign_worker w t s = Inr s' \<Longrightarrow> adds {} s s'"
  by (auto simp: assign_worker_def Let_def split: mode.splits if_splits
      intro!: adds_task_field [where t = t and f = "\<lambda>e. if em_worker e = None then e\<lparr>em_worker := Some w\<rparr> else e"]
      simp: upd_task_def task_of_def)

lemma live_simps:
  "init_watcher t s = Inr s' \<Longrightarrow> tasks s t \<noteq> None" "ev_start t l s = Inr s' \<Longrightarrow> tasks s t \<noteq> None"
  "upd_task t f s = Inr s' \<Longrightarrow> tasks s t \<noteq> None"
  by (auto simp: init_watcher_def ev_start_def upd_task_def)

text \<open>What a closure does to the count when it is taken out of a queue: nothing, once it has run.\<close>

definition arms_set :: "task_func \<Rightarrow> tid set" where
  "arms_set f = set_option (arms f)"

lemma adds_add_event: "w < length (workers s) \<Longrightarrow> t < next_tid s \<Longrightarrow>
   adds {t} s (add_event \<lparr>ev_task = t, ev_revents = r\<rparr> w s)"
  unfolding add_event_def by (rule adds_upd_worker) (auto simp: held_by_def)

lemma adds_set_events [count]: "set_events n t s = Inr s' \<Longrightarrow> adds {} s s'"
  by (auto simp: set_events_def elim!: adds_task_field)

lemma adds_update_io [count]: "update_io t l s = Inr s' \<Longrightarrow> adds {} s s'"
  unfolding update_io_def by (erule adds_upd_task) (auto split: if_splits)

lemma adds_run_func [count]:
  assumes "run_func f l s = Inr s'" and "\<And>e. f \<noteq> Async_event e"
  shows "adds (arms_set f) s s'"
proof (cases f)
  case (Dispose_io t)
  with assms show ?thesis by (auto simp: arms_set_def intro: adds_trans0 [OF _ adds_delete] count)
next
  case (Update_io t)
  with assms show ?thesis by (simp add: arms_set_def count del: update_io_def)
next
  case (Send_response t)
  with assms(1) obtain s1 where s1: "set_events EV_WRITE t s = Inr s1"
    "s' = s1 \<or> (\<exists>s2. update_io t l s1 = Inr s2 \<and> upd_task t (\<lambda>e. e\<lparr>em_change_pending := False\<rparr>) s2 = Inr s')"
    by (auto simp del: update_io_def split: if_splits)
  then have "adds {} s1 s'" by (auto simp del: update_io_def intro: adds_trans0 [OF adds_update_io] elim!: adds_task_field)
  with s1(1) Send_response show ?thesis by (auto simp: arms_set_def intro: adds_trans0 count)
next
  case (Add_net w t)
  with assms obtain s1 s2 where a: "init_watcher t s = Inr s1" "assign_worker w t s1 = Inr s2"
    "ev_start t l s2 = Inr s'" by auto
  then have "adds {} s s2" by (blast intro: adds_trans0 count)
  with a show ?thesis using adds_before adds_ev_start live_simps(1) by (fastforce simp: Add_net arms_set_def)
qed (use assms in \<open>auto simp: arms_set_def dest: count\<close>)

lemma adds_async_call [count]:
  assumes "async_call w f s = Inr s'" and "\<And>t. arms f = Some t \<Longrightarrow> tasks s t \<noteq> None"
  shows "adds (arms_set f) s s'"
proof -
  let ?s1 = "upd_worker w (\<lambda>k. k\<lparr>wm_tfq := wm_tfq k @ [f]\<rparr>) s"
  from assms(1) have s': "s' = upd_worker w (\<lambda>k. k\<lparr>wm_async_sent := True\<rparr>) ?s1"
    by (auto simp: async_call_def Let_def)
  have "adds (arms_set f) s ?s1"
    using assms(2) fresh_live [of s] by (intro adds_upd_worker) (auto simp: held_by_def arms_set_def)
  moreover have "adds {} ?s1 s'" unfolding s' by (rule adds_upd_worker) (auto simp: held_by_def)
  ultimately show ?thesis by (rule adds_after)
qed

lemma adds_in_ctx [count]:
  assumes "in_ctx cur w f s = Inr s'" and "\<And>t. arms f = Some t \<Longrightarrow> tasks s t \<noteq> None"
    and "\<And>e. f \<noteq> Async_event e"
  shows "adds (arms_set f) s s'"
  using assms adds_run_func [of f _ s s'] adds_async_call [of w f s s']
  by (auto simp: in_ctx_def exec_in_worker_ctx_def split: if_splits option.splits)

lemma live_task_of: "task_of s t = Inr e \<Longrightarrow> tasks s t \<noteq> None"
  by simp

lemma adds_start_armed [count]:
  assumes "start_armed cur w t s = Inr s'"
  shows "adds {t} s s'"
proof -
  from assms obtain e where e: "tasks s t = Some e" by (auto simp: start_armed_def)
  with assms adds_in_ctx [of cur w "Start_io t" s s'] adds_in_ctx [of cur w "Start_timer t" s s']
  show ?thesis
    by (cases "em_kind e") (auto simp: start_armed_def io_start_watcher_def arms_set_def task_of_def)
qed

lemma adds_stop_watcher [count]:
  assumes "stop_watcher cur w t s = Inr s'"
  shows "adds {} s s'"
proof -
  from assms obtain e where e: "tasks s t = Some e" by (auto simp: stop_watcher_def)
  with assms adds_in_ctx [of cur w "Stop_io t" s s'] adds_in_ctx [of cur w "Stop_timer t" s s']
  show ?thesis
    by (cases "em_kind e") (auto simp: stop_watcher_def io_stop_watcher_def arms_set_def task_of_def)
qed

lemma adds_update_watcher [count]: "update_watcher cur w t s = Inr s' \<Longrightarrow> adds {} s s'"
  using adds_in_ctx [of cur w "Update_io t" s]
  by (auto simp: update_watcher_def arms_set_def split: if_splits
      elim!: adds_trans0 dest!: adds_task_field)

lemma adds_dispose [count]: "io_dispose cur w t s = Inr s' \<Longrightarrow> adds {} s s'"
  using adds_in_ctx [of cur w "Dispose_io t" s s'] by (auto simp: io_dispose_def arms_set_def)

lemma adds_rr [simp]: "adds {} s (s\<lparr>dm_rr_worker_id := r\<rparr>)"
  by (auto simp: adds_def fresh_def kind_of_def)

lemma adds_get_worker [count]: "get_worker_by_task cur t s = Inr (w, s') \<Longrightarrow> adds {} s s'"
  by (auto simp: get_worker_by_task_def Let_def split: option.splits mode.splits if_splits)

lemma adds_run_cbs [simp]:
  "adds {} s (fold (run_finish_cb w) fs s)" "adds {} s (fold (run_error_cb w x) fs s)"
proof -
  have "adds {} s (run_finish_cb w f s)" "adds {} s (run_error_cb w x f s)" for f s
    by (cases f; simp)+
  note one = this
  show "adds {} s (fold (run_finish_cb w) fs s)"
    by (induction fs arbitrary: s) (auto intro: adds_trans0 [OF one(1)])
  show "adds {} s (fold (run_error_cb w x) fs s)"
    by (induction fs arbitrary: s) (auto intro: adds_trans0 [OF one(2)])
qed

lemma adds_net_add [count]:
  assumes "net_add_task cur w t s = Inr s'" and "tasks s t \<noteq> None"
  shows "adds {t} s s'"
  using adds_in_ctx [of cur w "Add_net w t" s s'] assms by (simp add: net_add_task_def arms_set_def)

lemma adds_dispose_later [count]:
  assumes "dispose_later cur w t s = Inr s'"
  shows "adds {} s s'"
proof -
  from assms obtain c s0 s1 s2 where n: "new_task (cleanup_task_new t) s = (c, s0)"
    and a: "init_watcher c s0 = Inr s1" "assign_worker w c s1 = Inr s2" "start_armed cur w c s2 = Inr s'"
    by (auto simp: dispose_later_def split: prod.splits)
  have "adds {} s0 s2" using a by (blast intro: adds_trans0 count)
  then have "adds {c} s0 s'" using adds_before [OF _ adds_start_armed [OF a(3)]] live_simps(1) [OF a(1)] by blast
  then show ?thesis
    by (rule adds_new [OF n, rotated]) (simp add: cleanup_task_new_def timer_task_new_def event_task_new_def)
qed

lemma adds_remove [count]: "remove_event_task cur t s = Inr s' \<Longrightarrow> adds {} s s'"
  by (auto simp: remove_event_task_def split: if_splits intro: adds_trans0 count)

lemma adds_task_finish [count]: "task_finish cur w t s = Inr s' \<Longrightarrow> adds {} s s'"
  by (auto simp: task_finish_def intro: adds_trans0 count adds_run_cbs)

lemma adds_notify [count]: "notify_error w t s = Inr s' \<Longrightarrow> adds {} s s'"
  by (auto simp: notify_error_def)

lemma adds_finish_response [count]:
  assumes "finish_response cur t s = Inr s'"
  shows "adds {} s s'"
proof -
  from assms obtain s1 where u: "upd_task t enable_dispose s1 = Inr s'"
    and s1: "s1 = s \<or> (\<exists>w s0. get_worker_by_task cur t s = Inr (w, s0) \<and> in_ctx cur w (Send_response t) s0 = Inr s1)"
    by (auto simp: finish_response_def split: if_splits)
  have "adds {} s0 s1" if "in_ctx cur w (Send_response t) s0 = Inr s1" for w s0
    using adds_in_ctx [OF that] by (simp add: arms_set_def)
  with s1 have "adds {} s s1" by (auto intro: adds_trans0 count)
  moreover have "adds {} s1 s'" by (rule adds_task_field [OF u]) (simp_all add: enable_dispose_def)
  ultimately show ?thesis by (rule adds_trans0)
qed

lemma adds_perform [count]: "perform cur w t a s = Inr s' \<Longrightarrow> adds {} s s'"
proof (cases a)
  case (Spawn fd n)
  assume p: "perform cur w t a s = Inr s'"
  then obtain c s1 where n: "new_task (net_io_task_new fd n) s = (c, s1)"
    and a: "net_add_task cur w c s1 = Inr s'" by (auto simp: Spawn split: prod.splits)
  from n have "tasks s1 c \<noteq> None" by (auto simp: new_task_def)
  with a have "adds {c} s1 s'" by (rule adds_net_add)
  then show ?thesis
    by (rule adds_new [OF n, rotated])
       (simp add: net_io_task_new_def io_task_base_new_def event_task_new_def Let_def)
qed (auto simp: set_events_def set_exception_def disable_dispose_def enable_dispose_def
    disable_auto_delete_def on_finish_def on_error_def dest: adds_update_watcher adds_finish_response elim!: adds_task_field)

lemma adds_perform_all [count]: "perform_all cur w t as s = Inr s' \<Longrightarrow> adds {} s s'"
  by (induction as arbitrary: s) (auto intro: adds_trans0 count)

lemma adds_handle_event [count]: "handle_event H cur w t r s = Inr (c, s') \<Longrightarrow> adds {} s s'"
  by (clarsimp simp: handle_event_def Let_def)
     (auto simp: cleanup_handle_event_def intro: adds_trans0 [OF adds_add_log] count
       split: task_kind.splits prod.splits if_splits)

lemma handle_event_live: "handle_event H cur w t r s = Inr x \<Longrightarrow> tasks s t \<noteq> None"
  by (auto simp: handle_event_def)

lemma adds_exec_handler:
  assumes start: "\<And>s s'. start cur w (ev_task ev) s = Inr s' \<Longrightarrow> adds {ev_task ev} s s'"
    and ex: "exec_handler start H cur w ev s = Inr s'"
  shows "adds {ev_task ev} s s'"
proof -
  let ?t = "ev_task ev"
  from ex obtain c s1 s2 and e :: etask where h: "handle_event H cur w ?t (ev_revents ev) s = Inr (c, s1)"
    and n: "(if error e then notify_error (Some w) ?t s1 else Inr s1) = Inr s2"
    and r: "(if c then rbind (upd_task ?t reset_error s2) (start cur w ?t)
       else if em_auto_delete e then task_finish cur (Some w) ?t s2 else Inr s2) = Inr s'"
    by (rule exec_handlerE)
  have 12: "adds {} s1 s2" using n by (auto split: if_splits intro: count)
  then have 02: "adds {} s s2" using h by (blast intro: adds_trans0 count)
  have live: "tasks s ?t \<noteq> None" using h by (rule handle_event_live)
  show ?thesis
  proof (cases c)
    case True
    with r obtain s3 where "upd_task ?t reset_error s2 = Inr s3" "start cur w ?t s3 = Inr s'" by auto
    then have "adds {} s2 s3" "adds {?t} s3 s'"
      using start by (auto intro!: adds_task_field simp: reset_error_def)
    with 02 show ?thesis using adds_trans0 adds_before live by blast
  next
    case False
    with r have "adds {} s2 s'" by (auto split: if_splits intro: count)
    with 02 have "adds {} s s'" by (rule adds_trans0)
    then show ?thesis by (rule adds_mono) simp
  qed
qed

lemma adds_start_watcher [count]:
  assumes "start_watcher H cur w t s = Inr s'"
  shows "adds {t} s s'"
proof -
  from assms obtain e where e: "tasks s t = Some e" by (auto simp: start_watcher_def)
  show ?thesis
  proof (cases "is_timer e \<and> em_immediate e")
    case True
    with assms e obtain s1 where u: "upd_task t (\<lambda>e. e\<lparr>em_immediate := False\<rparr>) s = Inr s1"
      and x: "exec_handler start_armed H cur w \<lparr>ev_task = t, ev_revents = 0\<rparr> s1 = Inr s'"
      by (auto simp: start_watcher_def task_of_def)
    have "adds {} s s1" using u by (rule adds_task_field) simp_all
    moreover have "adds {t} s1 s'" using adds_exec_handler [OF _ x] adds_start_armed by simp
    ultimately show ?thesis using adds_before e by blast
  next
    case False
    with assms e show ?thesis by (auto simp: start_watcher_def task_of_def intro: count)
  qed
qed

lemma adds_exec_event_handler [count]:
  "exec_event_handler H cur w ev s = Inr s' \<Longrightarrow> adds {ev_task ev} s s'"
  unfolding exec_event_handler_def by (rule adds_exec_handler [OF adds_start_watcher])

lemma adds_add_task [count]:
  assumes "add_task H cur t s = Inr s'"
  shows "adds {t} s s'"
proof -
  from assms obtain w s1 s2 s3 where a: "get_worker_by_task cur t s = Inr (w, s1)"
    "init_watcher t s1 = Inr s2" "assign_worker w t s2 = Inr s3" "start_watcher H cur w t s3 = Inr s'"
    by (auto simp: add_task_def add_event_task_def)
  have "adds {} s s3" by (rule adds_trans0 [OF adds_get_worker [OF a(1)] adds_trans0 [OF adds_init_watcher [OF a(2)] adds_assign_worker [OF a(3)]]])
  moreover have "tasks s t \<noteq> None" using a(1) by (auto simp: get_worker_by_task_def)
  ultimately show ?thesis using a(4) adds_before adds_start_watcher by blast
qed

section \<open>The invariant\<close>

definition exclusive :: "sys \<Rightarrow> bool" where
  "exclusive s \<longleftrightarrow> fresh s \<and> (\<forall>t k. kind_of s t = Some k \<and> k \<noteq> Disk_task \<longrightarrow> holders s t \<le> 1)"

lemma exclusive_eq:
  "\<lbrakk>exclusive s; tasks s' = tasks s \<and> next_tid s' = next_tid s \<and> holders s' = holders s\<rbrakk> \<Longrightarrow> exclusive s'"
  by (simp add: exclusive_def fresh_def kind_of_def)

lemma exclusive_adds:
  assumes "exclusive s" and "adds A s s'"
    and "\<And>t. t \<in> A \<Longrightarrow> holders s t = 0 \<or> kind_of s t = Some Disk_task"
  shows "exclusive s'"
proof -
  have fr: "fresh s" using assms(1) by (simp add: exclusive_def)
  note a = assms(2) [unfolded adds_def, rule_format, OF fr]
  have "holders s' t \<le> 1" if k: "kind_of s' t = Some k" "k \<noteq> Disk_task" for t k
  proof (cases "t < next_tid s")
    case True
    with a k have "kind_of s t = Some k" "holders s' t \<le> holders s t + (if t \<in> A then 1 else 0)" by force+
    with assms(1,3) k show ?thesis by (fastforce simp: exclusive_def split: if_splits)
  qed (use a in simp)
  with a show ?thesis by (simp add: exclusive_def)
qed

lemma holders_keep [simp]:
  "holders (set_pc p w s) = holders s" "holders (set_event_loop l w s) = holders s"
  "holders (upd_worker w (\<lambda>k. k\<lparr>wm_leader := b\<rparr>) s) = holders s"
  "holders (upd_worker w (\<lambda>k. k\<lparr>wm_loop := lo\<rparr>) s) = holders s"
  "holders (upd_worker w (\<lambda>k. k\<lparr>wm_term := b\<rparr>) s) = holders s"
  "holders (upd_worker w (\<lambda>k. k\<lparr>wm_async_sent := b\<rparr>) s) = holders s"
  "holders (upd_worker w (\<lambda>k. k\<lparr>wm_events_count := wm_events_count k + 1\<rparr>) s) = holders s"
  by (rule ext; simp add: holders_upd_worker_same held_by_def set_pc_def set_event_loop_def)+

lemma set_pc_sel [simp]:
  "tasks (set_pc p w s) = tasks s" "next_tid (set_pc p w s) = next_tid s"
  "tasks (set_event_loop l w s) = tasks s" "next_tid (set_event_loop l w s) = next_tid s"
  by (simp_all add: set_pc_def set_event_loop_def)

lemma mark_free_keeps:
  "mark_free w s = Inr s' \<Longrightarrow> tasks s' = tasks s \<and> next_tid s' = next_tid s \<and> holders s' = holders s"
  by (auto simp: mark_free_def add_free_worker_def split: mode.splits)

lemma free_worker_keeps:
  "free_worker s = Inr (r, s') \<Longrightarrow> tasks s' = tasks s \<and> next_tid s' = next_tid s \<and> holders s' = holders s"
  by (auto simp: free_worker_def split: if_splits option.splits)

lemma promote_claim_keeps:
  "promote_claim w s = Inr s' \<Longrightarrow> tasks s' = tasks s \<and> next_tid s' = next_tid s \<and> holders s' = holders s"
  by (auto simp: promote_claim_def dest!: free_worker_keeps split: mode.splits option.splits)

lemma promote_pass_keeps:
  "promote_pass w x s = Inr s' \<Longrightarrow> tasks s' = tasks s \<and> next_tid s' = next_tid s \<and> holders s' = holders s"
  by (auto simp: promote_pass_def split: option.splits)

text \<open>The handler may arm its task again, and then its event is taken out of the queue.\<close>

lemma exclusive_handle_front:
  assumes inv: "exclusive s" and hf: "handle_front H w s = Inr s'"
  shows "exclusive s'"
proof (cases "wm_events_queue (workers s ! w)")
  case Nil
  with hf have "s' = set_pc Running w s" by (auto simp: handle_front_def)
  then show ?thesis by (intro exclusive_eq [OF inv]) simp
next
  case (Cons ev evs)
  let ?s0 = "upd_worker w (\<lambda>k. k\<lparr>wm_events_count := wm_events_count k + 1\<rparr>) s"
  from hf Cons obtain s1 where ex: "exec_event_handler H (Some w) w ev ?s0 = Inr s1"
    and s': "s' = upd_worker w (\<lambda>k. k\<lparr>wm_events_queue := tl (wm_events_queue k)\<rparr>) s1"
    and w: "w < length (workers s)"
    by (auto simp: handle_front_def)
  have inv0: "exclusive ?s0" by (rule exclusive_eq [OF inv]) simp
  then have fr: "fresh ?s0" by (simp add: exclusive_def)
  have c: "ctl s1 = ctl s" using ctl_exec_event_handler [OF ex] by (simp add: ctl_upd_worker core_def)
  note a = adds_exec_event_handler [OF ex, unfolded adds_def, rule_format, OF fr]
  have w1: "w < length (workers s1)" "wm_events_queue (workers s1 ! w) = ev # evs"
    using core_eqD [OF ctl_eqD(8) [OF c w]] ctl_eqD(7) [OF c] w Cons by auto
  have h: "holders s' t + (if t = ev_task ev then 1 else 0) = holders s1 t" for t
    using holders_upd_worker [OF w1(1), of "\<lambda>k. k\<lparr>wm_events_queue := tl (wm_events_queue k)\<rparr>" t]
    by (auto simp: s' held_by_def w1(2))
  have sel: "tasks s' = tasks s1" "next_tid s' = next_tid s1" by (simp_all add: s')
  have "holders s' t \<le> 1" if k: "kind_of s' t = Some k" "k \<noteq> Disk_task" for t k
  proof (cases "t < next_tid ?s0")
    case True
    with a have old: "kind_of s1 t = None \<or> kind_of s1 t = kind_of ?s0 t"
      "holders s1 t \<le> holders ?s0 t + (if t \<in> {ev_task ev} then 1 else 0)" by blast+
    have "kind_of s1 t = Some k" using k(1) by (simp add: kind_of_def sel)
    with old(1) have "kind_of ?s0 t = Some k" by simp
    with inv0 k(2) have "holders ?s0 t \<le> 1" unfolding exclusive_def by blast
    with old(2) h [of t] show ?thesis by (simp split: if_splits)
  next
    case False
    with a have "holders s1 t \<le> 1" by simp
    with h [of t] show ?thesis by linarith
  qed
  moreover have "fresh s'"
  proof -
    have "fresh s1" using a by blast
    moreover have "holders s' t \<le> holders s1 t" for t using h [of t] by linarith
    ultimately show ?thesis by (simp add: fresh_def sel) (metis le_zero_eq)
  qed
  ultimately show ?thesis by (simp add: exclusive_def)
qed

lemma exclusive_advance:
  assumes "exclusive s" and "advance H w s = Inr s'"
  shows "exclusive s'"
proof (cases "wm_pc (workers s ! w) = Handling")
  case True
  with assms exclusive_handle_front show ?thesis by (auto simp: advance_def)
next
  case False
  with assms(2) have "tasks s' = tasks s \<and> next_tid s' = next_tid s \<and> holders s' = holders s"
    by (auto simp: advance_def split: pc.splits if_splits
        dest!: mark_free_keeps promote_claim_keeps promote_pass_keeps)
  then show ?thesis by (rule exclusive_eq [OF assms(1)])
qed

text \<open>A closure runs after it has left its queue; the rest of the queue is still to run.\<close>

definition exclusive_with :: "task_func list \<Rightarrow> sys \<Rightarrow> bool" where
  "exclusive_with fs s \<longleftrightarrow> fresh s \<and>
     (\<forall>t \<ge> next_tid s. count_list (map arms fs) (Some t) = 0) \<and>
     (\<forall>t k. kind_of s t = Some k \<and> k \<noteq> Disk_task \<longrightarrow>
        holders s t + count_list (map arms fs) (Some t) \<le> 1)"

lemma exclusive_with_step:
  assumes ex: "exclusive_with (f # fs) s" and a: "adds (arms_set f) s s'"
  shows "exclusive_with fs s'"
proof -
  have fr: "fresh s" using ex by (simp add: exclusive_with_def)
  note a = a [unfolded adds_def, rule_format, OF fr]
  have z: "count_list (map arms fs) (Some t) = 0" if "next_tid s \<le> t" for t
    using ex that by (auto simp: exclusive_with_def split: if_splits)
  have "holders s' t + count_list (map arms fs) (Some t) \<le> 1"
    if k: "kind_of s' t = Some k" "k \<noteq> Disk_task" for t k
  proof (cases "t < next_tid s")
    case True
    with a k have "kind_of s t = Some k" by force
    with ex k have "holders s t + count_list (map arms (f # fs)) (Some t) \<le> 1"
      unfolding exclusive_with_def by blast
    moreover have "holders s' t \<le> holders s t + (if t \<in> arms_set f then 1 else 0)" using a True by blast
    ultimately show ?thesis by (auto simp: arms_set_def split: if_splits)
  next
    case False
    with a z [of t] show ?thesis by simp
  qed
  with a z show ?thesis unfolding exclusive_with_def by (meson le_trans)
qed

text \<open>The system that \<^verbatim>\<open>start\<close> has built has no tasks and nothing queued, in either mode.\<close>

definition blank :: "sys \<Rightarrow> bool" where
  "blank s \<longleftrightarrow> tasks s = Map.empty \<and> (\<forall>k \<in> set (workers s). wm_events_queue k = [] \<and> wm_tfq k = [])"

lemma start_workers_blank: "start_workers is s = Inr s' \<Longrightarrow> blank s \<Longrightarrow> blank s'"
proof (induction "is" arbitrary: s)
  case (Cons i "is")
  from Cons.prems obtain s1 where "start_workers is s1 = Inr s'" "blank s1"
    by (cases "m_run_mode s") (auto simp: Let_def blank_def worker_new_def)
  then show ?case by (rule Cons.IH)
qed simp

lemma exclusive_init:
  assumes "start_spawn (dispatcher_new m n) = Inr s"
  shows "exclusive s"
proof -
  have "blank s" using assms start_workers_blank by (auto simp: start_spawn_def blank_def dispatcher_new_def)
  then have "tasks s = Map.empty" "holders s t = 0" for t
    by (simp_all add: holders_def armed_def blank_def held_by_def)
  then show ?thesis by (simp add: exclusive_def fresh_def kind_of_def)
qed

section \<open>The discipline of the loops\<close>

text \<open>
  What the count relies on of a run mode: an invariant \<open>I\<close> of its reachable states by which a worker inside
  \<^verbatim>\<open>ev_loop\<close> leads the loop and is registered there, and which depends on the control state only and
  allows a polling worker more events. Both run modes provide it, the single loop mode at the end of this
  theory and the multi loop mode in its own.
\<close>

locale loop_discipline =
  fixes m :: mode and I :: "sys \<Rightarrow> bool"
  assumes reached: "lf_reach H m n s \<Longrightarrow> I s"
    and registered: "I s \<Longrightarrow> polls w s \<Longrightarrow>
      \<exists>l. wm_leader (workers s ! w) \<and> wm_loop (workers s ! w) = Some l \<and> userdata s l = Some w"
    and control: "ctl s' = ctl s \<Longrightarrow> I s \<Longrightarrow> I s'"
    and queues: "I s \<Longrightarrow> polls w s \<Longrightarrow> I (add_event e w s)"
begin

lemma loop_of:
  assumes "I s" "polls w s" "wm_loop (workers s ! w) = Some l"
  shows "wm_leader (workers s ! w)" "userdata s l = Some w"
  using registered [OF assms(1,2)] assms(3) by auto

text \<open>libev's callbacks on the leader's thread: the fired watcher is stopped before its event is queued.\<close>

lemma stop_watcher_disarms:
  assumes "polls w s" "I s" and e: "tasks s t = Some e" "em_kind e \<noteq> Disk_task" "em_active e \<noteq> None"
    and st: "stop_watcher (Some w) w t s = Inr s'"
  shows "holders s' t + 1 = holders s t" "tasks s' t \<noteq> None"
proof -
  have "ev_stop t s = Inr s'"
    using st e registered [OF assms(2,1)] assms(1)
    by (cases "em_kind e") (auto simp: stop_watcher_def task_of_def io_stop_watcher_def in_ctx_def
        exec_in_worker_ctx_def worker_of_def polls_def)
  then have s': "s' = s\<lparr>tasks := (tasks s)(t \<mapsto> e\<lparr>em_active := None\<rparr>)\<rparr>"
    using e by (auto simp: ev_stop_def task_of_def upd_task_def)
  then show "holders s' t + 1 = holders s t"
    using holders_tasks(2) [where s = s and T = "(tasks s)(t \<mapsto> e\<lparr>em_active := None\<rparr>)" and t = t] e
    by (auto simp: armed_def split: if_splits)
  show "tasks s' t \<noteq> None" by (simp add: s')
qed

lemma exclusive_fire:
  assumes inv: "exclusive s" "I s" and p: "polls w s" "wm_loop (workers s ! w) = Some l"
    and e: "tasks s t = Some e" "em_active e \<noteq> None"
    and f: "tasks_event_callback l (Some w) t r s = Inr s'"
  shows "exclusive s'"
proof -
  from f loop_of(2) [OF inv(2) p] obtain s1 where st: "stop_watcher (Some w) w t s = Inr s1"
    and s': "s' = add_event \<lparr>ev_task = t, ev_revents = r\<rparr> w s1"
    by (auto simp: tasks_event_callback_def)
  have ex1: "exclusive s1" by (rule exclusive_adds [OF inv(1) adds_stop_watcher [OF st]]) simp
  have c: "ctl s1 = ctl s" using ctl_stop_watcher [OF st] .
  have t: "t < next_tid s" using e inv(1) fresh_live by (auto simp: exclusive_def)
  have fr: "fresh s" using inv(1) by (simp add: exclusive_def)
  note a = adds_stop_watcher [OF st, unfolded adds_def, rule_format, OF fr]
  have "adds {t} s1 s'"
    unfolding s' using p ctl_eqD(7) [OF c] t a by (intro adds_add_event) (auto simp: polls_def)
  moreover have "holders s1 t = 0 \<or> kind_of s1 t = Some Disk_task \<or> kind_of s1 t = None"
  proof (cases "em_kind e = Disk_task")
    case True
    with e have "kind_of s t = Some Disk_task" by (simp add: kind_of_def)
    with a t show ?thesis by auto
  next
    case False
    then have "holders s t \<le> 1" using inv(1) e by (auto simp: exclusive_def kind_of_def)
    with stop_watcher_disarms(1) [OF p(1) inv(2) e(1) False e(2) st] show ?thesis by simp
  qed
  moreover have "kind_of s1 t \<noteq> None"
    using stop_watcher_disarms(2) [OF p(1) inv(2) e(1) _ e(2) st] st e
    by (cases "em_kind e = Disk_task") (auto simp: kind_of_def stop_watcher_def task_of_def)
  ultimately show ?thesis using exclusive_adds [OF ex1] by blast
qed

lemma run_func_adds:
  assumes "I s" "polls w s" "wm_loop (workers s ! w) = Some l" and rf: "run_func f l s = Inr s'"
    and "\<And>t. arms f = Some t \<Longrightarrow> t < next_tid s"
  shows "adds (arms_set f) s s'"
proof (cases "\<exists>e. f = Async_event e")
  case True
  then obtain e where f: "f = Async_event e" ..
  with rf loop_of(2) [OF assms(1-3)] have "s' = add_event e w s" by (auto simp: loop_worker_def)
  then have "s' = add_event \<lparr>ev_task = ev_task e, ev_revents = ev_revents e\<rparr> w s" by (cases e) simp
  with f assms(2,5) adds_add_event [of w s "ev_task e" "ev_revents e"] show ?thesis
    by (simp add: polls_def arms_set_def)
next
  case False
  with rf show ?thesis by (intro adds_run_func) auto
qed

lemma run_func_keeps:
  assumes "I s" "polls w s" "wm_loop (workers s ! w) = Some l" and rf: "run_func f l s = Inr s'"
  shows "I s' \<and> polls w s'"
proof (cases "\<exists>e. f = Async_event e")
  case True
  with rf loop_of(2) [OF assms(1-3)] obtain e where "s' = add_event e w s" by (auto simp: loop_worker_def)
  with assms queues polls_add_event show ?thesis by blast
next
  case False
  with rf have "ctl s' = ctl s" using ctl_run_func by blast
  with assms control polls_ctl show ?thesis by blast
qed

lemma exclusive_run_queued:
  "\<lbrakk>exclusive_with fs s; I s; polls w s; run_queued False w fs s = Inr s'\<rbrakk> \<Longrightarrow> exclusive s'"
proof (induction fs arbitrary: s)
  case Nil
  then show ?case by (simp add: exclusive_with_def exclusive_def)
next
  case (Cons f fs)
  from Cons.prems(4) registered [OF Cons.prems(2,3)] Cons.prems(3) obtain l s1 where
    l: "wm_loop (workers s ! w) = Some l" and rf: "run_func f l s = Inr s1" and r: "run_queued False w fs s1 = Inr s'"
    by (auto simp: exec_in_worker_ctx_def polls_def)
  have "t < next_tid s" if "arms f = Some t" for t
    using Cons.prems(1) that by (auto simp: exclusive_with_def not_le [symmetric])
  then have "adds (arms_set f) s s1" using run_func_adds [OF Cons.prems(2,3) l rf] by blast
  then have "exclusive_with fs s1" by (rule exclusive_with_step [OF Cons.prems(1)])
  with Cons.IH r run_func_keeps [OF Cons.prems(2,3) l rf] show ?case by blast
qed

lemma exclusive_async:
  assumes inv: "exclusive s" "I s" and p: "polls w s" "wm_loop (workers s ! w) = Some l"
    and v: "v < length (workers s)" and f: "tasks_async_callback False l v s = Inr s'"
  shows "exclusive s'"
proof -
  let ?f = "\<lambda>k :: worker. k\<lparr>wm_tfq := [], wm_async_sent := False\<rparr>" and ?fs = "wm_tfq (workers s ! v)"
  let ?s1 = "upd_worker v ?f s"
  have c: "ctl ?s1 = ctl s" by (simp add: ctl_upd_worker core_def)
  have h: "holders ?s1 t + count_list (map arms ?fs) (Some t) = holders s t" for t
    using holders_upd_worker [OF v, of ?f t] by (simp add: held_by_def)
  have "exclusive_with ?fs ?s1"
  proof -
    have "holders s t = 0" if "next_tid s \<le> t" for t
      using inv(1) that by (auto simp: exclusive_def fresh_def)
    with h have z: "holders ?s1 t = 0 \<and> count_list (map arms ?fs) (Some t) = 0" if "next_tid s \<le> t" for t
      using that by (metis add_is_0)
    with inv(1) h show ?thesis
      by (simp add: exclusive_with_def exclusive_def fresh_def kind_of_def)
  qed
  moreover have "run_queued False w ?fs ?s1 = Inr s'"
    using f loop_of(2) [OF inv(2) p] by (auto simp: tasks_async_callback_def)
  ultimately show ?thesis
    using exclusive_run_queued control [OF c inv(2)] polls_ctl [OF c p(1)] by blast
qed

lemma exclusive_step:
  assumes ex: "exclusive s" and inv: "I s" and st: "lf_step H s s'"
  shows "exclusive s'"
  using st
proof cases
  case (thread w)
  with ex exclusive_advance show ?thesis by blast
next
  case (fire w l t e r)
  then have "polls w s" by (simp add: polls_def)
  with fire show ?thesis using exclusive_fire [OF ex inv] by blast
next
  case (async w l v)
  then have "polls w s" by (simp add: polls_def)
  with async show ?thesis using exclusive_async [OF ex inv] by blast
next
  case (poll_return w)
  show ?thesis unfolding poll_return by (rule exclusive_eq [OF ex]) simp
next
  case start
  then have "tasks s' = tasks s \<and> next_tid s' = next_tid s \<and> holders s' = holders s"
    by (auto simp: start_promote_def split: mode.splits)
  then show ?thesis by (rule exclusive_eq [OF ex])
next
  case (add e t s1)
  have "adds {} s s'" by (rule adds_new [OF add(1,2) adds_add_task [OF add(3)]])
  then show ?thesis by (rule exclusive_adds [OF ex]) simp
next
  case (post ev e)
  have "adds {ev_task ev} s s'"
    using adds_async_call [of "last_worker s" "Async_event ev" s s'] post
    by (auto simp: add_async_event_def arms_set_def)
  then show ?thesis by (rule exclusive_adds [OF ex]) (use post in \<open>auto simp: kind_of_def\<close>)
next
  case (finish t e)
  show ?thesis by (rule exclusive_adds [OF ex adds_finish_response [OF finish(4)]]) simp
next
  case (terminate w)
  then have "tasks s' = tasks s \<and> next_tid s' = next_tid s \<and> holders s' = holders s"
    by (auto simp: worker_terminate_def Let_def split: if_splits)
  then show ?thesis by (rule exclusive_eq [OF ex])
next
  case quit
  show ?thesis unfolding quit by (rule exclusive_eq [OF ex]) (simp add: dispatcher_terminate_def)
qed

lemma reach_exclusive: "lf_reach H m n s \<Longrightarrow> exclusive s"
proof (induction rule: lf_reach.induct)
  case (init s)
  then show ?case by (rule exclusive_init)
next
  case (step s s')
  then show ?case using exclusive_step reached by blast
qed

end

interpretation single: loop_discipline SINGLE_LOOP lf_inv
proof
  show "lf_inv s" if "lf_reach H SINGLE_LOOP n s" for H n s using that by (rule lf_reach_inv)
  show "\<exists>l. wm_leader (workers s ! w) \<and> wm_loop (workers s ! w) = Some l \<and> userdata s l = Some w"
    if "lf_inv s" "polls w s" for s w using polls_facts [OF that] by simp
  show "lf_inv s'" if "ctl s' = ctl s" "lf_inv s" for s s' using that by (rule lf_inv_ctl)
  show "lf_inv (add_event e w s)" if "lf_inv s" "polls w s" for s w e
    using lf_inv_ctl_queue [OF that(1)] that(2) by (simp add: polls_def)
qed

end
