(* ===== verification/Leader_Properties.thy ===== *)
theory Leader_Properties
  imports Task_Exclusion
begin

text \<open>
  What the Leader/Followers protocol guarantees, as properties of every reachable state, and runs of
  the system that reach the states they speak of.
\<close>

section \<open>Runs\<close>

text \<open>The steps as a function of a label, so that a run can be computed.\<close>

datatype label = Thread wid | Fire wid tid int | Async wid wid | Poll_return wid | Start | Add etask
  | Terminate wid | Finish tid | Quit

definition guarded :: "bool \<Rightarrow> sys result \<Rightarrow> sys result" where
  "guarded b r = (if b then r else Inl Assertion)"

fun do_label :: "handler \<Rightarrow> label \<Rightarrow> sys \<Rightarrow> sys result" where
  "do_label H (Thread w) s = advance H w s"
| "do_label H (Fire w t r) s = rbind (worker_of s w) (\<lambda>k. rbind (task_of s t) (\<lambda>e.
     case wm_loop k of None \<Rightarrow> Inl Assertion | Some l \<Rightarrow>
       guarded (wm_pc k = Polling \<and> em_active e = Some l) (tasks_event_callback l (Some w) t r s)))"
| "do_label H (Async w v) s = rbind (worker_of s w) (\<lambda>k. rbind (worker_of s v) (\<lambda>k'.
     case wm_loop k of None \<Rightarrow> Inl Assertion | Some l \<Rightarrow>
       guarded (wm_pc k = Polling \<and> wm_async_sent k' \<and> (m_run_mode s = SINGLE_LOOP \<or> v = w))
         (tasks_async_callback False l v s)))"
| "do_label H (Poll_return w) s = rbind (worker_of s w) (\<lambda>k.
     guarded (wm_pc k = Polling) (Inr (set_pc Polled w s)))"
| "do_label H Start s = guarded (\<not> dm_started s \<and> (m_run_mode s = SINGLE_LOOP \<longrightarrow> all_free s)) (start_promote s)"
| "do_label H (Add e) s = (let (t, s) = new_task e s in guarded (em_active e = None) (add_task H None t s))"
| "do_label H (Terminate w) s = worker_terminate w s"
| "do_label H (Finish t) s = rbind (task_of s t) (\<lambda>e.
     guarded (em_kind e = Io_task \<and> (m_run_mode s = MULTI_LOOP \<longrightarrow> em_worker e \<noteq> None)) (finish_response None t s))"
| "do_label H Quit s = Inr (dispatcher_terminate s)"

fun do_labels :: "handler \<Rightarrow> label list \<Rightarrow> sys \<Rightarrow> sys result" where
  "do_labels H [] s = Inr s"
| "do_labels H (a # as) s = rbind (do_label H a s) (do_labels H as)"

definition run_from_start :: "handler \<Rightarrow> mode \<Rightarrow> 8 word \<Rightarrow> label list \<Rightarrow> sys result" where
  "run_from_start H m n as = rbind (start_spawn (dispatcher_new m n)) (do_labels H as)"

lemma guarded_Inr [simp]: "guarded b r = Inr s \<longleftrightarrow> b \<and> r = Inr s"
  by (simp add: guarded_def)

lemma do_label_step: "do_label H a s = Inr s' \<Longrightarrow> lf_step H s s'"
proof (cases a)
  case (Add e)
  assume "do_label H a s = Inr s'"
  with Add show ?thesis by (auto split: prod.splits intro: lf_step.add)
next
  case (Async w v)
  assume "do_label H a s = Inr s'"
  with Async show ?thesis by (cases "m_run_mode s") (auto split: option.splits intro: lf_step.async)
qed (auto split: option.splits intro: lf_step.intros)

lemma do_labels_reach: "\<lbrakk>lf_reach H m n s; do_labels H as s = Inr s'\<rbrakk> \<Longrightarrow> lf_reach H m n s'"
  by (induction as arbitrary: s) (auto dest: do_label_step intro: lf_reach.step)

lemma run_from_start_reach: "run_from_start H m n as = Inr s \<Longrightarrow> lf_reach H m n s"
  by (auto simp: run_from_start_def intro: do_labels_reach lf_reach.init)

text \<open>
  A run of three workers: they start, the first leads, a task is added from outside and armed, it
  fires, and the leader hands the loop to the second worker while it handles the event.
\<close>

definition quiet :: handler where
  "quiet t r s = ([], True)"

definition to_event :: "label list" where
  "to_event = [Thread 0, Thread 1, Thread 2, Start, Thread 0, Thread 0, Add (io_task_base_new 1),
     Async 0 0, Fire 0 0 1, Poll_return 0]"

definition to_handing :: "label list" where
  "to_handing = to_event @ [Thread 0]"

definition to_handled :: "label list" where
  "to_handled = to_handing @ [Thread 0, Thread 1, Thread 1, Thread 0]"

lemma lf_reach_run:
  assumes "case run_from_start H m n as of Inl _ \<Rightarrow> False | Inr s \<Rightarrow> P s"
  shows "\<exists>s. run_from_start H m n as = Inr s \<and> lf_reach H m n s \<and> P s"
  using assms by (auto split: sum.splits intro: run_from_start_reach)

section \<open>The loop and its owner\<close>

text \<open>
  C1: once the dispatcher has started in single loop mode, in every state the threads can reach the
  event loop has exactly one owner, and a worker inside \<^verbatim>\<open>ev_loop\<close> is that owner, is the leader,
  and is the worker registered at the loop; so two workers never poll at the same time.
\<close>

theorem loop_has_one_owner:
  assumes "lf_reach H SINGLE_LOOP n s" and "dm_started s"
  shows "(\<exists>!w. w < length (workers s) \<and> wm_loop (workers s ! w) \<noteq> None) \<and>
    (\<forall>w < length (workers s). wm_pc (workers s ! w) = Polling \<longrightarrow>
       wm_leader (workers s ! w) \<and> wm_loop (workers s ! w) = Some 0 \<and> userdata s 0 = Some w) \<and>
    (\<forall>v < length (workers s). \<forall>w < length (workers s).
       wm_pc (workers s ! v) = Polling \<and> wm_pc (workers s ! w) = Polling \<longrightarrow> v = w)"
proof -
  have inv: "lf_inv s" using assms(1) by (rule lf_reach_inv)
  have ex: "\<exists>w < length (workers s). wm_loop (workers s ! w) \<noteq> None"
    using inv assms(2) by (simp add: lf_inv_def)
  have pf: "wm_leader (workers s ! w) \<and> wm_loop (workers s ! w) = Some 0 \<and> userdata s 0 = Some w"
    if "w < length (workers s)" "wm_pc (workers s ! w) = Polling" for w
    using polls_facts [OF inv, of w] that by (simp add: polls_def)
  show ?thesis
    using ex owner_unique [OF inv] pf by (metis option.inject)
qed

lemma handled_run:
  "case run_from_start quiet SINGLE_LOOP 3 to_handled of Inl _ \<Rightarrow> False
   | Inr s \<Rightarrow> dm_started s \<and> length (workers s) = 3 \<and> wm_pc (workers s ! 1) = Polling"
  by code_simp

theorem loop_has_one_owner_witness:
  "\<exists>s. run_from_start quiet SINGLE_LOOP 3 to_handled = Inr s \<and>
     wm_pc (workers s ! 1) = Polling \<and> userdata s 0 = Some 1"
proof -
  obtain s where s: "run_from_start quiet SINGLE_LOOP 3 to_handled = Inr s"
    "lf_reach quiet SINGLE_LOOP 3 s"
    "dm_started s \<and> length (workers s) = 3 \<and> wm_pc (workers s ! 1) = Polling"
    using lf_reach_run [where P = "\<lambda>s. dm_started s \<and> length (workers s) = 3 \<and> wm_pc (workers s ! 1) = Polling"
        and H = quiet and m = SINGLE_LOOP and n = 3 and as = to_handled, OF handled_run] by blast
  with loop_has_one_owner [OF s(2)] show ?thesis by auto
qed

lemma free_worker_cases:
  assumes inv: "lf_inv s" and "workers s \<noteq> []"
  shows "\<exists>r s'. free_worker s = Inr (r, s') \<and>
    (r = None \<longleftrightarrow> length (workers s) = 1 \<or> set_slots (dm_workers_busy s) = {}) \<and>
    (\<forall>x \<in> set_option r. x < length (workers s) \<and> parked (workers s ! x)) \<and>
    set_slots (dm_workers_busy s') = set_slots (dm_workers_busy s) - set_option r"
proof -
  let ?B = "dm_workers_busy s"
  have ok: "bitset_ok ?B" "m_bits ?B = length (workers s)"
    "unat (dm_num_workers s) = length (workers s)" "dm_last_worker_id s < length (workers s)"
    using inv assms(2) by (auto simp: lf_inv_def)
  have n1: "1 < unat (dm_num_workers s) \<longleftrightarrow> length (workers s) \<noteq> 1"
    using assms(2) ok(3) by (cases "workers s") auto
  have idle: "x < length (workers s) \<and> parked (workers s ! x)" if "x \<in> set_slots ?B" for x
    using lf_inv_workers [OF inv, of x] that ok(2) by (auto simp: set_slots_def worker_inv_def)
  show ?thesis
  proof (cases "length (workers s) = 1 \<or> set_slots ?B = {}")
    case True
    then have "free_worker s = Inr (None, s)"
      using n1 bs.pick_empty [OF ok(1), of "dm_last_worker_id s"] ok by (auto simp: free_worker_def)
    with True show ?thesis by auto
  next
    case False
    then obtain x where p: "bitset_next ?B (dm_last_worker_id s) = Inr (Some x)"
      using bs.pick_succeeds [OF ok(1), of "dm_last_worker_id s"] ok by auto
    from bs.claim_slot [OF ok(1) _ p] ok obtain b where b: "bitset_unset x ?B = Inr b" "x \<in> set_slots ?B"
      "set_slots b = set_slots ?B - {x}" by auto
    from p b(1) False n1 have "free_worker s = Inr (Some x, s\<lparr>dm_last_worker_id := x, dm_workers_busy := b\<rparr>)"
      by (simp add: free_worker_def)
    with b False idle show ?thesis by auto
  qed
qed

text \<open>
  \<^verbatim>\<open>free_worker\<close> only ever hands out a worker that is idle: it is not the leader, has no loop
  and no queued events, waits to be promoted (or was told to terminate); and it takes exactly that
  worker out of the pool. It finds one whenever the pool is not empty and there is more than one
  worker.
\<close>

theorem free_worker_is_idle:
  assumes "lf_reach H SINGLE_LOOP n s" and "workers s \<noteq> []"
  shows "\<exists>r s'. free_worker s = Inr (r, s') \<and>
    (r = None \<longleftrightarrow> length (workers s) = 1 \<or> set_slots (dm_workers_busy s) = {}) \<and>
    (\<forall>x \<in> set_option r. x < length (workers s) \<and> parked (workers s ! x)) \<and>
    set_slots (dm_workers_busy s') = set_slots (dm_workers_busy s) - set_option r"
  using free_worker_cases [OF lf_reach_inv [OF assms(1)] assms(2)] .

definition at_event :: "sys \<Rightarrow> bool" where
  "at_event s \<longleftrightarrow> wm_pc (workers s ! 0) = Polled \<and> map ev_task (wm_events_queue (workers s ! 0)) = [0] \<and>
     length (workers s) = 3 \<and> \<not> wm_term (workers s ! 1) \<and> tasks s 0 \<noteq> None \<and>
     map_option em_kind (tasks s 0) = Some Io_task \<and>
     (case free_worker s of Inl _ \<Rightarrow> False | Inr (r, _) \<Rightarrow> r = Some 1)"

lemma event_run:
  "\<exists>s. run_from_start quiet SINGLE_LOOP 3 to_event = Inr s \<and> lf_reach quiet SINGLE_LOOP 3 s \<and> at_event s"
  by (rule lf_reach_run) code_simp

lemma at_eventD:
  "at_event s \<Longrightarrow> \<exists>s'. free_worker s = Inr (Some 1, s')"
  by (auto simp: at_event_def split: sum.splits)

theorem free_worker_is_idle_witness:
  "\<exists>s s'. run_from_start quiet SINGLE_LOOP 3 to_event = Inr s \<and> free_worker s = Inr (Some 1, s') \<and>
     parked (workers s ! 1)"
proof -
  obtain s where s: "run_from_start quiet SINGLE_LOOP 3 to_event = Inr s" "lf_reach quiet SINGLE_LOOP 3 s"
    "at_event s" using event_run by blast
  moreover obtain s' where "free_worker s = Inr (Some 1, s')" using at_eventD [OF s(3)] ..
  moreover have "workers s \<noteq> []" using s(3) by (auto simp: at_event_def)
  ultimately show ?thesis using s(1) free_worker_is_idle [OF s(2)] by auto
qed

text \<open>
  C6: the hand-over. When \<^verbatim>\<open>ev_loop\<close> returned to the leader with events and \<^verbatim>\<open>free_worker\<close> finds
  a follower that was not told to terminate, two steps of the leader's thread and two of the
  follower's bring the follower into \<^verbatim>\<open>ev_loop\<close> as the new leader and owner of the loop, while the
  old leader is about to handle its events, all of them still queued.
\<close>

theorem handover_reaches_poll:
  assumes "lf_reach H SINGLE_LOOP n s" and "w < length (workers s)" and "wm_pc (workers s ! w) = Polled"
    and "wm_events_queue (workers s ! w) \<noteq> []"
    and "free_worker s = Inr (Some x, s1)" and "\<not> wm_term (workers s ! x)"
  shows "\<exists>s'. do_labels H [Thread w, Thread w, Thread x, Thread x] s = Inr s' \<and>
    wm_pc (workers s' ! x) = Polling \<and> wm_leader (workers s' ! x) \<and> userdata s' 0 = Some x \<and>
    wm_pc (workers s' ! w) = Handling \<and> \<not> wm_leader (workers s' ! w) \<and>
    wm_events_queue (workers s' ! w) = wm_events_queue (workers s ! w)"
proof -
  have inv: "lf_inv s" using assms(1) by (rule lf_reach_inv)
  have mode: "m_run_mode s = SINGLE_LOOP" using inv by (simp add: lf_inv_def)
  let ?s2 = "set_pc (Handing x) w (upd_worker w (\<lambda>k. k\<lparr>wm_leader := False\<rparr>) s1)"
  have inv2: "lf_inv ?s2" by (rule lf_inv_claim [OF inv assms(2,3,5)])
  obtain b where s1: "s1 = s\<lparr>dm_last_worker_id := x, dm_workers_busy := b\<rparr>"
    using assms(5) by (auto simp: free_worker_def split: if_splits option.splits)
  have st1: "advance H w s = Inr ?s2"
    using assms(2-5) mode by (simp add: advance_def worker_of_def promote_claim_def)
  have w2: "w < length (workers ?s2)" "handing (wm_pc (workers ?s2 ! w)) = Some x"
    using assms(2) by (simp_all add: set_pc_def s1)
  note ho = handing_owner [OF inv2 w2] and own = owner_registered [OF inv2 w2(1)]
  have x: "x < length (workers s)" "x \<noteq> w" "wm_pc (workers s ! x) = Waiting"
    using ho(3,4,6) assms(6) by (auto simp: set_pc_def s1 parked_def)
  have lp: "wm_loop (workers s ! w) = Some 0"
    using own(2) [OF ho(1)] assms(2) by (simp add: set_pc_def s1)
  define s3 where "s3 = set_pc Handling w (set_event_loop 0 x (upd_worker w (\<lambda>k. k\<lparr>wm_loop := None\<rparr>) ?s2))"
  have st2: "advance H w ?s2 = Inr s3"
    using lp x assms(2)
    by (simp add: s3_def advance_def worker_of_def promote_pass_def set_pc_def s1)
  have k3: "length (workers s3) = length (workers s)" "userdata s3 0 = Some x"
    "workers s3 ! w = (workers s ! w)\<lparr>wm_leader := False, wm_loop := None, wm_pc := Handling\<rparr>"
    "workers s3 ! x = (workers s ! x)\<lparr>wm_loop := Some 0, wm_leader := True\<rparr>"
    using x assms(2) by (simp_all add: s3_def set_pc_def set_event_loop_def s1)
  let ?s4 = "set_pc Running x s3"
  have st3: "advance H x s3 = Inr ?s4" and st4: "advance H x ?s4 = Inr (set_pc Polling x ?s4)"
    using k3 x assms(6) by (simp_all add: advance_def worker_of_def) (simp add: set_pc_def)
  have "do_labels H [Thread w, Thread w, Thread x, Thread x] s = Inr (set_pc Polling x ?s4)"
    by (simp add: st1 st2 st3 st4)
  then show ?thesis
    by (intro exI [of _ "set_pc Polling x ?s4"] conjI)
       (use k3 x assms(2) in \<open>simp_all add: set_pc_def\<close>)
qed

theorem handover_reaches_poll_witness:
  "\<exists>s s'. run_from_start quiet SINGLE_LOOP 3 to_event = Inr s \<and>
     do_labels quiet [Thread 0, Thread 0, Thread 1, Thread 1] s = Inr s' \<and>
     wm_pc (workers s' ! 1) = Polling \<and> wm_pc (workers s' ! 0) = Handling"
proof -
  obtain s where s: "run_from_start quiet SINGLE_LOOP 3 to_event = Inr s" "lf_reach quiet SINGLE_LOOP 3 s"
    "at_event s" using event_run by blast
  moreover obtain s1 where "free_worker s = Inr (Some 1, s1)" using at_eventD [OF s(3)] ..
  moreover have "0 < length (workers s)" "wm_events_queue (workers s ! 0) \<noteq> []"
    "wm_pc (workers s ! 0) = Polled" "\<not> wm_term (workers s ! 1)"
    using s(3) by (auto simp: at_event_def)
  ultimately show ?thesis
    using s(1) handover_reaches_poll [OF s(2), of 0 1 s1] by blast
qed

text \<open>Outside handlers every step of a worker succeeds where the invariant holds.\<close>

lemma advance_succeeds:
  assumes inv: "lf_inv s" and "w < length (workers s)"
    and "wm_pc (workers s ! w) = Handling \<longrightarrow> wm_events_queue (workers s ! w) = []"
  shows "\<exists>s'. advance H w s = Inr s'"
proof -
  note defs = advance_def worker_of_def assms(2)
  have B: "bitset_ok (dm_workers_busy s)" "m_bits (dm_workers_busy s) = length (workers s)"
    "m_run_mode s = SINGLE_LOOP" using inv by (auto simp: lf_inv_def)
  have mf: "\<exists>s'. mark_free w s = Inr s'"
    using bs.mark_law [OF B(1), of w] B assms(2) by (auto simp: mark_free_def add_free_worker_def)
  have fw: "\<exists>r s'. free_worker s = Inr (r, s')"
    using free_worker_cases [OF inv] assms(2) by fastforce
  show ?thesis
  proof (cases "wm_pc (workers s ! w)")
    case (Handing x)
    then have h: "handing (wm_pc (workers s ! w)) = Some x" by simp
    with handing_owner [OF inv assms(2) h] Handing show ?thesis
      by (auto simp: defs promote_pass_def)
  next
    case Handling
    with assms(3) show ?thesis by (simp add: defs handle_front_def)
  next
    case Polled
    from fw obtain r s1 where "free_worker s = Inr (r, s1)" by blast
    with Polled B(3) show ?thesis by (cases r) (auto simp: defs promote_claim_def)
  qed (use mf in \<open>auto simp: defs\<close>)
qed



end
