(* ===== verification/Task_Properties.thy ===== *)
theory Task_Properties
  imports Leader_Properties
begin

text \<open>
  Properties of the operations on event tasks: the closures run in a worker's context, the life of a
  task from its handler to its deletion, deferred disposal, the choice of a worker.
\<close>

section \<open>Closures in the leader's context\<close>

fun run_all :: "task_func list \<Rightarrow> loop \<Rightarrow> sys \<Rightarrow> sys result" where
  "run_all [] l s = Inr s"
| "run_all (f # fs) l s = rbind (run_func f l s) (run_all fs l)"

lemma run_queued_run_all:
  "\<lbrakk>lf_inv s; polls w s\<rbrakk> \<Longrightarrow> run_queued False w fs s = run_all fs 0 s"
proof (induction fs arbitrary: s)
  case (Cons f fs)
  note pf = polls_facts [OF Cons.prems]
  show ?case
  proof (cases "run_func f 0 s")
    case (Inl x)
    with pf Cons.prems(2) show ?thesis
      by (simp add: exec_in_worker_ctx_def worker_of_def polls_def rbind_def)
  next
    case (Inr s1)
    with lf_inv_run_func [OF Cons.prems Inr] Cons.IH pf Cons.prems(2) show ?thesis
      by (simp add: exec_in_worker_ctx_def worker_of_def polls_def rbind_def)
  qed
qed simp

lemma run_queued_ndebug: "run_queued True w fs s = Inr s"
  by (induction fs) auto

text \<open>
  C13: the async callback on the leader's thread takes all closures out of the signalled worker's
  queue. With assertions compiled in it runs every one of them, in the order they were queued, on the
  default loop; with \<^verbatim>\<open>NDEBUG\<close> it drops them all without running one.
\<close>

theorem async_callback_runs_closures:
  assumes "lf_reach H SINGLE_LOOP n s" and "polls w s" and "v < length (workers s)"
  shows "let s1 = upd_worker v (\<lambda>k. k\<lparr>wm_tfq := [], wm_async_sent := False\<rparr>) s
    in tasks_async_callback False 0 v s = run_all (wm_tfq (workers s ! v)) 0 s1 \<and>
       tasks_async_callback True 0 v s = Inr s1"
proof -
  have inv: "lf_inv s" using assms(1) by (rule lf_reach_inv)
  let ?s1 = "upd_worker v (\<lambda>k. k\<lparr>wm_tfq := [], wm_async_sent := False\<rparr>) s"
  have c: "ctl ?s1 = ctl s" by (simp add: ctl_upd_worker core_def)
  have "run_queued False w fs ?s1 = run_all fs 0 ?s1" for fs
    using run_queued_run_all lf_inv_ctl [OF c inv] polls_ctl [OF c assms(2)] by blast
  with polls_facts(3) [OF inv assms(2)] assms(3) show ?thesis
    by (simp add: tasks_async_callback_def worker_of_def run_queued_ndebug)
qed

definition to_added :: "label list" where
  "to_added = [Thread 0, Thread 1, Start, Thread 0, Thread 0, Add (io_task_base_new 1)]"

definition at_added :: "sys \<Rightarrow> bool" where
  "at_added s \<longleftrightarrow> length (workers s) = 2 \<and> wm_pc (workers s ! 0) = Polling \<and>
     wm_tfq (workers s ! 0) = [Start_io 0]"

lemma added_run:
  "\<exists>s. run_from_start quiet SINGLE_LOOP 2 to_added = Inr s \<and> lf_reach quiet SINGLE_LOOP 2 s \<and> at_added s"
  by (rule lf_reach_run) code_simp

theorem async_callback_runs_closures_witness:
  "\<exists>s s'. run_from_start quiet SINGLE_LOOP 2 to_added = Inr s \<and> wm_tfq (workers s ! 0) = [Start_io 0] \<and>
     tasks_async_callback True 0 0 s = Inr s' \<and> tasks s' = tasks s \<and> wm_tfq (workers s' ! 0) = []"
proof -
  obtain s where s: "run_from_start quiet SINGLE_LOOP 2 to_added = Inr s" "lf_reach quiet SINGLE_LOOP 2 s"
    "at_added s" using added_run by blast
  then have "polls 0 s" "0 < length (workers s)" by (auto simp: at_added_def polls_def)
  from async_callback_runs_closures [OF s(2) this] s show ?thesis
    by (auto simp: Let_def at_added_def)
qed

section \<open>The life of a task\<close>

fun finish_entry :: "wid option \<Rightarrow> callback \<Rightarrow> entry" where
  "finish_entry w (F_worker k) = Finish_cb k w"
| "finish_entry w (F_void k) = Finish_cb k None"

fun error_entry :: "wid option \<Rightarrow> tasks_exception \<Rightarrow> callback \<Rightarrow> entry" where
  "error_entry w x (F_worker k) = Error_cb k w x"
| "error_entry w x (F_void k) = Error_cb k None x"

lemma history_run_finish: "fold (run_finish_cb w) fs s = s\<lparr>history := history s @ map (finish_entry w) fs\<rparr>"
proof (induction fs arbitrary: s)
  case (Cons f fs)
  then show ?case by (cases f) (simp_all add: add_log_def)
qed simp

lemma history_run_error: "fold (run_error_cb w x) fs s = s\<lparr>history := history s @ map (error_entry w x) fs\<rparr>"
proof (induction fs arbitrary: s)
  case (Cons f fs)
  then show ?case by (cases f) (simp_all add: add_log_def)
qed simp

text \<open>On the leader's own thread closures run at once.\<close>

definition leads :: "wid \<Rightarrow> loop \<Rightarrow> sys \<Rightarrow> bool" where
  "leads w l s \<longleftrightarrow> w < length (workers s) \<and> wm_leader (workers s ! w) \<and> wm_loop (workers s ! w) = Some l"

lemma leads_simps [simp]:
  "leads w l (s\<lparr>tasks := T\<rparr>) = leads w l s" "leads w l (s\<lparr>history := h\<rparr>) = leads w l s"
  "leads w l (s\<lparr>tasks := T, next_tid := n\<rparr>) = leads w l s"
  by (simp_all add: leads_def)

lemma in_ctx_leads: "leads w l s \<Longrightarrow> in_ctx (Some w) w f s = run_func f l s"
  by (cases "run_func f l s") (simp_all add: leads_def in_ctx_def exec_in_worker_ctx_def worker_of_def rbind_def)

lemma get_worker_here:
  "\<lbrakk>tasks s t = Some e; em_worker e \<in> {None, Some w}; m_run_mode s = SINGLE_LOOP\<rbrakk>
   \<Longrightarrow> get_worker_by_task (Some w) t s = Inr (w, s)"
  by (auto simp: get_worker_by_task_def task_of_def rbind_def)

lemma dispose_here:
  assumes "tasks s t = Some e" "leads w l s"
  shows "io_dispose (Some w) w t s =
    Inr (delete_task t (s\<lparr>tasks := (tasks s)(t \<mapsto> e\<lparr>em_active := None\<rparr>)\<rparr>))"
proof -
  have "e\<lparr>em_active := None\<rparr> = e" if "em_active e = None" using that by (cases e) simp
  with assms show ?thesis
    by (auto simp: io_dispose_def in_ctx_leads ev_stop_def task_of_def upd_task_def rbind_def
        delete_task_def add_log_def)
qed

lemma remove_here:
  assumes "tasks s t = Some e" "em_kind e = Io_task" "em_can_dispose e" "leads w l s"
    "em_worker e \<in> {None, Some w}" "m_run_mode s = SINGLE_LOOP"
  shows "remove_event_task (Some w) t s =
    Inr (delete_task t (s\<lparr>tasks := (tasks s)(t \<mapsto> e\<lparr>em_active := None\<rparr>)\<rparr>))"
  using get_worker_here [OF assms(1,5,6)] dispose_here [OF assms(1,4)] assms(1-3)
  by (simp add: remove_event_task_def task_of_def is_disposable_def rbind_def)


text \<open>A system with one worker that leads, and one task.\<close>

definition one_leader :: "etask \<Rightarrow> sys" where
  "one_leader e = (dispatcher_new SINGLE_LOOP 1)\<lparr>dm_started := True, next_tid := 1,
     workers := [(worker_new 0 (Some 0))\<lparr>wm_pc := Handling\<rparr>],
     userdata := (\<lambda>l. if l = 0 then Some 0 else None), tasks := [0 \<mapsto> e]\<rparr>"




section \<open>The choice of a worker in multi loop mode\<close>

fun choose_all :: "tid list \<Rightarrow> sys \<Rightarrow> (wid list \<times> sys) result" where
  "choose_all [] s = Inr ([], s)"
| "choose_all (t # ts) s =
     rbind (get_worker_by_task None t s) (\<lambda>(w, s). rbind (choose_all ts s) (\<lambda>(ws, s). Inr (w # ws, s)))"

lemma choose_all_round_robin:
  assumes "m_run_mode s = MULTI_LOOP" "dm_num_workers s = n" "n \<noteq> 0" "length (workers s) = unat n"
    and "\<forall>t \<in> set ts. \<exists>e. tasks s t = Some e \<and> em_worker e = None"
    and "dm_rr_worker_id s = word_of_nat k"
  shows "\<exists>s'. choose_all ts s = Inr (map (\<lambda>i. (i mod 256) mod unat n) [k..<k + length ts], s')"
  using assms
proof (induction ts arbitrary: s k)
  case (Cons t ts)
  then obtain e where e: "tasks s t = Some e" "em_worker e = None" by auto
  let ?w = "(k mod 256) mod unat n" and ?s = "s\<lparr>dm_rr_worker_id := word_of_nat (Suc k)\<rparr>"
  have u: "unat (word_of_nat k :: 8 word) = k mod 256" by (simp add: unat_of_nat)
  have "0 < unat n" using Cons.prems(3) by (simp add: unat_gt_0)
  then have "?w < length (workers s)" using Cons.prems(4) by simp
  then have g: "get_worker_by_task None t s = Inr (?w, ?s)"
    using Cons.prems e by (simp add: get_worker_by_task_def task_of_def worker_of_def Let_def u add.commute)
  have "\<exists>s'. choose_all ts ?s = Inr (map (\<lambda>i. (i mod 256) mod unat n) [Suc k..<Suc k + length ts], s')"
    using Cons.prems by (intro Cons.IH) auto
  then show ?case by (auto simp: g upt_conv_Cons simp del: upt_Suc)
qed simp

text \<open>
  In multi loop mode tasks without a worker are spread round robin by an 8 bit counter: from a
  fresh dispatcher the \<open>k\<close>-th choice is worker \<open>(k mod 256) mod n\<close>, for any number of tasks; every
  choice is a worker that exists, and none fails.
\<close>

theorem round_robin_choice:
  assumes "n \<noteq> 0" and "length ws = unat n" and "\<forall>t \<in> set ts. \<exists>e. T t = Some e \<and> em_worker e = None"
  shows "\<exists>s'. choose_all ts ((dispatcher_new MULTI_LOOP n)\<lparr>workers := ws, tasks := T\<rparr>) =
      Inr (map (\<lambda>i. (i mod 256) mod unat n) [0..<length ts], s')
    \<and> (\<forall>i < length ts. (i mod 256) mod unat n < length ws)"
proof -
  have "0 < unat n" using assms(1) by (simp add: unat_gt_0)
  with assms choose_all_round_robin [of "(dispatcher_new MULTI_LOOP n)\<lparr>workers := ws, tasks := T\<rparr>" n ts 0]
  show ?thesis by (simp add: dispatcher_new_def)
qed

theorem round_robin_choice_witness:
  "\<exists>s'. choose_all [4, 4, 4] ((dispatcher_new MULTI_LOOP 2)\<lparr>workers := [worker_new 0 (Some 0), worker_new 1 (Some 1)],
     tasks := [4 \<mapsto> io_task_base_new 1]\<rparr>) = Inr ([0, 1, 0], s')"
  using round_robin_choice [of 2 "[worker_new 0 (Some 0), worker_new 1 (Some 1)]" "[4, 4, 4]"
      "[4 \<mapsto> io_task_base_new 1]"]
  by (auto simp: io_task_base_new_def event_task_new_def upt_rec)

end
