(* ===== verification/Multi_Loop.thy ===== *)
theory Multi_Loop
  imports Leader_Properties
begin

text \<open>
  The multi loop mode of the dispatcher: every worker has an event loop of its own, nobody is promoted,
  and a task stays with the worker it was assigned to. Two invariants of the steps \<open>lf_step\<close>: who owns
  which loop, and that everything queued for a task (events, closures, its armed watcher) is at the
  worker of the task.
\<close>

section \<open>Every worker its loop\<close>

definition ml_worker :: "wid \<Rightarrow> worker \<Rightarrow> bool" where
  "ml_worker w k \<longleftrightarrow> wm_loop k = Some w \<and> wm_leader k \<and> (\<forall>x. wm_pc k \<noteq> Handing x) \<and>
     (wm_events_queue k = [] \<or> wm_pc k \<in> {Polling, Polled, Handling})"

definition ml_inv :: "sys \<Rightarrow> bool" where
  "ml_inv s \<longleftrightarrow> m_run_mode s = MULTI_LOOP \<and> unat (dm_num_workers s) = length (workers s) \<and>
     (\<forall>w < length (workers s). ml_worker w (workers s ! w) \<and> userdata s w = Some w)"

lemma ml_invD:
  assumes "ml_inv s"
  shows "m_run_mode s = MULTI_LOOP"
    "w < length (workers s) \<Longrightarrow> wm_loop (workers s ! w) = Some w"
    "w < length (workers s) \<Longrightarrow> wm_leader (workers s ! w)"
    "w < length (workers s) \<Longrightarrow> userdata s w = Some w"
  using assms by (auto simp: ml_inv_def ml_worker_def)

lemma ml_worker_core: "core k' = core k \<Longrightarrow> ml_worker w k' = ml_worker w k"
  by (auto simp: ml_worker_def dest: core_eqD)

lemma ml_inv_ctl:
  assumes c: "ctl s' = ctl s" and "ml_inv s"
  shows "ml_inv s'"
proof -
  have "ml_worker w (workers s' ! w) = ml_worker w (workers s ! w)" if "w < length (workers s)" for w
    by (rule ml_worker_core [OF ctl_eqD(8) [OF c that]])
  with assms(2) show ?thesis by (simp add: ml_inv_def ctl_eqD(1-7) [OF c])
qed

lemma ml_inv_upd:
  "ml_inv s \<Longrightarrow> (w < length (workers s) \<Longrightarrow> ml_worker w (workers s ! w) \<Longrightarrow> ml_worker w (f (workers s ! w))) \<Longrightarrow>
   ml_inv (upd_worker w f s)"
  by (auto simp: ml_inv_def)

lemma ml_inv_add_event: "ml_inv s \<Longrightarrow> polls w s \<Longrightarrow> ml_inv (add_event e w s)"
  unfolding add_event_def by (rule ml_inv_upd) (auto simp: ml_worker_def polls_def)

lemma ml_inv_set_pc:
  "ml_inv s \<Longrightarrow> (\<And>x. p \<noteq> Handing x) \<Longrightarrow> (wm_events_queue (workers s ! w) = [] \<or> p \<in> {Polling, Polled, Handling}) \<Longrightarrow>
   ml_inv (set_pc p w s)"
  unfolding set_pc_def by (rule ml_inv_upd) (auto simp: ml_worker_def)

lemma ml_inv_advance:
  assumes inv: "ml_inv s" and adv: "advance H w s = Inr s'"
  shows "ml_inv s'"
proof -
  let ?k = "workers s ! w"
  have w: "w < length (workers s)" using adv by (auto simp: advance_def)
  have k: "ml_worker w ?k" "m_run_mode s = MULTI_LOOP" using inv w by (auto simp: ml_inv_def)
  have q: "wm_pc ?k \<notin> {Polling, Polled, Handling} \<Longrightarrow> wm_events_queue ?k = []" using k by (auto simp: ml_worker_def)
  have front: "ml_inv s'" if "handle_front H w s = Inr s'"
  proof (cases "wm_events_queue ?k")
    case Nil
    with that w inv show ?thesis by (auto simp: handle_front_def intro: ml_inv_set_pc)
  next
    case (Cons ev evs)
    let ?s = "upd_worker w (\<lambda>k. k\<lparr>wm_events_count := wm_events_count k + 1\<rparr>) s"
    from Cons that w obtain s1 where e: "exec_event_handler H (Some w) w ev ?s = Inr s1"
      and s': "s' = upd_worker w (\<lambda>k. k\<lparr>wm_events_queue := tl (wm_events_queue k)\<rparr>) s1"
      by (auto simp: handle_front_def)
    have "ctl s1 = ctl s" using ctl_exec_event_handler [OF e] by (simp add: ctl_upd_worker core_def)
    then have "ml_inv s1" using inv by (rule ml_inv_ctl)
    then show ?thesis unfolding s' by (rule ml_inv_upd) (auto simp: ml_worker_def)
  qed
  show ?thesis
    using adv w k q front inv
    by (cases "wm_pc ?k")
       (auto simp: advance_def mark_free_def promote_claim_def ml_worker_def split: if_splits intro!: ml_inv_set_pc)
qed

lemma ml_run_func:
  assumes "ml_inv s" "polls w s" "run_func f w s = Inr s'"
  shows "ml_inv s' \<and> polls w s'"
proof (cases "\<exists>e. f = Async_event e")
  case True
  have "userdata s w = Some w" using ml_invD(4) [OF assms(1)] assms(2) by (simp add: polls_def)
  with True assms obtain e where "s' = add_event e w s" by (auto simp: loop_worker_def)
  with ml_inv_add_event [OF assms(1,2)] polls_add_event [OF assms(2)] show ?thesis by simp
next
  case False
  with assms(3) have "ctl s' = ctl s" using ctl_run_func by blast
  with assms ml_inv_ctl polls_ctl show ?thesis by blast
qed

section \<open>Every task its worker\<close>

text \<open>Task \<open>t\<close> belongs to worker \<open>w\<close>, if it is not a disk task: those are not assigned.\<close>

definition owned :: "wid \<Rightarrow> tid \<Rightarrow> sys \<Rightarrow> bool" where
  "owned w t s \<longleftrightarrow> t < next_tid s \<and>
     (\<forall>e. tasks s t = Some e \<longrightarrow> em_kind e \<noteq> Disk_task \<longrightarrow> em_worker e = Some w)"

text \<open>What a closure in the queue of worker \<open>w\<close> may be.\<close>

fun closure_ok :: "wid \<Rightarrow> task_func \<Rightarrow> sys \<Rightarrow> bool" where
  "closure_ok w (Start_io t) s = owned w t s"
| "closure_ok w (Update_io t) s = owned w t s"
| "closure_ok w (Start_timer t) s = owned w t s"
| "closure_ok w (Add_net v t) s = (v = w \<and> t < next_tid s)"
| "closure_ok w (Async_event e) s = owned w (ev_task e) s"
| "closure_ok w (Send_response t) s = owned w t s"
| "closure_ok w f s = True"

definition armed_home :: "etask \<Rightarrow> bool" where
  "armed_home e \<longleftrightarrow> (\<forall>l. em_active e = Some l \<longrightarrow> em_kind e \<noteq> Disk_task \<longrightarrow> em_worker e = Some l)"

definition aff :: "sys \<Rightarrow> bool" where
  "aff s \<longleftrightarrow> (\<forall>t e. tasks s t = Some e \<longrightarrow> t < next_tid s \<and> armed_home e) \<and>
     (\<forall>w < length (workers s). (\<forall>ev \<in> set (wm_events_queue (workers s ! w)). owned w (ev_task ev) s) \<and>
        (\<forall>f \<in> set (wm_tfq (workers s ! w)). closure_ok w f s))"

text \<open>What steps do to tasks: none changes its class, or its worker once it has one.\<close>

definition grows :: "sys \<Rightarrow> sys \<Rightarrow> bool" where
  "grows s s' \<longleftrightarrow> next_tid s \<le> next_tid s' \<and>
     (\<forall>t e'. t < next_tid s \<longrightarrow> tasks s' t = Some e' \<longrightarrow>
        (\<exists>e. tasks s t = Some e \<and> em_kind e' = em_kind e \<and> (em_worker e \<noteq> None \<longrightarrow> em_worker e' = em_worker e)))"

lemma grows_refl [simp]: "grows s s"
  by (auto simp: grows_def)

lemma grows_trans: "grows s s1 \<Longrightarrow> grows s1 s2 \<Longrightarrow> grows s s2"
  unfolding grows_def by (metis (no_types, lifting) dual_order.trans order_less_le_trans)

lemma grows_same: "tasks s' = tasks s \<Longrightarrow> next_tid s' = next_tid s \<Longrightarrow> grows s s'"
  by (auto simp: grows_def)

lemma owned_grows: "owned w t s \<Longrightarrow> grows s s' \<Longrightarrow> owned w t s'"
  unfolding owned_def grows_def by (metis (no_types, lifting) option.distinct(1) order_less_le_trans)

lemma closure_grows: "closure_ok w f s \<Longrightarrow> grows s s' \<Longrightarrow> closure_ok w f s'"
  by (cases f) (auto intro: owned_grows simp: grows_def)

text \<open>An operation on a task system that keeps the second invariant.\<close>

definition keeps :: "sys \<Rightarrow> sys \<Rightarrow> bool" where
  "keeps s s' \<longleftrightarrow> aff s' \<and> grows s s'"

lemma keepsD: "keeps s s' \<Longrightarrow> aff s'" "keeps s s' \<Longrightarrow> grows s s'"
  by (simp_all add: keeps_def)

lemma keeps_refl: "aff s \<Longrightarrow> keeps s s"
  by (simp add: keeps_def)

lemma keeps_trans: "keeps s s1 \<Longrightarrow> keeps s1 s2 \<Longrightarrow> keeps s s2"
  by (auto simp: keeps_def intro: grows_trans)

lemma keeps_tasks:
  assumes "aff s" "grows s s'" "workers s' = workers s"
    and "\<And>t e. tasks s' t = Some e \<Longrightarrow> t < next_tid s' \<and> armed_home e"
  shows "keeps s s'"
  using assms owned_grows [OF _ assms(2)] closure_grows [OF _ assms(2)] by (auto simp: keeps_def aff_def)

lemma keeps_same: "aff s \<Longrightarrow> tasks s' = tasks s \<Longrightarrow> next_tid s' = next_tid s \<Longrightarrow> workers s' = workers s \<Longrightarrow> keeps s s'"
  by (rule keeps_tasks) (auto simp: grows_same aff_def)

lemma keeps_log [simp]: "aff s \<Longrightarrow> keeps s (add_log x s)"
  by (rule keeps_same) (simp_all add: add_log_def)

lemma keeps_upd_task:
  assumes "aff s" "upd_task t f s = Inr s'"
    and "\<And>e. tasks s t = Some e \<Longrightarrow> armed_home e \<Longrightarrow> em_kind (f e) = em_kind e \<and>
      (em_worker e \<noteq> None \<longrightarrow> em_worker (f e) = em_worker e) \<and> armed_home (f e)"
  shows "keeps s s'"
proof (rule keeps_tasks [OF assms(1)])
  from assms(2) obtain e where e: "tasks s t = Some e" "s' = s\<lparr>tasks := (tasks s)(t \<mapsto> f e)\<rparr>" by (auto simp: upd_task_def)
  have h: "t < next_tid s \<and> armed_home e" if "tasks s t = Some e" for t e using assms(1) that by (auto simp: aff_def)
  show "grows s s'" using assms(3) [OF e(1)] h [OF e(1)] e by (auto simp: grows_def)
  show "workers s' = workers s" using e by simp
  show "u < next_tid s' \<and> armed_home e'" if "tasks s' u = Some e'" for u e'
    using that e h assms(3) [OF e(1)] by (auto split: if_splits)
qed

lemma keeps_delete [simp]: "aff s \<Longrightarrow> keeps s (delete_task t s)"
  by (rule keeps_tasks) (auto simp: delete_task_def add_log_def grows_def aff_def split: if_splits)

lemma keeps_new: "aff s \<Longrightarrow> em_active e = None \<Longrightarrow> new_task e s = (t, s') \<Longrightarrow> keeps s s' \<and> t < next_tid s'"
  by (auto simp: new_task_def grows_def aff_def armed_home_def intro!: keeps_tasks split: if_splits) (meson less_SucI)

section \<open>The operations on tasks\<close>

lemma keeps_ev_start:
  assumes "aff s" "owned l t s" "ev_start t l s = Inr s'"
  shows "keeps s s'"
proof (cases "tasks s t")
  case (Some e)
  with assms show ?thesis
    by (auto simp: ev_start_def task_of_def owned_def armed_home_def intro: keeps_refl elim!: keeps_upd_task [rotated] split: if_splits)
qed (use assms in \<open>simp add: ev_start_def task_of_def\<close>)

lemma keeps_ev_stop: "aff s \<Longrightarrow> ev_stop t s = Inr s' \<Longrightarrow> keeps s s'"
  by (auto simp: ev_stop_def armed_home_def intro: keeps_refl elim!: keeps_upd_task [rotated] split: if_splits)

lemma keeps_init_watcher: "aff s \<Longrightarrow> init_watcher t s = Inr s' \<Longrightarrow> keeps s s'"
  by (auto simp: init_watcher_def armed_home_def intro: keeps_refl elim!: keeps_upd_task [rotated] split: if_splits)

lemma keeps_assign_worker:
  assumes "aff s" "m_run_mode s = MULTI_LOOP" "t < next_tid s" "assign_worker w t s = Inr s'"
  shows "keeps s s' \<and> owned w t s'"
proof -
  from assms(2,4) obtain e where e: "tasks s t = Some e" "em_worker e = None \<or> em_worker e = Some w"
    "s' = s\<lparr>tasks := (tasks s)(t \<mapsto> (if em_worker e = None then e\<lparr>em_worker := Some w\<rparr> else e))\<rparr>"
    by (auto simp: assign_worker_def Let_def split: if_splits)
  then have u: "upd_task t (\<lambda>e. if em_worker e = None then e\<lparr>em_worker := Some w\<rparr> else e) s = Inr s'"
    by (simp add: upd_task_def task_of_def)
  have "keeps s s'" by (rule keeps_upd_task [OF assms(1) u]) (auto simp: armed_home_def)
  moreover have "owned w t s'" using e assms(3) by (auto simp: owned_def)
  ultimately show ?thesis by blast
qed

lemma keeps_set_events: "aff s \<Longrightarrow> set_events n t s = Inr s' \<Longrightarrow> keeps s s'"
  by (auto simp: set_events_def armed_home_def elim!: keeps_upd_task [rotated])

lemma keeps_update_io:
  assumes "aff s" "owned w t s" "update_io t w s = Inr s'"
  shows "keeps s s'"
  using assms(2,3) by (auto simp: owned_def armed_home_def elim!: keeps_upd_task [OF assms(1)])

lemma keeps_run_func:
  assumes "aff s" "ml_inv s" "w < length (workers s)" "closure_ok w f s" "run_func f w s = Inr s'"
  shows "keeps s s'"
proof (cases f)
  case (Update_io t)
  with assms(4,5) show ?thesis by (simp add: keeps_update_io [OF assms(1)] del: update_io_def)
next
  case (Send_response t)
  with assms(5) obtain s1 where s1: "set_events EV_WRITE t s = Inr s1"
    "s' = s1 \<or> (\<exists>s2. update_io t w s1 = Inr s2 \<and> upd_task t (\<lambda>e. e\<lparr>em_change_pending := False\<rparr>) s2 = Inr s')"
    by (auto simp del: update_io_def split: if_splits)
  have k: "keeps s s1" by (rule keeps_set_events [OF assms(1) s1(1)])
  moreover have "owned w t s1" using assms(4) Send_response owned_grows [OF _ keepsD(2) [OF k]] by simp
  ultimately have "keeps s s2" if "update_io t w s1 = Inr s2" for s2
    using keeps_update_io [OF keepsD(1)] that by (blast intro: keeps_trans)
  moreover have "keeps s2 s'" if "aff s2" "upd_task t (\<lambda>e. e\<lparr>em_change_pending := False\<rparr>) s2 = Inr s'" for s2
    by (rule keeps_upd_task [OF that]) (auto simp: armed_home_def)
  ultimately show ?thesis using k s1(2) by (blast intro: keeps_trans keepsD)
next
  case (Dispose_io t)
  with assms(5) obtain s1 where "ev_stop t s = Inr s1" "s' = delete_task t s1" by auto
  with keeps_ev_stop [OF assms(1)] show ?thesis by (blast intro: keeps_trans keeps_delete keepsD(1))
next
  case (Add_net v t)
  with assms(4,5) obtain s1 s2 where s1: "init_watcher t s = Inr s1" and s2: "assign_worker w t s1 = Inr s2"
    and s3: "ev_start t w s2 = Inr s'" and t: "t < next_tid s" by auto
  have k1: "keeps s s1" by (rule keeps_init_watcher [OF assms(1) s1])
  have "m_run_mode s1 = MULTI_LOOP" "t < next_tid s1"
    using ctl_eqD(1) [OF ctl_init_watcher [OF s1]] ml_invD(1) [OF assms(2)] keepsD(2) [OF k1] t by (auto simp: grows_def)
  with keeps_assign_worker [OF keepsD(1) [OF k1] _ _ s2] have k2: "keeps s1 s2" "owned w t s2" by blast+
  with keeps_ev_start [OF keepsD(1) k2(2) s3] k1 show ?thesis by (blast intro: keeps_trans)
next
  case (Async_event e)
  with assms(2,3,5) have s': "s' = add_event e w s" using ml_invD(4) [OF assms(2,3)] by (auto simp: loop_worker_def)
  have g: "grows s s'" unfolding s' by (rule grows_same) (simp_all add: add_event_def)
  have "aff s'" using assms(1,3,4) Async_event owned_grows [OF _ g] closure_grows [OF _ g] unfolding s'
    by (auto simp: aff_def add_event_def nth_list_update)
  with g show ?thesis by (simp add: keeps_def)
qed (use assms in \<open>auto intro: keeps_ev_start keeps_ev_stop\<close>)

lemma keeps_async_call:
  assumes "aff s" "closure_ok w f s" "async_call w f s = Inr s'"
  shows "keeps s s'"
proof -
  have w: "w < length (workers s)" using assms(3) by (auto simp: async_call_def)
  from assms(3) have s': "s' = upd_worker w (\<lambda>k. k\<lparr>wm_async_sent := True\<rparr>) (upd_worker w (\<lambda>k. k\<lparr>wm_tfq := wm_tfq k @ [f]\<rparr>) s)"
    by (auto simp: async_call_def Let_def)
  have g: "grows s s'" unfolding s' by (rule grows_same) simp_all
  have "aff s'" using assms(1,2) w owned_grows [OF _ g] closure_grows [OF _ g] unfolding s'
    by (auto simp: aff_def)
  with g show ?thesis by (simp add: keeps_def)
qed

lemma keeps_in_ctx:
  assumes "aff s" "ml_inv s" "closure_ok w f s" "in_ctx cur w f s = Inr s'"
  shows "keeps s s'"
proof -
  have w: "w < length (workers s)" using assms(4) by (auto simp: in_ctx_def exec_in_worker_ctx_def)
  from assms(4) ml_invD(2,3) [OF assms(2) w] have "run_func f w s = Inr s' \<or> async_call w f s = Inr s'"
    by (auto simp: in_ctx_def exec_in_worker_ctx_def split: if_splits)
  with keeps_run_func [OF assms(1,2) w assms(3)] keeps_async_call [OF assms(1,3)] show ?thesis by blast
qed

text \<open>Both invariants, and operations that keep them.\<close>

definition good :: "sys \<Rightarrow> bool" where
  "good s \<longleftrightarrow> ml_inv s \<and> aff s"

definition goes :: "sys \<Rightarrow> sys \<Rightarrow> bool" where
  "goes s s' \<longleftrightarrow> good s' \<and> grows s s'"

lemma goesI: "good s \<Longrightarrow> ctl s' = ctl s \<Longrightarrow> keeps s s' \<Longrightarrow> goes s s'"
  by (auto simp: good_def goes_def keeps_def intro: ml_inv_ctl)

lemma goes_refl: "good s \<Longrightarrow> goes s s"
  by (simp add: goes_def)

lemma goes_trans [trans]: "goes s s1 \<Longrightarrow> goes s1 s2 \<Longrightarrow> goes s s2"
  by (auto simp: goes_def intro: grows_trans)

lemma goes_good: "goes s s' \<Longrightarrow> good s'"
  by (simp add: goes_def)

lemma goes_owned: "goes s s' \<Longrightarrow> owned w t s \<Longrightarrow> owned w t s'"
  by (auto simp: goes_def intro: owned_grows)

lemma goes_upd_task:
  assumes "good s" "upd_task t f s = Inr s'"
    and "\<And>e. em_kind (f e) = em_kind e \<and> em_worker (f e) = em_worker e \<and> em_active (f e) = em_active e"
  shows "goes s s'"
  using assms(1) ctl_upd_task [OF assms(2)]
  by (rule goesI) (use assms in \<open>auto simp: good_def armed_home_def intro: keeps_upd_task\<close>)

lemma goes_log [simp]: "good s \<Longrightarrow> goes s (add_log x s)"
  by (rule goesI) (simp_all add: good_def)

lemma goes_in_ctx:
  assumes "good s" "closure_ok w f s" "\<And>e. f \<noteq> Async_event e" "in_ctx cur w f s = Inr s'"
  shows "goes s s'"
  using assms(1) ctl_in_ctx [OF assms(4,3)] keeps_in_ctx [of s w f cur s'] assms by (intro goesI) (auto simp: good_def)

lemma goes_start_armed: "good s \<Longrightarrow> owned w t s \<Longrightarrow> start_armed cur w t s = Inr s' \<Longrightarrow> goes s s'"
  by (clarsimp simp: start_armed_def)
     (auto simp: io_start_watcher_def intro: goes_refl elim: goes_in_ctx [rotated 3] split: task_kind.splits)

lemma goes_stop_watcher: "good s \<Longrightarrow> stop_watcher cur w t s = Inr s' \<Longrightarrow> goes s s'"
  by (clarsimp simp: stop_watcher_def)
     (auto simp: io_stop_watcher_def intro: goes_refl elim: goes_in_ctx [rotated 3] split: task_kind.splits)

lemma goes_update_watcher:
  assumes "good s" "owned w t s" "update_watcher cur w t s = Inr s'"
  shows "goes s s'"
proof -
  from assms(3) consider "s' = s" | s1 where "in_ctx cur w (Update_io t) s = Inr s1"
    "upd_task t (\<lambda>e. e\<lparr>em_change_pending := False\<rparr>) s1 = Inr s'"
    by (auto simp: update_watcher_def split: if_splits)
  then show ?thesis
  proof cases
    case 2
    have "goes s s1" by (rule goes_in_ctx [OF assms(1) _ _ 2(1)]) (simp_all add: assms(2))
    moreover from this have "goes s1 s'" by (rule goes_upd_task [OF goes_good 2(2)]) simp
    ultimately show ?thesis by (rule goes_trans)
  qed (use assms(1) in \<open>simp add: goes_refl\<close>)
qed

lemma goes_io_dispose: "good s \<Longrightarrow> io_dispose cur w t s = Inr s' \<Longrightarrow> goes s s'"
  by (auto simp: io_dispose_def elim: goes_in_ctx [rotated 3])

lemma goes_get_worker: "good s \<Longrightarrow> get_worker_by_task cur t s = Inr (w, s') \<Longrightarrow> goes s s'"
  by (rule goesI, assumption, erule ctl_get_worker)
     (auto simp: get_worker_by_task_def good_def Let_def intro: keeps_same keeps_refl split: option.splits mode.splits if_splits)

lemma goes_new:
  "good s \<Longrightarrow> em_active e = None \<Longrightarrow> new_task e s = (t, s') \<Longrightarrow> goes s s' \<and> t < next_tid s'"
  using keeps_new [of s e t s'] ctl_new_task [of e s t s'] goesI [of s s'] by (auto simp: good_def)

text \<open>Setting up a new task of a worker: the watcher, the assignment, and then it belongs to it.\<close>

lemma goes_assign:
  assumes "good s" "t < next_tid s" "init_watcher t s = Inr s1" "assign_worker w t s1 = Inr s2"
  shows "goes s s2 \<and> owned w t s2"
proof -
  have k: "keeps s s1" using assms(1,3) by (auto simp: good_def intro: keeps_init_watcher)
  with assms(1) have g1: "goes s s1" by (intro goesI ctl_init_watcher [OF assms(3)])
  then have "m_run_mode s1 = MULTI_LOOP" "t < next_tid s1"
    using assms(2) by (auto simp: goes_def good_def ml_inv_def grows_def)
  with keeps_assign_worker [OF keepsD(1) [OF k] _ _ assms(4)] have "keeps s1 s2" "owned w t s2" by blast+
  moreover from this have "goes s1 s2" by (intro goesI goes_good [OF g1] ctl_assign_worker [OF assms(4)])
  ultimately show ?thesis using g1 by (blast intro: goes_trans)
qed

lemma goes_dispose_later:
  assumes "good s" "dispose_later cur w t s = Inr s'"
  shows "goes s s'"
proof -
  obtain c s1 where n: "new_task (cleanup_task_new t) s = (c, s1)" by fastforce
  with assms(2) obtain s2 s3 where s2: "init_watcher c s1 = Inr s2" "assign_worker w c s2 = Inr s3" "start_armed cur w c s3 = Inr s'"
    by (auto simp: dispose_later_def)
  have "goes s s1 \<and> c < next_tid s1"
    using assms(1) n by (intro goes_new) (simp_all add: cleanup_task_new_def timer_task_new_def event_task_new_def)
  moreover from this have "goes s1 s3 \<and> owned w c s3" using goes_assign [OF goes_good _ s2(1,2)] by blast
  moreover from this have "goes s3 s'" using goes_start_armed [OF goes_good _ s2(3)] by blast
  ultimately show ?thesis by (blast intro: goes_trans)
qed

lemma goes_fold: "(\<And>x s. good s \<Longrightarrow> goes s (f x s)) \<Longrightarrow> good s \<Longrightarrow> goes s (fold f xs s)"
proof (induction xs arbitrary: s)
  case (Cons x xs)
  have "goes s (f x s)" using Cons.prems by simp
  with Cons.IH [OF Cons.prems(1) goes_good [OF this]] show ?case by (simp add: goes_trans)
qed (simp add: goes_refl)

lemma goes_cbs [simp]:
  "good s \<Longrightarrow> goes s (fold (run_finish_cb w) fs s)" "good s \<Longrightarrow> goes s (fold (run_error_cb w x) fs s)"
proof -
  have "good s \<Longrightarrow> goes s (run_finish_cb w f s)" "good s \<Longrightarrow> goes s (run_error_cb w x f s)" for f s
    by (cases f; simp)+
  then show "good s \<Longrightarrow> goes s (fold (run_finish_cb w) fs s)" "good s \<Longrightarrow> goes s (fold (run_error_cb w x) fs s)"
    by (auto intro: goes_fold)
qed

lemma goes_remove:
  assumes "good s" "remove_event_task cur t s = Inr s'"
  shows "goes s s'"
proof -
  have d: "goes s (delete_task t s)" by (rule goesI) (use assms(1) in \<open>simp_all add: good_def\<close>)
  have "goes s s'" if "get_worker_by_task cur t s = Inr (w, s1)"
    "io_dispose cur w t s1 = Inr s' \<or> dispose_later cur w t s1 = Inr s'" for w s1
    using goes_get_worker [OF assms(1) that(1)] that(2) goes_io_dispose goes_dispose_later
    by (blast intro: goes_trans goes_good)
  with assms(2) d show ?thesis by (auto simp: remove_event_task_def split: if_splits)
qed

lemma goes_task_finish:
  assumes "good s" "task_finish cur w t s = Inr s'"
  shows "goes s s'"
proof -
  from assms(2) obtain fs where "remove_event_task cur t (fold (run_finish_cb w) fs s) = Inr s'" by (auto simp: task_finish_def)
  with goes_cbs(1) [OF assms(1)] goes_remove show ?thesis by (blast intro: goes_trans goes_good)
qed

lemma goes_notify: "good s \<Longrightarrow> notify_error w t s = Inr s' \<Longrightarrow> goes s s'"
  by (auto simp: notify_error_def)

text \<open>Whichever thread ends a response, the closure goes to the worker of the task.\<close>

lemma goes_finish_response:
  assumes "good s" "owned w t s" "finish_response cur t s = Inr s'"
  shows "goes s s'"
proof -
  from assms(3) obtain s1 where u: "upd_task t enable_dispose s1 = Inr s'"
    and s1: "s1 = s \<or> (\<exists>v s0. get_worker_by_task cur t s = Inr (v, s0) \<and> in_ctx cur v (Send_response t) s0 = Inr s1)"
    by (auto simp: finish_response_def split: if_splits)
  have "goes s s1" if v: "get_worker_by_task cur t s = Inr (v, s0)" "in_ctx cur v (Send_response t) s0 = Inr s1" for v s0
  proof -
    have g: "goes s s0" by (rule goes_get_worker [OF assms(1) v(1)])
    obtain e where e: "tasks s t = Some e" using v(1) by (auto simp: get_worker_by_task_def)
    have "owned v t s0"
    proof (cases "em_worker e")
      case None
      moreover from this e v(1) have "tasks s0 = tasks s"
        by (auto simp: get_worker_by_task_def Let_def split: option.splits mode.splits if_splits)
      ultimately show ?thesis using e assms(2) goes_owned [OF g assms(2)] by (auto simp: owned_def)
    next
      case (Some u)
      with e v(1) have "v = u" "s0 = s" by (auto simp: get_worker_by_task_def)
      with Some e assms(2) show ?thesis by (auto simp: owned_def)
    qed
    then have "goes s0 s1" by (intro goes_in_ctx [OF goes_good [OF g] _ _ v(2)]) simp_all
    with g show ?thesis by (rule goes_trans)
  qed
  with s1 have g: "goes s s1" by (auto intro: goes_refl assms(1))
  moreover have "goes s1 s'" by (rule goes_upd_task [OF goes_good [OF g] u]) (simp add: enable_dispose_def)
  ultimately show ?thesis by (rule goes_trans)
qed

lemma goes_perform:
  assumes "good s" "owned w t s" "perform cur w t a s = Inr s'"
  shows "goes s s'"
proof (cases a)
  case (Spawn fd events)
  let ?e = "net_io_task_new fd events"
  obtain c s1 where n: "new_task ?e s = (c, s1)" by fastforce
  have "goes s s1 \<and> c < next_tid s1"
    using assms(1) n by (intro goes_new) (simp_all add: net_io_task_new_def io_task_base_new_def event_task_new_def Let_def)
  moreover from this have "goes s1 s'"
    using assms(3) Spawn n goes_good by (auto simp: net_add_task_def elim!: goes_in_ctx [rotated 3])
  ultimately show ?thesis by (blast intro: goes_trans)
next
  case Update_watcher
  with assms show ?thesis by (auto intro: goes_update_watcher)
next
  case Finish_response
  with assms show ?thesis by (auto intro: goes_finish_response)
next
  case (Set_events n)
  with assms(1,3) show ?thesis by (auto simp: set_events_def elim!: goes_upd_task [rotated])
qed (use assms(1,3) in \<open>auto simp: set_exception_def disable_dispose_def enable_dispose_def disable_auto_delete_def
      on_finish_def on_error_def elim!: goes_upd_task [rotated]\<close>)

lemma goes_perform_all: "good s \<Longrightarrow> owned w t s \<Longrightarrow> perform_all cur w t as s = Inr s' \<Longrightarrow> goes s s'"
proof (induction as arbitrary: s)
  case (Cons a as)
  from Cons.prems(3) obtain s1 where s1: "perform cur w t a s = Inr s1" "perform_all cur w t as s1 = Inr s'" by auto
  have g: "goes s s1" by (rule goes_perform [OF Cons.prems(1,2) s1(1)])
  with Cons.IH [OF goes_good [OF g] goes_owned [OF g Cons.prems(2)] s1(2)] show ?case by (blast intro: goes_trans)
qed (simp add: goes_refl)

lemma goes_handle_event:
  assumes "good s" "owned w t s" "handle_event H cur w t r s = Inr (c, s')"
  shows "goes s s'"
proof -
  let ?s = "add_log (Handled w t r) s"
  have g: "goes s ?s" using assms(1) by simp
  have cl: "goes ?s s'" if "cleanup_handle_event cur w d ?s = Inr (c, s')" for d
    using that goes_io_dispose [OF goes_good [OF g]] goes_refl [OF goes_good [OF g]]
    by (auto simp: cleanup_handle_event_def split: if_splits)
  have pf: "goes ?s s'" if "perform_all cur w t as ?s = Inr s'" for as
    by (rule goes_perform_all [OF goes_good [OF g] goes_owned [OF g assms(2)] that])
  from assms(3) cl pf goes_refl [OF goes_good [OF g]] have "goes ?s s'"
    by (clarsimp simp: handle_event_def Let_def) (auto split: task_kind.splits prod.splits)
  with g show ?thesis by (rule goes_trans)
qed

lemma goes_exec_handler:
  assumes start: "\<And>s s'. good s \<Longrightarrow> owned w (ev_task ev) s \<Longrightarrow> start cur w (ev_task ev) s = Inr s' \<Longrightarrow> goes s s'"
    and "good s" "owned w (ev_task ev) s" "exec_handler start H cur w ev s = Inr s'"
  shows "goes s s'"
proof -
  let ?t = "ev_task ev"
  obtain c s1 s2 and e :: etask where s1: "handle_event H cur w ?t (ev_revents ev) s = Inr (c, s1)"
    and s2: "(if error e then notify_error (Some w) ?t s1 else Inr s1) = Inr s2"
    and s': "(if c then rbind (upd_task ?t reset_error s2) (start cur w ?t)
      else if em_auto_delete e then task_finish cur (Some w) ?t s2 else Inr s2) = Inr s'"
    using assms(4) unfolding exec_handler_def rbind_Inr split_paired_Ex prod.case by blast
  have g1: "goes s s1" by (rule goes_handle_event [OF assms(2,3) s1])
  then have g2: "goes s s2" using s2 goes_notify [OF goes_good [OF g1]] by (auto split: if_splits intro: goes_trans)
  have "goes s2 s'"
  proof (cases c)
    case True
    with s' obtain s3 where s3: "upd_task ?t reset_error s2 = Inr s3" "start cur w ?t s3 = Inr s'" by auto
    have g3: "goes s2 s3" by (rule goes_upd_task [OF goes_good [OF g2] s3(1)]) (simp add: reset_error_def)
    with start [OF goes_good [OF g3] goes_owned [OF goes_trans [OF g2 g3] assms(3)] s3(2)] show ?thesis
      by (blast intro: goes_trans)
  qed (use s' goes_task_finish [OF goes_good [OF g2]] goes_refl [OF goes_good [OF g2]] in \<open>auto split: if_splits\<close>)
  with g2 show ?thesis by (rule goes_trans)
qed

lemma goes_start_watcher:
  assumes "good s" "owned w t s" "start_watcher H cur w t s = Inr s'"
  shows "goes s s'"
proof -
  from assms(3) consider "start_armed cur w t s = Inr s'" | s1 where "upd_task t (\<lambda>e. e\<lparr>em_immediate := False\<rparr>) s = Inr s1"
    "exec_handler start_armed H cur w \<lparr>ev_task = t, ev_revents = 0\<rparr> s1 = Inr s'"
    by (auto simp: start_watcher_def split: if_splits)
  then show ?thesis
  proof cases
    case 1
    then show ?thesis by (rule goes_start_armed [OF assms(1,2)])
  next
    case 2
    have g: "goes s s1" by (rule goes_upd_task [OF assms(1) 2(1)]) simp
    have "goes s1 s'"
      by (rule goes_exec_handler [OF _ goes_good [OF g] _ 2(2)]) (use goes_owned [OF g assms(2)] goes_start_armed in auto)
    with g show ?thesis by (rule goes_trans)
  qed
qed

lemma goes_exec_event_handler:
  "good s \<Longrightarrow> owned w (ev_task ev) s \<Longrightarrow> exec_event_handler H cur w ev s = Inr s' \<Longrightarrow> goes s s'"
  unfolding exec_event_handler_def by (rule goes_exec_handler [OF goes_start_watcher])

lemma goes_add_task:
  assumes "good s" "t < next_tid s" "add_task H cur t s = Inr s'"
  shows "goes s s'"
proof -
  from assms(3) obtain w s1 s2 s3 where s1: "get_worker_by_task cur t s = Inr (w, s1)" "init_watcher t s1 = Inr s2"
    "assign_worker w t s2 = Inr s3" "start_watcher H cur w t s3 = Inr s'"
    by (auto simp: add_task_def add_event_task_def)
  have g1: "goes s s1" by (rule goes_get_worker [OF assms(1) s1(1)])
  then have "t < next_tid s1" using assms(2) by (auto simp: goes_def grows_def)
  from goes_assign [OF goes_good [OF g1] this s1(2,3)] have g3: "goes s1 s3" "owned w t s3" by blast+
  from goes_start_watcher [OF goes_good [OF g3(1)] g3(2) s1(4)] g1 g3(1) show ?thesis by (blast intro: goes_trans)
qed

section \<open>The steps\<close>

lemma aff_upd_worker:
  assumes "aff s" "set (wm_events_queue (f (workers s ! w))) \<subseteq> set (wm_events_queue (workers s ! w))"
    "set (wm_tfq (f (workers s ! w))) \<subseteq> set (wm_tfq (workers s ! w))"
  shows "aff (upd_worker w f s)"
proof -
  have "grows s (upd_worker w f s)" by (rule grows_same) simp_all
  note m = owned_grows [OF _ this] closure_grows [OF _ this]
  show ?thesis using assms m unfolding aff_def by (auto simp: subset_iff)
qed

lemma aff_set_pc: "aff s \<Longrightarrow> aff (set_pc p w s)"
  unfolding set_pc_def by (rule aff_upd_worker) simp_all

lemma aff_add_event:
  assumes "aff s" "owned w (ev_task ev) s"
  shows "aff (add_event ev w s)"
proof -
  have "grows s (add_event ev w s)" by (rule grows_same) (simp_all add: add_event_def)
  note m = owned_grows [OF _ this] closure_grows [OF _ this]
  show ?thesis using assms m by (auto simp: aff_def add_event_def)
qed

lemma good_advance:
  assumes "good s" "advance H w s = Inr s'"
  shows "good s'"
proof -
  let ?k = "workers s ! w"
  have inv: "ml_inv s" "aff s" using assms(1) by (simp_all add: good_def)
  have w: "w < length (workers s)" using assms(2) by (auto simp: advance_def)
  have front: "aff s'" if "handle_front H w s = Inr s'"
  proof (cases "wm_events_queue ?k")
    case Nil
    with that w inv(2) show ?thesis by (auto simp: handle_front_def intro: aff_set_pc)
  next
    case (Cons ev evs)
    let ?s = "upd_worker w (\<lambda>k. k\<lparr>wm_events_count := wm_events_count k + 1\<rparr>) s"
    from Cons that w obtain s1 where e: "exec_event_handler H (Some w) w ev ?s = Inr s1"
      and s': "s' = upd_worker w (\<lambda>k. k\<lparr>wm_events_queue := tl (wm_events_queue k)\<rparr>) s1"
      by (auto simp: handle_front_def)
    have "aff ?s" by (rule aff_upd_worker [OF inv(2)]) simp_all
    moreover have "ml_inv ?s" by (rule ml_inv_ctl [OF _ inv(1)]) (simp add: ctl_upd_worker core_def)
    moreover have "owned w (ev_task ev) ?s" using inv(2) w Cons by (auto simp: aff_def owned_def)
    ultimately have "aff s1" using goes_exec_event_handler [OF _ _ e] by (auto simp: good_def goes_def)
    moreover have "set (tl q) \<subseteq> set q" for q :: "event list" by (cases q) auto
    ultimately show ?thesis unfolding s' by (intro aff_upd_worker) simp_all
  qed
  have "aff s'"
    using assms(2) w front inv ml_invD(1) [OF inv(1)]
    by (cases "wm_pc ?k") (auto simp: advance_def mark_free_def promote_claim_def ml_inv_def ml_worker_def
        split: if_splits intro: aff_set_pc)
  with ml_inv_advance [OF inv(1) assms(2)] show ?thesis by (simp add: good_def)
qed

lemma good_run_queued:
  "\<lbrakk>good s; polls w s; \<forall>f \<in> set fs. closure_ok w f s; run_queued False w fs s = Inr s'\<rbrakk> \<Longrightarrow> good s'"
proof (induction fs arbitrary: s)
  case (Cons f fs)
  have w: "w < length (workers s)" using Cons.prems(2) by (simp add: polls_def)
  have inv: "ml_inv s" "aff s" using Cons.prems(1) by (simp_all add: good_def)
  from Cons.prems(4) ml_invD(2,3) [OF inv(1) w] w obtain s1 where s1: "run_func f w s = Inr s1" "run_queued False w fs s1 = Inr s'"
    by (auto simp: exec_in_worker_ctx_def)
  have k: "keeps s s1" by (rule keeps_run_func [OF inv(2,1) w _ s1(1)]) (use Cons.prems(3) in simp)
  have m: "ml_inv s1 \<and> polls w s1" by (rule ml_run_func [OF inv(1) Cons.prems(2) s1(1)])
  show ?case
    by (rule Cons.IH [OF _ _ _ s1(2)])
       (use k m Cons.prems(3) closure_grows in \<open>auto simp: good_def keeps_def\<close>)
qed simp

lemma good_step:
  assumes "good s" "lf_step H s s'"
  shows "good s'"
  using assms(2)
proof cases
  case (thread w)
  with good_advance [OF assms(1)] show ?thesis by blast
next
  case (fire w l t e r)
  have l: "l = w" "userdata s w = Some w" using ml_invD(2,4) [of s w] assms(1) fire by (auto simp: good_def)
  with fire obtain s1 where s1: "stop_watcher (Some w) w t s = Inr s1" "s' = add_event \<lparr>ev_task = t, ev_revents = r\<rparr> w s1"
    by (auto simp: tasks_event_callback_def)
  have g: "goes s s1" by (rule goes_stop_watcher [OF assms(1) s1(1)])
  have "owned w t s" using assms(1) fire(4,5) l by (auto simp: good_def aff_def armed_home_def owned_def)
  with g have "aff s'" unfolding s1(2) by (intro aff_add_event) (auto simp: goes_def good_def intro: owned_grows)
  moreover have "polls w s1" using fire polls_ctl [OF ctl_stop_watcher [OF s1(1)], of w] by (simp add: polls_def)
  with g have "ml_inv s'" unfolding s1(2) by (auto simp: goes_def good_def intro: ml_inv_add_event)
  ultimately show ?thesis by (simp add: good_def)
next
  case (async w l v)
  let ?s1 = "upd_worker w (\<lambda>k. k\<lparr>wm_tfq := [], wm_async_sent := False\<rparr>) s"
  have l: "l = w" "v = w" "userdata s w = Some w"
    using ml_invD(1,2,4) [of s] assms(1) async by (auto simp: good_def)
  have c: "ctl ?s1 = ctl s" by (simp add: ctl_upd_worker core_def)
  have "aff ?s1" using assms(1) by (intro aff_upd_worker) (simp_all add: good_def)
  then have g: "good ?s1" using assms(1) ml_inv_ctl [OF c] by (simp add: good_def)
  have "\<forall>f \<in> set (wm_tfq (workers s ! w)). closure_ok w f s" using assms(1) async(1) by (simp add: good_def aff_def)
  then have "\<forall>f \<in> set (wm_tfq (workers s ! w)). closure_ok w f ?s1"
    using closure_grows [OF _ grows_same [of ?s1 s]] by simp
  moreover have "run_queued False w (wm_tfq (workers s ! w)) ?s1 = Inr s'"
    using async l by (auto simp: tasks_async_callback_def)
  moreover have "polls w ?s1" using async by (simp add: polls_def)
  ultimately show ?thesis using good_run_queued [OF g] by blast
next
  case (poll_return w)
  then show ?thesis using assms(1) by (auto simp: good_def intro: ml_inv_set_pc aff_set_pc)
next
  case start
  then have s': "s' = s\<lparr>dm_started := True\<rparr>" using assms(1) ml_invD(1) [of s] by (auto simp: good_def start_promote_def)
  have "aff s'" unfolding s' by (rule keepsD(1) [OF keeps_same]) (use assms(1) in \<open>simp_all add: good_def\<close>)
  then show ?thesis using assms(1) by (simp add: good_def s' ml_inv_def)
next
  case (add e t s1)
  from goes_new [OF assms(1) add(2,1)] have "goes s s1" "t < next_tid s1" by blast+
  with goes_add_task [OF goes_good _ add(3)] show ?thesis by (blast intro: goes_good)
next
  case (post ev e)
  have "closure_ok (last_worker s) (Async_event ev) s" using post(1,2) assms(1) by (auto simp: owned_def good_def aff_def)
  with post(3) assms(1) keeps_async_call [of s "last_worker s" "Async_event ev" s'] ctl_async_call [of "last_worker s" "Async_event ev" s s']
  show ?thesis by (auto simp: add_async_event_def good_def keeps_def intro: ml_inv_ctl)
next
  case (finish t e)
  obtain w where "owned w t s" using finish(1,3) assms(1) ml_invD(1) [of s] by (auto simp: owned_def good_def aff_def)
  with goes_finish_response [OF assms(1)] finish(4) show ?thesis by (blast intro: goes_good)
next
  case (terminate w)
  then show ?thesis using assms(1)
    by (auto simp: worker_terminate_def good_def ml_worker_def Let_def split: if_splits intro!: ml_inv_upd aff_upd_worker)
next
  case quit
  have "aff s'" unfolding quit by (rule keepsD(1) [OF keeps_same]) (use assms(1) in \<open>simp_all add: good_def dispatcher_terminate_def\<close>)
  then show ?thesis using assms(1) ml_inv_ctl [of s' s] by (simp add: good_def quit)
qed

section \<open>The initial state\<close>

definition multi_spawned :: "nat \<Rightarrow> 8 word \<Rightarrow> sys \<Rightarrow> bool" where
  "multi_spawned i n s \<longleftrightarrow> m_run_mode s = MULTI_LOOP \<and> bitset_ok (dm_workers_busy s) \<and>
     m_bits (dm_workers_busy s) = unat n \<and> dm_num_workers s = n \<and> tasks s = Map.empty \<and>
     workers s = map (\<lambda>j. worker_new j (Some j)) [0..<i] \<and> (\<forall>j < i. userdata s j = Some j)"

lemma start_workers_multi:
  "multi_spawned i n s \<Longrightarrow> i \<le> unat n \<Longrightarrow> \<exists>s'. start_workers [i..<unat n] s = Inr s' \<and> multi_spawned (unat n) n s'"
proof (induction "unat n - i" arbitrary: i s)
  case (Suc d)
  then have i: "i < unat n" and sp: "multi_spawned i n s" by auto
  obtain B where B: "bitset_unset i (dm_workers_busy s) = Inr B" "bitset_ok B" "m_bits B = unat n"
    using bs.unmark_law [of "dm_workers_busy s" i] sp i by (auto simp: multi_spawned_def)
  let ?s = "s\<lparr>dm_workers_busy := B, workers := workers s @ [worker_new i (Some i)], userdata := (userdata s)(i := Some i)\<rparr>"
  have "multi_spawned (Suc i) n ?s" using sp B by (auto simp: multi_spawned_def less_Suc_eq)
  with Suc.hyps(1) [of "Suc i" ?s] Suc.hyps(2) i
  have "\<exists>s'. start_workers [Suc i..<unat n] ?s = Inr s' \<and> multi_spawned (unat n) n s'" by simp
  with i B(1) sp show ?case by (simp add: upt_conv_Cons multi_spawned_def Let_def)
qed simp

lemma good_spawned: "multi_spawned (unat n) n s \<Longrightarrow> good s"
  by (auto simp: good_def ml_inv_def ml_worker_def aff_def multi_spawned_def worker_new_def)

lemma lf_reach_good:
  assumes "lf_reach H MULTI_LOOP n s"
  shows "good s"
  using assms
proof induction
  case (init s)
  have "multi_spawned 0 n (dispatcher_new MULTI_LOOP n)"
    by (simp add: multi_spawned_def dispatcher_new_def bitset_new_def bitset_ok_def)
  from start_workers_multi [OF this] init good_spawned show ?case
    by (auto simp: start_spawn_def dispatcher_new_def)
next
  case (step s s')
  then show ?case using good_step by blast
qed

section \<open>Properties\<close>

text \<open>
  C8: in multi loop mode every worker has its own loop and every task its own worker. In every reachable
  state worker \<open>w\<close> leads loop \<open>w\<close> and is registered there; an event in its queue, and an armed watcher at
  its loop, belong to a task that is assigned to it (disk tasks, which are not assigned, aside), so a
  task is never handled by two workers; and its next step outside handlers succeeds.
\<close>

theorem multi_loop_homes:
  assumes "lf_reach H MULTI_LOOP n s" "w < length (workers s)"
  shows "wm_loop (workers s ! w) = Some w \<and> wm_leader (workers s ! w) \<and> userdata s w = Some w \<and>
    (\<forall>ev e. ev \<in> set (wm_events_queue (workers s ! w)) \<and> tasks s (ev_task ev) = Some e \<and> em_kind e \<noteq> Disk_task \<longrightarrow>
      em_worker e = Some w) \<and>
    (\<forall>t e. tasks s t = Some e \<and> em_active e = Some w \<and> em_kind e \<noteq> Disk_task \<longrightarrow> em_worker e = Some w) \<and>
    (wm_pc (workers s ! w) = Handling \<and> wm_events_queue (workers s ! w) \<noteq> [] \<or> (\<exists>s'. advance H w s = Inr s'))"
proof -
  have inv: "ml_inv s" "aff s" using lf_reach_good [OF assms(1)] by (simp_all add: good_def)
  have k: "ml_worker w (workers s ! w)" "m_run_mode s = MULTI_LOOP" using inv(1) assms(2) by (auto simp: ml_inv_def)
  have "wm_pc (workers s ! w) = Handling \<and> wm_events_queue (workers s ! w) \<noteq> [] \<or> (\<exists>s'. advance H w s = Inr s')"
    using assms(2) k
    by (cases "wm_pc (workers s ! w)") (auto simp: advance_def worker_of_def mark_free_def promote_claim_def handle_front_def ml_worker_def)
  with ml_invD(2-4) [OF inv(1) assms(2)] inv(2) assms(2) show ?thesis
    by (auto simp: aff_def owned_def armed_home_def)
qed

text \<open>Two workers, two tasks from outside, and an event of the second one.\<close>

definition two_loops :: "label list" where
  "two_loops = [Start, Thread 0, Thread 0, Thread 0, Thread 1, Thread 1, Thread 1, Add (io_task_base_new 1),
     Add (io_task_base_new 1), Async 1 1, Fire 1 1 1]"

theorem multi_loop_homes_witness:
  "\<exists>s e. run_from_start quiet MULTI_LOOP 2 two_loops = Inr s \<and> map ev_task (wm_events_queue (workers s ! 1)) = [1] \<and>
     tasks s 1 = Some e \<and> em_worker e = Some 1"
proof -
  have "\<exists>s. run_from_start quiet MULTI_LOOP 2 two_loops = Inr s \<and> lf_reach quiet MULTI_LOOP 2 s \<and>
      (length (workers s) = 2 \<and> map ev_task (wm_events_queue (workers s ! 1)) = [1] \<and>
       map_option em_kind (tasks s 1) = Some Io_task)"
    by (rule lf_reach_run) code_simp
  then obtain s e where s: "run_from_start quiet MULTI_LOOP 2 two_loops = Inr s" "lf_reach quiet MULTI_LOOP 2 s"
    "length (workers s) = 2" "map ev_task (wm_events_queue (workers s ! 1)) = [1]" "tasks s 1 = Some e" "em_kind e = Io_task"
    by auto
  then obtain ev where ev: "ev \<in> set (wm_events_queue (workers s ! 1))" "ev_task ev = 1" by auto
  have "tasks s (ev_task ev) = Some e" "em_kind e \<noteq> Disk_task" "1 < length (workers s)" using s(3,5,6) ev(2) by simp_all
  with multi_loop_homes [OF s(2), of 1] ev(1) have "em_worker e = Some 1" by blast
  with s(1,4,5) show ?thesis by (intro exI [of _ s] exI [of _ e]) simp
qed

end
