(* ===== verification/Socket.thy ===== *)
theory Socket
  imports Errors
begin

text \<open>
  Sockets (\<^verbatim>\<open>include/tasks/net/socket.h\<close>, \<^verbatim>\<open>tasks/net/socket.cpp\<close>, \<^verbatim>\<open>io_base.h\<close>), the
  \<^verbatim>\<open>_OS_LINUX_\<close> branches.

  The system calls are the parameter \<open>K\<close>: one function per call, over an arbitrary kernel state
  \<open>'k\<close>. A method is a \<open>prog\<close> over the socket object and the kernel: an exception leaves both as the
  calls before it left them. The pointer \<^verbatim>\<open>m_addr\<close> is an optional value; copies of a socket share
  it in the code, which only matters to code that goes on using both copies.
\<close>

section \<open>The system calls\<close>

datatype domain = AF_INET | AF_UNIX
datatype sock_kind = SOCK_STREAM | SOCK_DGRAM

record sockaddr_in =
  sin_addr :: "32 word"
  sin_port :: "16 word"

datatype sockaddr = Addr_in sockaddr_in | Addr_un string nat

record 'k kernel =
  k_socket :: "domain \<Rightarrow> sock_kind \<Rightarrow> 'k \<Rightarrow> int \<times> 'k"
  k_reuseaddr :: "int \<Rightarrow> 'k \<Rightarrow> int \<times> 'k"
  k_getfl :: "int \<Rightarrow> 'k \<Rightarrow> int \<times> 'k"
  k_setfl :: "int \<Rightarrow> int \<Rightarrow> 'k \<Rightarrow> int \<times> 'k"
  k_unlink :: "string \<Rightarrow> 'k \<Rightarrow> int \<times> 'k"
  k_bind :: "int \<Rightarrow> sockaddr \<Rightarrow> 'k \<Rightarrow> int \<times> 'k"
  k_chmod :: "string \<Rightarrow> nat \<Rightarrow> 'k \<Rightarrow> int \<times> 'k"
  k_listen :: "int \<Rightarrow> int \<Rightarrow> 'k \<Rightarrow> int \<times> 'k"
  k_accept :: "int \<Rightarrow> 'k \<Rightarrow> int \<times> 'k"
  k_connect :: "int \<Rightarrow> sockaddr \<Rightarrow> 'k \<Rightarrow> int \<times> 'k"
  k_shutdown :: "int \<Rightarrow> 'k \<Rightarrow> int \<times> 'k"
  k_close :: "int \<Rightarrow> 'k \<Rightarrow> int \<times> 'k"
  k_sendto :: "int \<Rightarrow> bytes \<Rightarrow> sockaddr_in option \<Rightarrow> 'k \<Rightarrow> int \<times> 'k"
  k_recvfrom :: "int \<Rightarrow> nat \<Rightarrow> bool \<Rightarrow> 'k \<Rightarrow> (int \<times> bytes \<times> sockaddr_in option) \<times> 'k"
  k_gethostbyname :: "string \<Rightarrow> 'k \<Rightarrow> (32 word) option \<times> 'k"
  k_inet_pton :: "string \<Rightarrow> (32 word) option"
  k_errno :: "'k \<Rightarrow> int"
  k_strerror :: "int \<Rightarrow> string"

definition EAGAIN :: int where "EAGAIN = 11"
definition O_NONBLOCK :: int where "O_NONBLOCK = 2048"

text \<open>\<^verbatim>\<open>sizeof(sun_path)\<close> and the mode 0666.\<close>

definition SUN_PATH_SIZE :: nat where "SUN_PATH_SIZE = 108"
definition MODE_0666 :: nat where "MODE_0666 = 438"

section \<open>The socket object\<close>

datatype socket_type = TCP | UDP

record sock =
  sm_fd :: int
  sm_type :: socket_type
  sm_blocking :: bool
  sm_addr :: "sockaddr_in option"

type_synonym ('k, 'a) sock_prog = "(sock \<times> 'k, 'a) prog"

definition socket_of_fd :: "int \<Rightarrow> sock" where
  "socket_of_fd fd = \<lparr>sm_fd = fd, sm_type = TCP, sm_blocking = False, sm_addr = None\<rparr>"

definition udp :: "sock \<Rightarrow> bool" where
  "udp s \<longleftrightarrow> sm_type s = UDP"

definition set_blocking :: "sock \<Rightarrow> sock" where
  "set_blocking s = s\<lparr>sm_blocking := True\<rparr>"

text \<open>A system call, a change of the object, and the exception of a failed call.\<close>

definition sys_call :: "('k \<Rightarrow> 'a \<times> 'k) \<Rightarrow> ('k, 'a) sock_prog" where
  "sys_call f = (\<lambda>(s, k). case f k of (a, k') \<Rightarrow> (Inr a, (s, k')))"

definition fd_call :: "(int \<Rightarrow> 'k \<Rightarrow> 'a \<times> 'k) \<Rightarrow> ('k, 'a) sock_prog" where
  "fd_call f = (\<lambda>(s, k). case f (sm_fd s) k of (a, k') \<Rightarrow> (Inr a, (s, k')))"

definition on_obj :: "(sock \<Rightarrow> sock) \<Rightarrow> ('k, unit) sock_prog" where
  "on_obj f = modify (\<lambda>(s, k). (f s, k))"

definition throw_errno :: "'k kernel \<Rightarrow> tasks_error \<Rightarrow> string \<Rightarrow> ('k, 'a) sock_prog" where
  "throw_errno K e what = (\<lambda>(s, k).
     (Inl (Thrown (tasks_exception_errno e (what @ '' failed: '' @ k_strerror K (k_errno K k)) (k_errno K k))), (s, k)))"

definition check :: "bool \<Rightarrow> 'k kernel \<Rightarrow> tasks_error \<Rightarrow> string \<Rightarrow> ('k, unit) sock_prog" where
  "check ok K e what = (if ok then ret () else throw_errno K e what)"

definition open_socket :: "'k kernel \<Rightarrow> domain \<Rightarrow> sock_kind \<Rightarrow> ('k, unit) sock_prog" where
  "open_socket K d t =
     bnd (sys_call (k_socket K d t)) (\<lambda>fd.
     sq (on_obj (\<lambda>s. s\<lparr>sm_fd := fd\<rparr>))
        (check (\<not> fd < 0) K SOCKET_SOCKET ''socket''))"

definition socket_new :: "'k kernel \<Rightarrow> socket_type \<Rightarrow> 'k \<Rightarrow> unit result \<times> (sock \<times> 'k)" where
  "socket_new K t k =
     (let s = (socket_of_fd (-1))\<lparr>sm_type := t\<rparr>
      in if t = UDP then open_socket K AF_INET SOCK_DGRAM (s, k) else (Inr (), (s, k)))"

text \<open>The block that puts the descriptor in non-blocking mode.\<close>

definition set_nonblock :: "'k kernel \<Rightarrow> ('k, unit) sock_prog" where
  "set_nonblock K =
     bnd (gets (sm_blocking \<circ> fst)) (\<lambda>blocking.
       if blocking then ret ()
       else bnd (fd_call (k_getfl K)) (\<lambda>fl.
            bnd (fd_call (\<lambda>fd. k_setfl K fd (or fl O_NONBLOCK))) (\<lambda>r.
            check (r = 0) K SOCKET_FNCTL ''fcntl'')))"

text \<open>
  \<^verbatim>\<open>std::strcpy\<close> of a path into \<^verbatim>\<open>addr.sun_path\<close>: the C string and its terminator must fit.
\<close>

definition c_str :: "string \<Rightarrow> string" where
  "c_str = takeWhile (\<lambda>c. c \<noteq> CHR 0x00)"

definition copy_path :: "string \<Rightarrow> ('k, string) sock_prog" where
  "copy_path path = (if length (c_str path) < SUN_PATH_SIZE then ret (c_str path) else fails Memory)"

definition sockaddr_un :: "string \<Rightarrow> string \<Rightarrow> sockaddr" where
  "sockaddr_un sun_path path = Addr_un sun_path (2 + length path)"

definition listen_path :: "'k kernel \<Rightarrow> string \<Rightarrow> int \<Rightarrow> ('k, unit) sock_prog" where
  "listen_path K path queue_size =
     sq (open_socket K AF_UNIX SOCK_STREAM)
    (sq (set_nonblock K)
    (bnd (copy_path path) (\<lambda>sun_path.
     bnd (sys_call (k_unlink K sun_path)) (\<lambda>_.
     bnd (fd_call (\<lambda>fd. k_bind K fd (sockaddr_un sun_path path))) (\<lambda>r.
     sq (check (r = 0) K SOCKET_BIND ''bind'')
    (bnd (sys_call (k_chmod K (c_str path) MODE_0666)) (\<lambda>r.
     sq (check (r = 0) K SOCKET_CHMOD ''chmod'')
    (bnd (fd_call (\<lambda>fd. k_listen K fd queue_size)) (\<lambda>r.
     check (r = 0) K SOCKET_LISTEN ''listen'')))))))))"

text \<open>\<^verbatim>\<open>htons\<close> of an \<^verbatim>\<open>int\<close>: reduced to 16 bits; the byte order of the field is not modelled.\<close>

definition init_sockaddr :: "'k kernel \<Rightarrow> int \<Rightarrow> string \<Rightarrow> ('k, unit) sock_prog" where
  "init_sockaddr K port ip =
     on_obj (\<lambda>s. s\<lparr>sm_addr := Some \<lparr>
       sin_addr = (if ip = [] then 0 else case k_inet_pton K (c_str ip) of None \<Rightarrow> 0 | Some a \<Rightarrow> a),
       sin_port = word_of_int port\<rparr>\<rparr>)"

definition bind_as :: "'k kernel \<Rightarrow> int \<Rightarrow> string \<Rightarrow> bool \<Rightarrow> ('k, unit) sock_prog" where
  "bind_as K port ip is_udp =
     sq (on_obj (\<lambda>s. s\<lparr>sm_type := UDP\<rparr>))
    (sq (open_socket K AF_INET (if is_udp then SOCK_DGRAM else SOCK_STREAM))
    (bnd (fd_call (k_reuseaddr K)) (\<lambda>r.
     sq (check (r = 0) K SOCKET_SOCKOPT_REUSEADDR ''setsockopt SO_REUSEADDR'')
    (sq (set_nonblock K)
    (sq (init_sockaddr K port ip)
    (bnd (gets (sm_addr \<circ> fst)) (\<lambda>a.
       case a of
         None \<Rightarrow> fails Memory
       | Some a \<Rightarrow> bnd (fd_call (\<lambda>fd. k_bind K fd (Addr_in a))) (\<lambda>r.
           check (r = 0) K SOCKET_BIND ''bind''))))))))"

definition bind :: "'k kernel \<Rightarrow> int \<Rightarrow> string \<Rightarrow> ('k, unit) sock_prog" where
  "bind K port ip = bind_as K port ip True"

definition listen_port :: "'k kernel \<Rightarrow> int \<Rightarrow> string \<Rightarrow> int \<Rightarrow> ('k, unit) sock_prog" where
  "listen_port K port ip queue_size =
     bnd (gets (udp \<circ> fst)) (\<lambda>u.
       if u
       then fails (Thrown (tasks_exception_msg SOCKET_LISTEN_UDP
              ''listen failed: can't be called for UDP sockets''))
       else sq (bind_as K port ip False)
            (bnd (fd_call (\<lambda>fd. k_listen K fd queue_size)) (\<lambda>r.
             check (r = 0) K SOCKET_LISTEN ''listen'')))"

definition accept :: "'k kernel \<Rightarrow> ('k, sock) sock_prog" where
  "accept K =
     bnd (fd_call (k_accept K)) (\<lambda>client.
     sq (check (\<not> client < 0) K SOCKET_ACCEPT ''accept'') (ret (socket_of_fd client)))"

definition connect_path :: "'k kernel \<Rightarrow> string \<Rightarrow> ('k, unit) sock_prog" where
  "connect_path K path =
     sq (open_socket K AF_UNIX SOCK_STREAM)
    (bnd (copy_path path) (\<lambda>sun_path.
     bnd (fd_call (\<lambda>fd. k_connect K fd (sockaddr_un sun_path path))) (\<lambda>r.
     sq (check (r = 0) K SOCKET_CONNECT ''connect'') (set_nonblock K))))"

definition connect_host :: "'k kernel \<Rightarrow> string \<Rightarrow> int \<Rightarrow> ('k, unit) sock_prog" where
  "connect_host K host port =
     bnd (sys_call (k_gethostbyname K (c_str host))) (\<lambda>remote.
       case remote of
         None \<Rightarrow> fails (Thrown (tasks_exception_msg SOCKET_NOHOST (''Host '' @ host @ '' not found'')))
       | Some a \<Rightarrow>
           sq (open_socket K AF_INET SOCK_STREAM)
          (bnd (fd_call (\<lambda>fd. k_connect K fd (Addr_in \<lparr>sin_addr = a, sin_port = word_of_int port\<rparr>))) (\<lambda>r.
           sq (check (r = 0) K SOCKET_CONNECT ''connect'') (set_nonblock K))))"

definition shutdown :: "'k kernel \<Rightarrow> ('k, unit) sock_prog" where
  "shutdown K =
     bnd (gets (sm_fd \<circ> fst)) (\<lambda>fd.
       if fd > -1
       then bnd (fd_call (k_shutdown K)) (\<lambda>_. on_obj (\<lambda>s. s\<lparr>sm_fd := -1\<rparr>))
       else ret ())"

definition io_close :: "'k kernel \<Rightarrow> ('k, unit) sock_prog" where
  "io_close K =
     bnd (gets (sm_fd \<circ> fst)) (\<lambda>fd.
       if fd > -1
       then bnd (fd_call (k_close K)) (\<lambda>_. on_obj (\<lambda>s. s\<lparr>sm_fd := -1\<rparr>))
       else ret ())"

section \<open>Reading and writing\<close>

definition throw_io :: "'k kernel \<Rightarrow> tasks_error \<Rightarrow> string \<Rightarrow> ('k, 'a) sock_prog" where
  "throw_io K e what = (\<lambda>(s, k).
     (Inl (Thrown (tasks_exception_errno e
        (what @ '' client file descriptor '' @ int_to_string (sm_fd s) @ '': '' @ k_strerror K (k_errno K k))
        (k_errno K k))), (s, k)))"

definition socket_write :: "'k kernel \<Rightarrow> bytes \<Rightarrow> int \<Rightarrow> string \<Rightarrow> ('k, int) sock_prog" where
  "socket_write K data port ip =
     sq (bnd (gets fst) (\<lambda>s.
           if sm_fd s = -1 \<and> udp s then open_socket K AF_INET SOCK_DGRAM else ret ()))
    (sq (if port > -1 then init_sockaddr K port ip else ret ())
    (bnd (gets (sm_addr \<circ> fst)) (\<lambda>addr.
     bnd (fd_call (\<lambda>fd. k_sendto K fd data addr)) (\<lambda>bytes.
     bnd (gets (k_errno K \<circ> snd)) (\<lambda>errno.
       if bytes < 0 \<and> errno \<noteq> EAGAIN then throw_io K SOCKET_WRITE ''error writing to'' else ret bytes)))))"

text \<open>
  \<^verbatim>\<open>read\<close> returns the count and what the kernel stored at \<^verbatim>\<open>data\<close>. Only a UDP socket that has an
  address passes it on, to have it overwritten with the sender's.
\<close>

definition socket_read :: "'k kernel \<Rightarrow> nat \<Rightarrow> ('k, int \<times> bytes) sock_prog" where
  "socket_read K len =
     bnd (gets fst) (\<lambda>s.
     let want_addr = udp s \<and> sm_addr s \<noteq> None in
     bnd (fd_call (\<lambda>fd. k_recvfrom K fd len want_addr)) (\<lambda>(bytes, data, from).
     sq (if want_addr \<and> from \<noteq> None then on_obj (\<lambda>s. s\<lparr>sm_addr := from\<rparr>) else ret ())
    (bnd (gets (\<lambda>(s, k). (sm_fd s, k_errno K k))) (\<lambda>(fd, errno).
       if bytes < 0 \<and> errno \<noteq> EAGAIN then throw_io K SOCKET_READ ''error reading from''
       else if bytes = 0
       then fails (Thrown (tasks_exception_msg SOCKET_NOCON
              (''client '' @ int_to_string fd @ '' disconnected'')))
       else ret (bytes, data)))))"

lemmas sock_defs = sys_call_def fd_call_def on_obj_def throw_errno_def check_def throw_io_def

section \<open>What the kernel promises of a stream\<close>

text \<open>
  \<open>sends_in_order K sent\<close>: \<^verbatim>\<open>sendto\<close> accepts a prefix of the data, the rest is not sent, and what
  was accepted on a descriptor is what left it, in order (\<open>sent k fd\<close>). \<open>recv_in_order K inbox\<close>:
  \<^verbatim>\<open>recvfrom\<close> of at most \<open>len\<close> bytes returns as many as it says and takes them from the front of
  what is waiting at the descriptor.
\<close>

definition sends_in_order :: "'k kernel \<Rightarrow> ('k \<Rightarrow> int \<Rightarrow> bytes) \<Rightarrow> bool" where
  "sends_in_order K sent \<longleftrightarrow> (\<forall>fd data a k n k'. k_sendto K fd data a k = (n, k') \<longrightarrow>
     n \<le> int (length data) \<and> sent k' = (sent k)(fd := sent k fd @ take (nat n) data))"

definition recv_in_order :: "'k kernel \<Rightarrow> ('k \<Rightarrow> int \<Rightarrow> bytes) \<Rightarrow> bool" where
  "recv_in_order K inbox \<longleftrightarrow> (\<forall>fd len w k n d a k'. k_recvfrom K fd len w k = ((n, d, a), k') \<longrightarrow>
     n \<le> int len \<and> length d = nat n \<and> inbox k = (inbox k')(fd := d @ inbox k' fd))"

text \<open>A connected stream socket: writing passes no address and changes nothing of the object.\<close>

lemma socket_write_stream:
  assumes "sm_type s = TCP" "k_sendto K (sm_fd s) data (sm_addr s) k = (n, k')"
  shows "socket_write K data (-1) [] (s, k) =
    (if n < 0 \<and> k_errno K k' \<noteq> EAGAIN then throw_io K SOCKET_WRITE ''error writing to'' (s, k')
     else (Inr n, (s, k')))"
  using assms by (simp add: socket_write_def prog_defs sock_defs udp_def)

lemma socket_read_stream:
  assumes "sm_type s = TCP" "k_recvfrom K (sm_fd s) len False k = ((n, d, a), k')"
  shows "socket_read K len (s, k) =
    (if n < 0 \<and> k_errno K k' \<noteq> EAGAIN then throw_io K SOCKET_READ ''error reading from'' (s, k')
     else if n = 0 then (Inl (Thrown (tasks_exception_msg SOCKET_NOCON
       (''client '' @ int_to_string (sm_fd s) @ '' disconnected''))), (s, k'))
     else (Inr (n, d), (s, k')))"
  using assms by (simp add: socket_read_def prog_defs sock_defs udp_def)

section \<open>A scripted kernel\<close>

text \<open>
  A kernel to evaluate the model with: every call succeeds, descriptors are numbered, sends accept at
  most the next number of the script, and receives deliver at most the next chunk's length of the
  waiting bytes.
\<close>

record script =
  sc_next_fd :: int
  sc_send :: "int list"
  sc_recv :: "nat list"
  sc_sent :: "int \<Rightarrow> bytes"
  sc_inbox :: "int \<Rightarrow> bytes"
  sc_errno :: int

definition script_send :: "int \<Rightarrow> bytes \<Rightarrow> sockaddr_in option \<Rightarrow> script \<Rightarrow> int \<times> script" where
  "script_send fd data a k =
     (case sc_send k of
        [] \<Rightarrow> (-1, k\<lparr>sc_errno := EAGAIN\<rparr>)
      | m # ms \<Rightarrow>
          (if m < 0 then (-1, k\<lparr>sc_send := ms, sc_errno := - m\<rparr>)
           else let n = min (nat m) (length data)
                in (int n, k\<lparr>sc_send := ms, sc_sent := (sc_sent k)(fd := sc_sent k fd @ take n data)\<rparr>)))"

definition script_recv :: "int \<Rightarrow> nat \<Rightarrow> bool \<Rightarrow> script \<Rightarrow> (int \<times> bytes \<times> sockaddr_in option) \<times> script" where
  "script_recv fd len w k =
     (case sc_recv k of
        [] \<Rightarrow> ((-1, [], None), k\<lparr>sc_errno := EAGAIN\<rparr>)
      | m # ms \<Rightarrow>
          (let n = min (min m len) (length (sc_inbox k fd))
           in ((int n, take n (sc_inbox k fd), None),
               k\<lparr>sc_recv := ms, sc_inbox := (sc_inbox k)(fd := drop n (sc_inbox k fd))\<rparr>)))"

definition script_kernel :: "script kernel" where
  "script_kernel = \<lparr>
     k_socket = (\<lambda>_ _ k. (sc_next_fd k, k\<lparr>sc_next_fd := sc_next_fd k + 1\<rparr>)),
     k_reuseaddr = (\<lambda>_ k. (0, k)), k_getfl = (\<lambda>_ k. (0, k)), k_setfl = (\<lambda>_ _ k. (0, k)),
     k_unlink = (\<lambda>_ k. (0, k)), k_bind = (\<lambda>_ _ k. (0, k)), k_chmod = (\<lambda>_ _ k. (0, k)),
     k_listen = (\<lambda>_ _ k. (0, k)), k_accept = (\<lambda>_ k. (sc_next_fd k, k\<lparr>sc_next_fd := sc_next_fd k + 1\<rparr>)),
     k_connect = (\<lambda>_ _ k. (0, k)), k_shutdown = (\<lambda>_ k. (0, k)), k_close = (\<lambda>_ k. (0, k)),
     k_sendto = script_send, k_recvfrom = script_recv,
     k_gethostbyname = (\<lambda>_ k. (Some 0, k)), k_inet_pton = (\<lambda>_. None),
     k_errno = sc_errno, k_strerror = (\<lambda>_. [])\<rparr>"

definition script_start :: "int list \<Rightarrow> nat list \<Rightarrow> bytes \<Rightarrow> script" where
  "script_start sends recvs inbox = \<lparr>sc_next_fd = 3, sc_send = sends, sc_recv = recvs,
     sc_sent = (\<lambda>_. []), sc_inbox = (\<lambda>_. inbox), sc_errno = 0\<rparr>"

lemma script_sends: "sends_in_order script_kernel sc_sent"
  by (auto simp: sends_in_order_def script_kernel_def script_send_def Let_def fun_upd_idem
      split: list.splits if_splits)

lemma script_recvs: "recv_in_order script_kernel sc_inbox"
  by (auto simp: recv_in_order_def script_kernel_def script_recv_def Let_def fun_eq_iff
      split: list.splits)

section \<open>Properties\<close>

text \<open>
  What a read reports, on every branch: bytes, or the negative count of a descriptor that is not
  ready; \<^verbatim>\<open>SOCKET_NOCON\<close> exactly when the peer has closed; \<^verbatim>\<open>SOCKET_READ\<close> with the system's
  error number for every other failure. The descriptor stays open in all of them.
\<close>

theorem socket_read_outcome:
  assumes "k_recvfrom K (sm_fd s) len (udp s \<and> sm_addr s \<noteq> None) k = ((n, d, a), k')"
    and "socket_read K len (s, k) = (r, (s', k''))"
  shows "k'' = k' \<and> sm_fd s' = sm_fd s \<and> sm_type s' = sm_type s \<and>
    (case r of
       Inr (m, data) \<Rightarrow> m = n \<and> data = d \<and> (n > 0 \<or> n < 0 \<and> k_errno K k' = EAGAIN)
     | Inl (Thrown e) \<Rightarrow>
         n = 0 \<and> m_error e = SOCKET_NOCON \<or>
         n < 0 \<and> m_error e = SOCKET_READ \<and> m_sys_errno e = k_errno K k' \<and> k_errno K k' \<noteq> EAGAIN
     | Inl _ \<Rightarrow> False)"
proof -
  let ?s' = "if (udp s \<and> sm_addr s \<noteq> None) \<and> a \<noteq> None then s\<lparr>sm_addr := a\<rparr> else s"
  have "socket_read K len (s, k) =
    (if n < 0 \<and> k_errno K k' \<noteq> EAGAIN then throw_io K SOCKET_READ ''error reading from'' (?s', k')
     else if n = 0 then (Inl (Thrown (tasks_exception_msg SOCKET_NOCON
       (''client '' @ int_to_string (sm_fd s) @ '' disconnected''))), (?s', k'))
     else (Inr (n, d), (?s', k')))"
    using assms(1)
    by (cases "udp s \<and> sm_addr s \<noteq> None"; cases "a = None")
       (auto simp: socket_read_def prog_defs sock_defs Let_def simp del: not_None_eq)
  with assms(2) show ?thesis
    by (auto simp: throw_io_def tasks_exception_errno_def split: if_splits)
qed

theorem socket_read_outcome_witness:
  "\<exists>e st. socket_read script_kernel 10 (socket_of_fd 3, script_start [] [5] []) = (Inl (Thrown e), st) \<and>
     m_error e = SOCKET_NOCON"
proof -
  obtain r s' k'' where r: "socket_read script_kernel 10 (socket_of_fd 3, script_start [] [5] []) = (r, (s', k''))"
    by (metis prod_cases3)
  have "k_recvfrom script_kernel 3 10 False (script_start [] [5] []) = ((0, [], None), (script_start [] [] []))"
    by (simp add: script_kernel_def script_recv_def script_start_def fun_upd_idem)
  then show ?thesis
    using r socket_read_outcome [of script_kernel "socket_of_fd 3" 10 "script_start [] [5] []" 0 "[]" None
        "script_start [] [] []" r s' k'']
    by (auto simp: socket_of_fd_def udp_def split: sum.splits failure.splits)
qed

lemma open_socket_Inr:
  "open_socket K d t (s, k) = (Inr u, (s', k')) \<Longrightarrow> 0 \<le> sm_fd s' \<and> sm_type s' = sm_type s"
  by (auto simp: open_socket_def prog_defs sock_defs split: prod.splits if_splits)

lemma set_nonblock_Inr: "set_nonblock K (s, k) = (Inr u, (s', k')) \<Longrightarrow> s' = s"
  by (auto simp: set_nonblock_def prog_defs sock_defs split: prod.splits if_splits)

lemma fd_call_Inr: "fd_call f (s, k) = (Inr a, (s', k')) \<longleftrightarrow> f (sm_fd s) k = (a, k') \<and> s' = s"
  by (auto simp: fd_call_def split: prod.splits)

lemma check_Inr: "check ok K e w st = (Inr u, st') \<longleftrightarrow> ok \<and> st' = st"
  by (cases st) (auto simp: check_def ret_def throw_errno_def)

lemma on_obj_Inr: "on_obj f (s, k) = (Inr u, st') \<longleftrightarrow> st' = (f s, k)"
  by (auto simp: on_obj_def modify_def)

lemma sq_Inr: "sq m n st = (Inr b, st') \<longleftrightarrow> (\<exists>st1. m st = (Inr (), st1) \<and> n st1 = (Inr b, st'))"
  by (auto simp: sq_def bnd_Inr)

lemma gets_Inr: "gets f st = (Inr a, st') \<longleftrightarrow> a = f st \<and> st' = st"
  by (auto simp: gets_def)

lemma fails_Inr: "fails e st = (Inr a, st') \<longleftrightarrow> False"
  by (simp add: fails_def)

lemmas prog_Inr = bnd_Inr sq_Inr gets_Inr fails_Inr on_obj_Inr check_Inr fd_call_Inr

lemma bind_as_Inr:
  assumes "bind_as K port ip u (s, k) = (Inr v, (s', k'))"
  shows "sm_type s' = UDP \<and> 0 \<le> sm_fd s'"
proof -
  from assms obtain s1 k1 s2 k2 k3 where
    o: "open_socket K AF_INET (if u then SOCK_DGRAM else SOCK_STREAM) (s\<lparr>sm_type := UDP\<rparr>, k) = (Inr (), (s1, k1))"
    and n: "set_nonblock K (s1, k2) = (Inr (), (s2, k3))" and s': "sm_fd s' = sm_fd s2" "sm_type s' = sm_type s2"
    by (fastforce simp: bind_as_def prog_Inr init_sockaddr_def split: option.splits)
  with open_socket_Inr [OF o] set_nonblock_Inr [OF n] show ?thesis by simp
qed

text \<open>
  A successful \<^verbatim>\<open>listen(port, ip, queue_size)\<close> leaves a valid descriptor, but it also leaves the
  TCP socket marked as a UDP one: the next \<^verbatim>\<open>listen\<close> on the object, with any arguments, throws
  \<^verbatim>\<open>SOCKET_LISTEN_UDP\<close> and does nothing.
\<close>

theorem tcp_listen_marks_udp:
  assumes "listen_port K port ip q (s, k) = (Inr (), (s', k'))"
  shows "sm_type s = TCP \<and> 0 \<le> sm_fd s' \<and> sm_type s' = UDP \<and>
    (\<exists>e. m_error e = SOCKET_LISTEN_UDP \<and>
       (\<forall>p i q k. listen_port K p i q (s', k) = (Inl (Thrown e), (s', k))))"
proof -
  have tcp: "\<not> udp s" using assms by (auto simp: listen_port_def prog_Inr split: if_splits)
  with assms obtain k1 where "bind_as K port ip False (s, k) = (Inr (), (s', k1))"
    by (auto simp: listen_port_def prog_Inr)
  from bind_as_Inr [OF this] have t: "sm_type s' = UDP" "0 \<le> sm_fd s'" by simp_all
  moreover have "listen_port K p i q (s', k) =
      (Inl (Thrown (tasks_exception_msg SOCKET_LISTEN_UDP
         ''listen failed: can't be called for UDP sockets'')), (s', k))" for p i q k
    using t by (simp add: listen_port_def prog_defs udp_def)
  ultimately show ?thesis using tcp by (cases "sm_type s") (auto simp: udp_def)
qed

theorem tcp_listen_marks_udp_witness:
  "\<exists>s' k' e. listen_port script_kernel 80 [] 5 (socket_of_fd (-1), script_start [] [] []) = (Inr (), (s', k')) \<and>
     m_error e = SOCKET_LISTEN_UDP \<and> listen_port script_kernel 81 [] 5 (s', k') = (Inl (Thrown e), (s', k'))"
proof -
  obtain s' k' where "listen_port script_kernel 80 [] 5 (socket_of_fd (-1), script_start [] [] []) = (Inr (), (s', k'))"
    by (simp add: listen_port_def bind_as_def open_socket_def set_nonblock_def init_sockaddr_def prog_defs
        sock_defs script_kernel_def script_start_def socket_of_fd_def udp_def)
  with tcp_listen_marks_udp [OF this] show ?thesis by blast
qed

text \<open>
  A path that does not fit \<^verbatim>\<open>sun_path\<close> with its terminator is never connected or listened on:
  both calls get as far as the copy only to write past the end of the structure, unless the descriptor
  could not be made in the first place.
\<close>

theorem long_path_overflows:
  assumes "108 \<le> length (c_str path)"
  shows "(\<forall>st. fst (connect_path K path st) = Inl Memory \<or>
      (\<exists>e. fst (connect_path K path st) = Inl (Thrown e) \<and> m_error e = SOCKET_SOCKET)) \<and>
    (\<forall>st. fst (listen_path K path q st) = Inl Memory \<or>
      (\<exists>e. fst (listen_path K path q st) = Inl (Thrown e) \<and> m_error e \<in> {SOCKET_SOCKET, SOCKET_FNCTL}))"
proof -
  have c: "copy_path path = fails Memory" using assms by (simp add: copy_path_def SUN_PATH_SIZE_def)
  have o: "fst (open_socket K d t st) = Inr () \<or>
      (\<exists>e. fst (open_socket K d t st) = Inl (Thrown e) \<and> m_error e = SOCKET_SOCKET)" for d t st
    by (cases st) (auto simp: open_socket_def prog_defs sock_defs split: prod.splits)
  have n: "fst (set_nonblock K st) = Inr () \<or>
      (\<exists>e. fst (set_nonblock K st) = Inl (Thrown e) \<and> m_error e = SOCKET_FNCTL)" for st
    by (cases st) (auto simp: set_nonblock_def prog_defs sock_defs split: prod.splits)
  have "fst (connect_path K path st) = Inl Memory \<or>
      (\<exists>e. fst (connect_path K path st) = Inl (Thrown e) \<and> m_error e = SOCKET_SOCKET)" for st
    using o [of AF_UNIX SOCK_STREAM st] by (auto simp: connect_path_def c sq_def bnd_fst fails_def)
  moreover have "fst (listen_path K path q st) = Inl Memory \<or>
      (\<exists>e. fst (listen_path K path q st) = Inl (Thrown e) \<and> m_error e \<in> {SOCKET_SOCKET, SOCKET_FNCTL})" for st
    using o [of AF_UNIX SOCK_STREAM st] n [of "snd (open_socket K AF_UNIX SOCK_STREAM st)"]
    by (auto simp: listen_path_def c sq_def bnd_fst fails_def)
  ultimately show ?thesis by blast
qed

theorem long_path_overflows_witness:
  "fst (connect_path script_kernel (replicate 108 CHR ''x'') (socket_of_fd (-1), script_start [] [] [])) = Inl Memory"
proof -
  have "length (c_str (replicate 108 CHR ''x'')) = 108" by (simp add: c_str_def takeWhile_replicate)
  with long_path_overflows [of "replicate 108 CHR ''x''" script_kernel 0]
  show ?thesis
    by (auto simp: connect_path_def open_socket_def copy_path_def SUN_PATH_SIZE_def prog_defs sock_defs
        script_kernel_def script_start_def)
qed

end
