(* ===== verification/Http_Base.thy ===== *)
theory Http_Base
  imports Buffer Socket "HOL-Library.AList"
begin

text \<open>
  The common base of HTTP requests, HTTP responses and uwsgi requests
  (\<^verbatim>\<open>include/tasks/net/http_base.h\<close>, \<^verbatim>\<open>tasks/net/http_base.cpp\<close>, \<^verbatim>\<open>io_state.h\<close>): headers,
  content, and the state machine that writes an object to a socket.

  The \<^verbatim>\<open>std::unordered_map\<close> of headers is an association list; the order a \<^verbatim>\<open>for\<close> loop visits
  its entries in is not specified, so the serialisers take it as a parameter \<open>order\<close>, a permutation.
  \<^verbatim>\<open>boost::iequals\<close> is the parameter \<open>iequals\<close>. The derived classes are extensions of the record,
  and the virtual \<^verbatim>\<open>prepare_data_buffer\<close> is the argument \<open>prep\<close> of \<open>write_data\<close>.
\<close>

section \<open>The object\<close>

datatype io_state = READY | DONE | READ_HEADER | READ_DATA | READ_CONTENT | WRITE_DATA | WRITE_CONTENT

type_synonym headers_t = "(string \<times> string) list"

record http_base =
  hm_data_buffer :: buffer
  hm_content_buffer :: buffer
  hm_state :: io_state
  hm_headers :: headers_t
  hm_content_length :: nat

definition http_base_new :: http_base where
  "http_base_new = \<lparr>hm_data_buffer = buffer_new, hm_content_buffer = buffer_new, hm_state = READY,
     hm_headers = [], hm_content_length = 0\<rparr>"

definition set_header :: "(string \<Rightarrow> string \<Rightarrow> bool) \<Rightarrow> string \<Rightarrow> string \<Rightarrow>
    ('z) http_base_scheme \<Rightarrow> ('z) http_base_scheme" where
  "set_header iequals name val h =
     (let h = h\<lparr>hm_headers := AList.update name val (hm_headers h)\<rparr>
      in if iequals name ''Content-Length'' then h\<lparr>hm_content_length := to_size (atoi val)\<rparr> else h)"

definition header :: "string \<Rightarrow> ('z) http_base_scheme \<Rightarrow> string" where
  "header name h = (case map_of (hm_headers h) name of None \<Rightarrow> [] | Some v \<Rightarrow> v)"

definition http_write :: "bytes \<Rightarrow> ('z) http_base_scheme \<Rightarrow> (nat \<times> ('z) http_base_scheme) result" where
  "http_write data h =
     rbind (buffer_write data (hm_content_buffer h)) (\<lambda>(n, b). Inr (n, h\<lparr>hm_content_buffer := b\<rparr>))"

definition http_read :: "nat \<Rightarrow> ('z) http_base_scheme \<Rightarrow> (bytes \<times> ('z) http_base_scheme) result" where
  "http_read n h =
     rbind (buffer_read n (hm_content_buffer h)) (\<lambda>(d, b). Inr (d, h\<lparr>hm_content_buffer := b\<rparr>))"

definition content_p :: "('z) http_base_scheme \<Rightarrow> nat option" where
  "content_p h = (if hm_content_length h \<noteq> 0 then Some (gptr (hm_content_buffer h)) else None)"

definition is_done :: "('z) http_base_scheme \<Rightarrow> bool" where
  "is_done h \<longleftrightarrow> hm_state h = DONE"

definition http_clear :: "('z) http_base_scheme \<Rightarrow> ('z) http_base_scheme" where
  "http_clear h = h\<lparr>hm_data_buffer := buffer_clear (hm_data_buffer h),
     hm_content_buffer := buffer_clear (hm_content_buffer h), hm_content_length := 0,
     hm_headers := [], hm_state := READY\<rparr>"

section \<open>Writing to a socket\<close>

type_synonym ('h, 'k, 'a) http_prog = "('h \<times> sock \<times> 'k, 'a) prog"

definition on_sock :: "('k, 'a) sock_prog \<Rightarrow> ('h, 'k, 'a) http_prog" where
  "on_sock m = (\<lambda>(h, st). case m st of (r, st') \<Rightarrow> (r, (h, st')))"

definition on_http :: "('h \<Rightarrow> 'h) \<Rightarrow> ('h, 'k, unit) http_prog" where
  "on_http f = modify (\<lambda>(h, st). (f h, st))"

definition try_http :: "('h \<Rightarrow> 'h result) \<Rightarrow> ('h, 'k, unit) http_prog" where
  "try_http f = (\<lambda>(h, st). case f h of Inl e \<Rightarrow> (Inl e, (h, st)) | Inr h' \<Rightarrow> (Inr (), (h', st)))"

definition the_http :: "('h \<Rightarrow> 'a) \<Rightarrow> ('h, 'k, 'a) http_prog" where
  "the_http f = gets (\<lambda>(h, st). f h)"

text \<open>The \<^verbatim>\<open>to_read()\<close> bytes at \<^verbatim>\<open>ptr_read()\<close>, as \<^verbatim>\<open>sendto\<close> is given them.\<close>

definition readable :: "buffer \<Rightarrow> bytes result" where
  "readable b = (if to_read b < 0 then Inl Memory else fetch (gptr b) (nat (to_read b)) b)"

definition write_headers :: "'k kernel \<Rightarrow> (('z) http_base_scheme, 'k, unit) http_prog" where
  "write_headers K =
     bnd (the_http hm_data_buffer) (\<lambda>b.
       case readable b of
         Inl e \<Rightarrow> fails e
       | Inr data \<Rightarrow>
           bnd (on_sock (socket_write K data (-1) [])) (\<lambda>bytes.
             if bytes > 0 then on_http (\<lambda>h. h\<lparr>hm_data_buffer := move_ptr_read (nat bytes) b\<rparr>) else ret ()))"

definition write_content :: "'k kernel \<Rightarrow> (('z) http_base_scheme, 'k, unit) http_prog" where
  "write_content K =
     bnd (the_http hm_content_buffer) (\<lambda>b.
       case readable b of
         Inl e \<Rightarrow> fails e
       | Inr data \<Rightarrow>
           bnd (on_sock (socket_write K data (-1) [])) (\<lambda>bytes.
             if bytes > 0 then on_http (\<lambda>h. h\<lparr>hm_content_buffer := move_ptr_read (nat bytes) b\<rparr>) else ret ()))"

text \<open>\<^verbatim>\<open>write_data\<close> and its three blocks.\<close>

definition fill_data ::
  "(('z) http_base_scheme \<Rightarrow> ('z) http_base_scheme result) \<Rightarrow> (('z) http_base_scheme, 'k, unit) http_prog" where
  "fill_data prep =
     bnd (the_http hm_state) (\<lambda>st.
       if st = READY then sq (try_http prep) (on_http (\<lambda>h. h\<lparr>hm_state := WRITE_DATA\<rparr>)) else ret ())"

definition send_data :: "'k kernel \<Rightarrow> (('z) http_base_scheme, 'k, unit) http_prog" where
  "send_data K =
     bnd (the_http hm_state) (\<lambda>st.
       if st = WRITE_DATA
       then sq (write_headers K) (on_http (\<lambda>h.
              if to_read (hm_data_buffer h) = 0
              then h\<lparr>hm_state := (if m_size (hm_content_buffer h) \<noteq> 0 then WRITE_CONTENT else DONE)\<rparr>
              else h))
       else ret ())"

definition send_content :: "'k kernel \<Rightarrow> (('z) http_base_scheme, 'k, unit) http_prog" where
  "send_content K =
     bnd (the_http hm_state) (\<lambda>st.
       if st = WRITE_CONTENT
       then sq (write_content K) (on_http (\<lambda>h.
              if to_read (hm_content_buffer h) = 0 then h\<lparr>hm_state := DONE\<rparr> else h))
       else ret ())"

definition write_data ::
  "'k kernel \<Rightarrow> (('z) http_base_scheme \<Rightarrow> ('z) http_base_scheme result) \<Rightarrow>
   (('z) http_base_scheme, 'k, unit) http_prog" where
  "write_data K prep = sq (fill_data prep) (sq (send_data K) (send_content K))"

text \<open>The calls an event handler makes, one per time the socket is writable.\<close>

fun write_calls ::
  "'k kernel \<Rightarrow> (('z) http_base_scheme \<Rightarrow> ('z) http_base_scheme result) \<Rightarrow> nat \<Rightarrow>
   ('z) http_base_scheme \<times> sock \<times> 'k \<Rightarrow> ('z) http_base_scheme \<times> sock \<times> 'k" where
  "write_calls K prep 0 st = st"
| "write_calls K prep (Suc n) st = write_calls K prep n (snd (write_data K prep st))"

lemmas http_prog_defs = on_sock_def on_http_def try_http_def the_http_def

section \<open>What is left to write\<close>

definition bufs_ok :: "('z) http_base_scheme \<Rightarrow> bool" where
  "bufs_ok h \<longleftrightarrow> buffer_ok (hm_data_buffer h) \<and> buffer_ok (hm_content_buffer h)"

text \<open>The bytes still to go out, once the data buffer has been filled.\<close>

definition left :: "('z) http_base_scheme \<Rightarrow> bytes" where
  "left h = (case hm_state h of
       WRITE_DATA \<Rightarrow> unread (hm_data_buffer h) @ unread (hm_content_buffer h)
     | WRITE_CONTENT \<Rightarrow> unread (hm_content_buffer h)
     | _ \<Rightarrow> [])"

lemma readable_ok: "buffer_ok b \<Longrightarrow> readable b = Inr (unread b)"
  by (auto simp: readable_def buffer_ok_def to_read_def fetch_def unread_def drop_take nat_diff_distrib)

lemma unread_move: "unread (move_ptr_read n b) = drop n (unread b)"
  by (simp add: unread_def move_ptr_read_def add.commute)

lemma buffer_ok_move: "buffer_ok b \<Longrightarrow> n \<le> length (unread b) \<Longrightarrow> buffer_ok (move_ptr_read n b)"
  by (auto simp: buffer_ok_def unread_def move_ptr_read_def)

lemma to_read_zero: "buffer_ok b \<Longrightarrow> to_read b = 0 \<longleftrightarrow> unread b = []"
  using length_unread [of b] by auto

text \<open>
  One write to a stream socket: the accepted prefix leaves the front of what was readable, and nothing
  else changes; a failing write changes nothing.
\<close>

definition progress :: "('k \<Rightarrow> int \<Rightarrow> bytes) \<Rightarrow> sock \<Rightarrow> 'k \<Rightarrow> bytes \<Rightarrow> 'k \<Rightarrow> bytes \<Rightarrow> bool" where
  "progress sent s k rest k' rest' \<longleftrightarrow> sent k' (sm_fd s) @ rest' = sent k (sm_fd s) @ rest"

lemma socket_write_progress:
  assumes "sends_in_order K sent" and "sm_type s = TCP"
    and "socket_write K data (-1) [] (s, k) = (r, (s', k'))"
  shows "s' = s \<and> (case r of
      Inr n \<Rightarrow> n \<le> int (length data) \<and> sent k' (sm_fd s) = sent k (sm_fd s) @ take (nat n) data
    | Inl e \<Rightarrow> sent k' (sm_fd s) = sent k (sm_fd s) \<and> (\<exists>x. e = Thrown x \<and> m_error x = SOCKET_WRITE))"
proof -
  obtain n k1 where n: "k_sendto K (sm_fd s) data (sm_addr s) k = (n, k1)" by fastforce
  with assms(1) have "n \<le> int (length data)" "sent k1 (sm_fd s) = sent k (sm_fd s) @ take (nat n) data"
    unfolding sends_in_order_def by (metis, metis fun_upd_same)
  with assms(3) show ?thesis
    by (auto simp: socket_write_stream [OF assms(2) n] throw_io_def split: if_splits)
qed

lemma write_headers_step:
  assumes K: "sends_in_order K sent" and s: "sm_type s = TCP" and ok: "bufs_ok h"
    and w: "write_headers K (h, (s, k)) = (r, (h', (s', k')))"
  shows "s' = s \<and> bufs_ok h' \<and> (\<exists>b. h' = h\<lparr>hm_data_buffer := b\<rparr>) \<and>
    sent k' (sm_fd s) @ unread (hm_data_buffer h') = sent k (sm_fd s) @ unread (hm_data_buffer h) \<and>
    length (sent k (sm_fd s)) \<le> length (sent k' (sm_fd s))"
proof -
  let ?b = "hm_data_buffer h"
  have b: "buffer_ok ?b" using ok by (simp add: bufs_ok_def)
  obtain q s1 k1 where q: "socket_write K (unread ?b) (-1) [] (s, k) = (q, (s1, k1))" by (metis prod_cases3)
  note p = socket_write_progress [OF K s q]
  show ?thesis
  proof (cases q)
    case (Inl e)
    with w p q b show ?thesis using ok
      by (auto simp: write_headers_def prog_defs http_prog_defs readable_ok intro: exI [of _ ?b])
  next
    case (Inr n)
    with p have n: "s1 = s" "n \<le> int (length (unread ?b))"
      "sent k1 (sm_fd s) = sent k (sm_fd s) @ take (nat n) (unread ?b)" by auto
    have "write_headers K (h, (s, k)) =
      (Inr (), (if n > 0 then h\<lparr>hm_data_buffer := move_ptr_read (nat n) ?b\<rparr> else h, (s, k1)))"
      using q Inr n(1) b by (simp add: write_headers_def prog_defs http_prog_defs readable_ok)
    with w n ok b show ?thesis
      by (auto simp: bufs_ok_def unread_move buffer_ok_move nat_le_iff intro: exI [of _ ?b] split: if_splits)
  qed
qed

lemma write_content_step:
  assumes K: "sends_in_order K sent" and s: "sm_type s = TCP" and ok: "bufs_ok h"
    and w: "write_content K (h, (s, k)) = (r, (h', (s', k')))"
  shows "s' = s \<and> bufs_ok h' \<and> (\<exists>b. h' = h\<lparr>hm_content_buffer := b\<rparr>) \<and>
    sent k' (sm_fd s) @ unread (hm_content_buffer h') = sent k (sm_fd s) @ unread (hm_content_buffer h) \<and>
    length (sent k (sm_fd s)) \<le> length (sent k' (sm_fd s))"
proof -
  let ?b = "hm_content_buffer h"
  have b: "buffer_ok ?b" using ok by (simp add: bufs_ok_def)
  obtain q s1 k1 where q: "socket_write K (unread ?b) (-1) [] (s, k) = (q, (s1, k1))" by (metis prod_cases3)
  note p = socket_write_progress [OF K s q]
  show ?thesis
  proof (cases q)
    case (Inl e)
    with w p q b show ?thesis using ok
      by (auto simp: write_content_def prog_defs http_prog_defs readable_ok intro: exI [of _ ?b])
  next
    case (Inr n)
    with p have n: "s1 = s" "n \<le> int (length (unread ?b))"
      "sent k1 (sm_fd s) = sent k (sm_fd s) @ take (nat n) (unread ?b)" by auto
    have "write_content K (h, (s, k)) =
      (Inr (), (if n > 0 then h\<lparr>hm_content_buffer := move_ptr_read (nat n) ?b\<rparr> else h, (s, k1)))"
      using q Inr n(1) b by (simp add: write_content_def prog_defs http_prog_defs readable_ok)
    with w n ok b show ?thesis
      by (auto simp: bufs_ok_def unread_move buffer_ok_move nat_le_iff intro: exI [of _ ?b] split: if_splits)
  qed
qed

text \<open>
  A step that keeps the balance: what has left the socket followed by what is left to write is the
  same before and after, whether the step returns or throws.
\<close>

definition writing :: "('z) http_base_scheme \<Rightarrow> bool" where
  "writing h \<longleftrightarrow> bufs_ok h \<and> hm_state h \<in> {WRITE_DATA, WRITE_CONTENT, DONE}"

definition balanced :: "('k \<Rightarrow> int \<Rightarrow> bytes) \<Rightarrow> (('z) http_base_scheme, 'k, unit) http_prog \<Rightarrow> bool" where
  "balanced sent m \<longleftrightarrow> (\<forall>h s k. writing h \<longrightarrow> sm_type s = TCP \<longrightarrow>
     (case m (h, (s, k)) of (r, (h', (s', k'))) \<Rightarrow> s' = s \<and> writing h' \<and>
        sent k' (sm_fd s) @ left h' = sent k (sm_fd s) @ left h \<and>
        length (sent k (sm_fd s)) \<le> length (sent k' (sm_fd s))))"

lemma balancedD:
  assumes "balanced sent m" "m (h, (s, k)) = (r, (h', (s', k')))" "writing h" "sm_type s = TCP"
  shows "s' = s" "writing h'" "sent k' (sm_fd s) @ left h' = sent k (sm_fd s) @ left h"
    "length (sent k (sm_fd s)) \<le> length (sent k' (sm_fd s))"
  using assms(1) [unfolded balanced_def, rule_format, OF assms(3,4), of k] assms(2) by simp_all

lemma balanced_sq:
  assumes "balanced sent m" "balanced sent n"
  shows "balanced sent (sq m n)"
  unfolding balanced_def
proof (intro allI impI, clarsimp)
  fix h :: "'b http_base_scheme" and s k r h' s' k'
  assume h: "writing h" "sm_type s = TCP" and q: "sq m n (h, s, k) = (r, h', s', k')"
  obtain r1 h1 s1 k1 where m: "m (h, s, k) = (r1, h1, s1, k1)" by (metis prod_cases4)
  note b = balancedD [OF assms(1) m h]
  show "s' = s \<and> writing h' \<and> sent k' (sm_fd s) @ left h' = sent k (sm_fd s) @ left h \<and>
      length (sent k (sm_fd s)) \<le> length (sent k' (sm_fd s))"
  proof (cases r1)
    case (Inl e)
    with q m have "(h', s', k') = (h1, s1, k1)" by (simp add: sq_def bnd_def)
    with b show ?thesis by simp
  next
    case (Inr u)
    with q m have n: "n (h1, s1, k1) = (r, h', s', k')" by (simp add: sq_def bnd_def)
    with balancedD [OF assms(2) n b(2)] b h(2) show ?thesis by simp
  qed
qed

lemma balanced_send_data:
  assumes "sends_in_order K sent"
  shows "balanced sent (send_data K)"
  unfolding balanced_def
proof (intro allI impI, clarsimp)
  fix h :: "'b http_base_scheme" and s k r h' s' k'
  assume h: "writing h" "sm_type s = TCP" and q: "send_data K (h, s, k) = (r, h', s', k')"
  show "s' = s \<and> writing h' \<and> sent k' (sm_fd s) @ left h' = sent k (sm_fd s) @ left h \<and>
      length (sent k (sm_fd s)) \<le> length (sent k' (sm_fd s))"
  proof (cases "hm_state h = WRITE_DATA")
    case True
    obtain r1 h1 s1 k1 where w: "write_headers K (h, s, k) = (r1, h1, s1, k1)" by (metis prod_cases4)
    note st = write_headers_step [OF assms h(2) _ w]
    have h1: "s1 = s" "bufs_ok h1" "hm_state h1 = WRITE_DATA" "hm_content_buffer h1 = hm_content_buffer h"
      "sent k1 (sm_fd s) @ unread (hm_data_buffer h1) = sent k (sm_fd s) @ unread (hm_data_buffer h)"
      "length (sent k (sm_fd s)) \<le> length (sent k1 (sm_fd s))"
      using st h(1) True by (auto simp: writing_def)
    have bal: "sent k1 (sm_fd s) @ left h1 = sent k (sm_fd s) @ left h"
      using h1 True by (simp add: left_def append_assoc [symmetric] del: append_assoc)
    show ?thesis
    proof (cases r1)
      case (Inl e)
      with q w True have "(h', s', k') = (h1, s1, k1)"
        by (simp add: send_data_def prog_defs http_prog_defs)
      with h1 bal show ?thesis by (simp add: writing_def)
    next
      case (Inr u)
      let ?h = "if to_read (hm_data_buffer h1) = 0
        then h1\<lparr>hm_state := (if m_size (hm_content_buffer h1) \<noteq> 0 then WRITE_CONTENT else DONE)\<rparr> else h1"
      from Inr q w True have "(h', s', k') = (?h, s1, k1)"
        by (simp add: send_data_def prog_defs http_prog_defs)
      moreover have "left ?h = left h1"
        using h1(2,3) by (auto simp: left_def bufs_ok_def to_read_zero) (simp add: unread_def buffer_ok_def)
      ultimately show ?thesis using h1 bal by (auto simp: writing_def bufs_ok_def)
    qed
  qed (use h q in \<open>simp add: send_data_def prog_defs http_prog_defs\<close>)
qed

lemma balanced_send_content:
  assumes "sends_in_order K sent"
  shows "balanced sent (send_content K)"
  unfolding balanced_def
proof (intro allI impI, clarsimp)
  fix h :: "'b http_base_scheme" and s k r h' s' k'
  assume h: "writing h" "sm_type s = TCP" and q: "send_content K (h, s, k) = (r, h', s', k')"
  show "s' = s \<and> writing h' \<and> sent k' (sm_fd s) @ left h' = sent k (sm_fd s) @ left h \<and>
      length (sent k (sm_fd s)) \<le> length (sent k' (sm_fd s))"
  proof (cases "hm_state h = WRITE_CONTENT")
    case True
    obtain r1 h1 s1 k1 where w: "write_content K (h, s, k) = (r1, h1, s1, k1)" by (metis prod_cases4)
    note st = write_content_step [OF assms h(2) _ w]
    have h1: "s1 = s" "bufs_ok h1" "hm_state h1 = WRITE_CONTENT"
      "sent k1 (sm_fd s) @ left h1 = sent k (sm_fd s) @ left h"
      "length (sent k (sm_fd s)) \<le> length (sent k1 (sm_fd s))"
      using st h(1) True by (auto simp: writing_def left_def)
    show ?thesis
    proof (cases r1)
      case (Inl e)
      with q w True have "(h', s', k') = (h1, s1, k1)"
        by (simp add: send_content_def prog_defs http_prog_defs)
      with h1 show ?thesis by (simp add: writing_def)
    next
      case (Inr u)
      let ?h = "if to_read (hm_content_buffer h1) = 0 then h1\<lparr>hm_state := DONE\<rparr> else h1"
      from Inr q w True have "(h', s', k') = (?h, s1, k1)"
        by (simp add: send_content_def prog_defs http_prog_defs)
      moreover have "left ?h = left h1"
        using h1(2,3) by (auto simp: left_def bufs_ok_def to_read_zero)
      ultimately show ?thesis using h1 by (auto simp: writing_def bufs_ok_def)
    qed
  qed (use h q in \<open>simp add: send_content_def prog_defs http_prog_defs\<close>)
qed

lemma balanced_write_data:
  assumes "sends_in_order K sent"
  shows "balanced sent (write_data K prep)"
proof -
  have "balanced sent (fill_data prep)"
    by (auto simp: balanced_def fill_data_def writing_def prog_defs http_prog_defs)
  with assms show ?thesis
    unfolding write_data_def by (intro balanced_sq balanced_send_data balanced_send_content)
qed

lemma balanced_write_calls:
  assumes "sends_in_order K sent" "writing h" "sm_type s = TCP"
    and "write_calls K prep n (h, (s, k)) = (h', (s', k'))"
  shows "s' = s \<and> writing h' \<and> sent k' (sm_fd s) @ left h' = sent k (sm_fd s) @ left h"
  using assms(2-4)
proof (induction n arbitrary: h k)
  case (Suc n)
  obtain r h1 s1 k1 where w: "write_data K prep (h, s, k) = (r, h1, s1, k1)" by (metis prod_cases4)
  note b = balancedD [OF balanced_write_data [OF assms(1)] w Suc.prems(1,2)]
  with Suc.IH [of h1 k1] Suc.prems w show ?case by simp
qed simp

lemma write_data_ready:
  assumes "hm_state h = READY" "prep h = Inr h1"
  shows "write_data K prep (h, st) = write_data K prep (h1\<lparr>hm_state := WRITE_DATA\<rparr>, st)"
  using assms by (cases st) (simp add: write_data_def fill_data_def sq_def bnd_def prog_defs http_prog_defs)

lemma write_calls_ready:
  "\<lbrakk>hm_state h = READY; prep h = Inr h1; 0 < n\<rbrakk> \<Longrightarrow>
   write_calls K prep n (h, st) = write_calls K prep n (h1\<lparr>hm_state := WRITE_DATA\<rparr>, st)"
  by (cases n) (simp_all add: write_data_ready)

section \<open>Progress\<close>

text \<open>A socket that is always writable: \<^verbatim>\<open>sendto\<close> takes at least one byte of what it is given.\<close>

definition always_accepts :: "'k kernel \<Rightarrow> bool" where
  "always_accepts K \<longleftrightarrow> (\<forall>fd data a k.
     (if data = [] then fst (k_sendto K fd data a k) = 0 else 0 < fst (k_sendto K fd data a k)))"

lemma socket_write_accepts:
  assumes "sends_in_order K sent" "always_accepts K" "sm_type s = TCP"
  shows "\<exists>n k'. socket_write K data (-1) [] (s, k) = (Inr n, (s, k')) \<and> n \<le> int (length data) \<and>
    (if data = [] then n = 0 else 0 < n)"
proof -
  obtain n k' where n: "k_sendto K (sm_fd s) data (sm_addr s) k = (n, k')" by fastforce
  have "if data = [] then n = 0 else 0 < n" using assms(2) n unfolding always_accepts_def by (metis fst_conv)
  moreover have "n \<le> int (length data)" using assms(1) n unfolding sends_in_order_def by metis
  ultimately show ?thesis using socket_write_stream [OF assms(3) n] by (auto split: if_splits)
qed

lemma send_content_accepts:
  assumes "sends_in_order K sent" "always_accepts K" "sm_type s = TCP" "bufs_ok h"
    and "hm_state h = WRITE_CONTENT" "send_content K (h, s, k) = (r, h', s', k')"
  shows "hm_state h' = DONE \<or> length (left h') < length (left h)"
proof -
  let ?b = "hm_content_buffer h"
  have b: "buffer_ok ?b" using assms(4) by (simp add: bufs_ok_def)
  obtain n k1 where q: "socket_write K (unread ?b) (-1) [] (s, k) = (Inr n, (s, k1))"
    "n \<le> int (length (unread ?b))" "if unread ?b = [] then n = 0 else 0 < n"
    using socket_write_accepts [OF assms(1-3)] by blast
  have ok: "buffer_ok (move_ptr_read (nat n) ?b)" using b q(2) by (simp add: buffer_ok_move nat_le_iff)
  show ?thesis
  proof (cases "unread ?b = []")
    case True
    with q(1,3) b assms(5,6) show ?thesis
      by (auto simp: send_content_def write_content_def prog_defs http_prog_defs readable_ok to_read_zero)
  next
    case False
    with q(1,3) b assms(5,6) ok show ?thesis
      by (cases "length (unread ?b) \<le> nat n")
         (auto simp: send_content_def write_content_def prog_defs http_prog_defs readable_ok left_def
          to_read_zero unread_move)
  qed
qed

lemma write_data_accepts:
  assumes K: "sends_in_order K sent" "always_accepts K" and s: "sm_type s = TCP" and h: "writing h"
    and w: "write_data K prep (h, s, k) = (r, h', s', k')"
  shows "hm_state h' = DONE \<or> length (left h') < length (left h)"
proof -
  have fill: "fill_data prep (h, s, k) = (Inr (), h, s, k)"
    using h by (auto simp: writing_def fill_data_def prog_defs http_prog_defs)
  obtain r1 h1 s1 k1 where d: "send_data K (h, s, k) = (r1, h1, s1, k1)" by (metis prod_cases4)
  note b = balancedD [OF balanced_send_data [OF K(1)] d h s]
  consider "hm_state h = WRITE_DATA" | "hm_state h = WRITE_CONTENT" | "hm_state h = DONE"
    using h by (auto simp: writing_def)
  then show ?thesis
  proof cases
    case 1
    let ?b = "hm_data_buffer h"
    have bo: "buffer_ok ?b" using h by (simp add: writing_def bufs_ok_def)
    obtain n k2 where q: "socket_write K (unread ?b) (-1) [] (s, k) = (Inr n, (s, k2))"
      "n \<le> int (length (unread ?b))" "if unread ?b = [] then n = 0 else 0 < n"
      using socket_write_accepts [OF K s] by blast
    have r1: "r1 = Inr ()"
      using d q(1) 1 bo by (auto simp: send_data_def write_headers_def prog_defs http_prog_defs readable_ok split: if_splits)
    have c: "send_content K (h1, s1, k1) = (r, h', s', k')"
      using w fill d r1 by (simp add: write_data_def sq_def bnd_def)
    note b2 = balancedD [OF balanced_send_content [OF K(1)] c b(2)]
    have le: "length (left h') \<le> length (left h1)" "length (left h1) \<le> length (left h)"
      using arg_cong [OF b2(3), of length] b2(4) b(1,4) s arg_cong [OF b(3), of length] by simp_all
    show ?thesis
    proof (cases "unread ?b = []")
      case False
      with q 1 bo d have "length (left h1) < length (left h)"
        by (auto simp: send_data_def write_headers_def prog_defs http_prog_defs readable_ok left_def
            unread_move to_read_zero buffer_ok_move nat_le_iff split: if_splits)
      with le show ?thesis by simp
    next
      case True
      with q 1 bo d have "hm_state h1 = WRITE_CONTENT \<or> hm_state h1 = DONE"
        by (auto simp: send_data_def write_headers_def prog_defs http_prog_defs readable_ok to_read_zero
            split: if_splits)
      then show ?thesis
        using send_content_accepts [OF K _ _ _ c] b(1,2) s le c
        by (auto simp: writing_def send_content_def prog_defs http_prog_defs)
    qed
  next
    case 2
    then have "send_data K (h, s, k) = (Inr (), h, s, k)"
      by (simp add: send_data_def prog_defs http_prog_defs)
    then have c: "send_content K (h, s, k) = (r, h', s', k')"
      using w fill by (simp add: write_data_def sq_def bnd_def)
    show ?thesis using send_content_accepts [OF K s _ 2 c] h by (auto simp: writing_def)
  next
    case 3
    with w fill show ?thesis
      by (simp add: write_data_def send_data_def send_content_def sq_def bnd_def prog_defs http_prog_defs)
  qed
qed

text \<open>On such a socket \<^verbatim>\<open>write_data\<close> does not throw.\<close>

lemma write_parts_return:
  assumes "sends_in_order K sent" "always_accepts K" "sm_type s = TCP" "bufs_ok h"
  shows "\<exists>st. write_headers K (h, s, k) = (Inr (), st)" "\<exists>st. write_content K (h, s, k) = (Inr (), st)"
  using socket_write_accepts [OF assms(1-3), of "unread (hm_data_buffer h)" k]
    socket_write_accepts [OF assms(1-3), of "unread (hm_content_buffer h)" k] assms(4)
  by (auto simp: write_headers_def write_content_def prog_defs http_prog_defs readable_ok bufs_ok_def)

lemma write_data_returns:
  assumes K: "sends_in_order K sent" "always_accepts K" and s: "sm_type s = TCP" and h: "writing h"
  shows "\<exists>st. write_data K prep (h, s, k) = (Inr (), st)"
proof -
  have fill: "fill_data prep (h, s, k) = (Inr (), h, s, k)"
    using h by (auto simp: writing_def fill_data_def prog_defs http_prog_defs)
  have b: "bufs_ok h" using h by (simp add: writing_def)
  have "\<exists>st. send_data K (h, s, k) = (Inr (), st)"
    using write_parts_return(1) [OF K s b, of k]
    by (cases "hm_state h = WRITE_DATA") (auto simp: send_data_def prog_defs http_prog_defs)
  then obtain h1 s1 k1 where d: "send_data K (h, s, k) = (Inr (), h1, s1, k1)" by (metis prod_cases3)
  note bal = balancedD [OF balanced_send_data [OF K(1)] d h s]
  have b1: "bufs_ok h1" "s1 = s" using bal by (simp_all add: writing_def)
  obtain st where "send_content K (h1, s, k1) = (Inr (), st)"
    using write_parts_return(2) [OF K s b1(1), of k1]
    by (cases "hm_state h1 = WRITE_CONTENT") (auto simp: send_content_def prog_defs http_prog_defs)
  with fill d b1(2) show ?thesis by (cases st) (simp add: write_data_def sq_def bnd_def)
qed

lemma write_calls_done:
  assumes K: "sends_in_order K sent" "always_accepts K" and s: "sm_type s = TCP"
  shows "writing h \<Longrightarrow> length (left h) < n \<Longrightarrow> hm_state (fst (write_calls K prep n (h, s, k))) = DONE"
proof (induction n arbitrary: h k)
  case (Suc n)
  obtain r h1 s1 k1 where w: "write_data K prep (h, s, k) = (r, h1, s1, k1)" by (metis prod_cases4)
  note b = balancedD [OF balanced_write_data [OF K(1)] w Suc.prems(1) s]
  have stay: "hm_state (fst (write_calls K prep m (g, s, k))) = DONE" if "hm_state g = DONE" "writing g" for m g k
    using that
  proof (induction m arbitrary: g k)
    case (Suc m)
    then have "write_data K prep (g, s, k) = (Inr (), g, s, k)"
      by (simp add: write_data_def fill_data_def send_data_def send_content_def sq_def bnd_def prog_defs http_prog_defs)
    with Suc show ?case by simp
  qed simp
  have "hm_state h1 = DONE \<or> length (left h1) < n"
    using write_data_accepts [OF K s Suc.prems(1) w] Suc.prems(2) by auto
  then show ?case using Suc.IH [OF b(2)] stay [OF _ b(2)] w b(1) by auto
qed simp

text \<open>Calls until the object is done or one throws; the fuel bounds their number.\<close>

fun write_until ::
  "'k kernel \<Rightarrow> (('z) http_base_scheme \<Rightarrow> ('z) http_base_scheme result) \<Rightarrow> nat \<Rightarrow>
   ('z) http_base_scheme \<times> sock \<times> 'k \<Rightarrow> (unit result \<times> ('z) http_base_scheme \<times> sock \<times> 'k) option" where
  "write_until K prep 0 st = None"
| "write_until K prep (Suc n) st =
     (case write_data K prep st of
        (Inl e, st) \<Rightarrow> Some (Inl e, st)
      | (Inr _, st) \<Rightarrow> if is_done (fst st) then Some (Inr (), st) else write_until K prep n st)"

lemma write_until_done:
  assumes K: "sends_in_order K sent" "always_accepts K" and s: "sm_type s = TCP"
  shows "writing h \<Longrightarrow> \<exists>n h' k'. write_until K prep (Suc n) (h, s, k) = Some (Inr (), (h', s, k')) \<and> is_done h' \<and>
    sent k' (sm_fd s) = sent k (sm_fd s) @ left h"
proof (induction "length (left h)" arbitrary: h k rule: less_induct)
  case less
  obtain h1 s1 k1 where w: "write_data K prep (h, s, k) = (Inr (), h1, s1, k1)"
    using write_data_returns [OF K s less.prems] by (metis prod_cases3)
  note b = balancedD [OF balanced_write_data [OF K(1)] w less.prems s]
  show ?case
  proof (cases "is_done h1")
    case True
    then have "left h1 = []" by (simp add: is_done_def left_def)
    with b w True show ?thesis by (intro exI [of _ 0] exI [of _ h1] exI [of _ k1]) simp
  next
    case False
    then have "length (left h1) < length (left h)"
      using write_data_accepts [OF K s less.prems w] by (simp add: is_done_def)
    from less.hyps [OF this b(2), of k1] obtain n h' k' where
      "write_until K prep (Suc n) (h1, s, k1) = Some (Inr (), (h', s, k'))" "is_done h'"
      "sent k' (sm_fd s) = sent k1 (sm_fd s) @ left h1" by blast
    with w b False show ?thesis by (intro exI [of _ "Suc n"] exI [of _ h'] exI [of _ k']) simp
  qed
qed

lemma write_calls_deliver:
  assumes "sends_in_order K sent" and "sm_type s = TCP"
    and "hm_state h = READY" and "prep h = Inr h1" and "bufs_ok h1"
    and "write_calls K prep n (h, (s, k)) = (h', (s', k'))"
  shows "s' = s \<and> (\<exists>rest. sent k' (sm_fd s) @ rest =
      sent k (sm_fd s) @ unread (hm_data_buffer h1) @ unread (hm_content_buffer h1) \<and>
    (is_done h' \<longrightarrow> rest = []))"
proof (cases "n = 0")
  case True
  with assms show ?thesis by (auto simp: is_done_def)
next
  case False
  let ?h = "h1\<lparr>hm_state := WRITE_DATA\<rparr>"
  have w: "writing ?h" "left ?h = unread (hm_data_buffer h1) @ unread (hm_content_buffer h1)"
    using assms(5) by (simp_all add: writing_def bufs_ok_def left_def)
  have "write_calls K prep n (?h, (s, k)) = (h', (s', k'))"
    using assms(6) False write_calls_ready [of h prep h1 n K "(s, k)"] assms(3,4) by simp
  from balanced_write_calls [OF assms(1) w(1) assms(2) this] w(2)
  show ?thesis by (auto simp: is_done_def left_def intro!: exI [of _ "left h'"])
qed

lemma write_calls_finish:
  assumes "sends_in_order K sent" and "always_accepts K" and "sm_type s = TCP"
    and "hm_state h = READY" and "prep h = Inr h1" and "bufs_ok h1"
    and "length (unread (hm_data_buffer h1)) + length (unread (hm_content_buffer h1)) < n"
  shows "is_done (fst (write_calls K prep n (h, (s, k))))"
proof -
  let ?h = "h1\<lparr>hm_state := WRITE_DATA\<rparr>"
  have "writing ?h" "length (left ?h) < n"
    using assms(6,7) by (simp_all add: writing_def bufs_ok_def left_def)
  with write_calls_done [OF assms(1-3)] show ?thesis
    using write_calls_ready [of h prep h1 n K "(s, k)"] assms(4,5) assms(7) by (simp add: is_done_def)
qed

section \<open>Messages\<close>

text \<open>
  What \<^verbatim>\<open>write_data\<close> relies on of the virtual \<^verbatim>\<open>prepare_data_buffer\<close>: on an object that is fit to be
  sent it fills the data buffer with the head of the message and leaves the content alone. Every class
  of messages provides this; what follows for the wire is proved here once.
\<close>

locale outgoing =
  fixes prep :: "'z http_base_scheme \<Rightarrow> 'z http_base_scheme result"
    and head :: "'z http_base_scheme \<Rightarrow> bytes" and fit :: "'z http_base_scheme \<Rightarrow> bool"
  assumes prep_ok: "fit h \<Longrightarrow> \<exists>h1. prep h = Inr h1 \<and> bufs_ok h1 \<and> unread (hm_data_buffer h1) = head h \<and>
    hm_content_buffer h1 = hm_content_buffer h"
begin

lemma goes_out_in_order:
  assumes "fit h" "hm_state h = READY" "sends_in_order K sent" "sm_type s = TCP"
    and "write_calls K prep n (h, (s, k)) = (h', (s', k'))"
  shows "s' = s \<and> (\<exists>rest. sent k' (sm_fd s) @ rest = sent k (sm_fd s) @ head h @ unread (hm_content_buffer h) \<and>
    (is_done h' \<longrightarrow> rest = []))"
proof -
  obtain h1 where h1: "prep h = Inr h1" "bufs_ok h1" "unread (hm_data_buffer h1) = head h"
    "hm_content_buffer h1 = hm_content_buffer h" using prep_ok [OF assms(1)] by blast
  show ?thesis using write_calls_deliver [where prep = prep, OF assms(3,4,2) h1(1,2) assms(5)] h1(3,4) by simp
qed

lemma goes_out:
  assumes "fit h" "hm_state h = READY" "sends_in_order K sent" "always_accepts K" "sm_type s = TCP"
  shows "\<exists>n h' k'. write_calls K prep n (h, (s, k)) = (h', (s, k')) \<and> is_done h' \<and>
    sent k' (sm_fd s) = sent k (sm_fd s) @ head h @ unread (hm_content_buffer h)"
proof -
  obtain h1 where h1: "prep h = Inr h1" "bufs_ok h1" using prep_ok [OF assms(1)] by blast
  obtain n where n: "length (unread (hm_data_buffer h1)) + length (unread (hm_content_buffer h1)) < n" by blast
  obtain h' s' k' where w: "write_calls K prep n (h, (s, k)) = (h', (s', k'))" by (metis prod_cases3)
  have "is_done h'"
    using write_calls_finish [where prep = prep, OF assms(3-5,2) h1 n, of k] w by simp
  with goes_out_in_order [OF assms(1-3,5) w] w show ?thesis by auto
qed

text \<open>The same with a caller that stops at the first exception and when the object is done.\<close>

lemma goes_out_until_done:
  assumes "fit h" "hm_state h = READY" "sends_in_order K sent" "always_accepts K" "sm_type s = TCP"
  shows "\<exists>n h' k'. write_until K prep n (h, (s, k)) = Some (Inr (), (h', (s, k'))) \<and> is_done h' \<and>
    sent k' (sm_fd s) = sent k (sm_fd s) @ head h @ unread (hm_content_buffer h)"
proof -
  obtain h1 where h1: "prep h = Inr h1" "bufs_ok h1" "unread (hm_data_buffer h1) = head h"
    "hm_content_buffer h1 = hm_content_buffer h" using prep_ok [OF assms(1)] by blast
  let ?h = "h1\<lparr>hm_state := WRITE_DATA\<rparr>"
  have w: "writing ?h" "left ?h = head h @ unread (hm_content_buffer h)"
    using h1 by (simp_all add: writing_def bufs_ok_def left_def)
  obtain n h' k' where "write_until K prep (Suc n) (?h, (s, k)) = Some (Inr (), (h', (s, k')))" "is_done h'"
    "sent k' (sm_fd s) = sent k (sm_fd s) @ left ?h"
    using write_until_done [OF assms(3-5) w(1), of prep k] by blast
  moreover have "write_until K prep (Suc n) (h, (s, k)) = write_until K prep (Suc n) (?h, (s, k))"
    using write_data_ready [of h prep h1 K "(s, k)", OF assms(2) h1(1)] by simp
  ultimately show ?thesis unfolding w(2) by metis
qed

end

text \<open>\<^verbatim>\<open>boost::iequals\<close> in the classic locale, to evaluate the model with.\<close>

definition ascii_lower :: "char \<Rightarrow> char" where
  "ascii_lower c = (if 65 \<le> (of_char c :: nat) \<and> (of_char c :: nat) \<le> 90 then char_of ((of_char c :: nat) + 32) else c)"

definition ascii_iequals :: "string \<Rightarrow> string \<Rightarrow> bool" where
  "ascii_iequals a b \<longleftrightarrow> map ascii_lower a = map ascii_lower b"

section \<open>Properties\<close>

text \<open>
  C14: \<^verbatim>\<open>write_data\<close> delivers. Called any number of times on a connected stream socket, from a
  freshly prepared object, whatever the kernel accepts per call and whichever calls throw, the bytes
  that have left the socket are a prefix of the prepared data buffer followed by the content: none is
  lost, repeated or reordered; and when the object reports that it is done, all of them have left.
\<close>

theorem write_data_delivers:
  assumes "sends_in_order K sent" and "sm_type s = TCP"
    and "hm_state h = READY" and "prep h = Inr h1" and "bufs_ok h1"
    and "write_calls K prep n (h, (s, k)) = (h', (s', k'))"
  shows "s' = s \<and> (\<exists>rest. sent k' (sm_fd s) @ rest =
      sent k (sm_fd s) @ unread (hm_data_buffer h1) @ unread (hm_content_buffer h1) \<and>
    (is_done h' \<longrightarrow> rest = []))"
  by (rule write_calls_deliver [OF assms])

theorem write_data_delivers_witness:
  "\<exists>h' s' k'. write_calls script_kernel (\<lambda>h. Inr (h\<lparr>hm_data_buffer := \<lparr>m_buffer = ''abc'', m_size = 3, gptr = 0, pptr = 3\<rparr>\<rparr>)) 2
      (http_base_new, (socket_of_fd 3, script_start [2, -5, 1] [] [])) = (h', (s', k')) \<and>
     (\<exists>rest. sc_sent k' 3 @ rest = ''abc'')"
proof -
  obtain h' s' k' where w: "write_calls script_kernel (\<lambda>h. Inr (h\<lparr>hm_data_buffer := \<lparr>m_buffer = ''abc'', m_size = 3, gptr = 0, pptr = 3\<rparr>\<rparr>)) 2
      (http_base_new, (socket_of_fd 3, script_start [2, -5, 1] [] [])) = (h', (s', k'))" by (metis prod_cases3)
  from write_data_delivers [OF script_sends _ _ _ _ w] show ?thesis
    using w by (auto simp: socket_of_fd_def http_base_new_def bufs_ok_def buffer_ok_def buffer_new_def
        unread_def script_start_def)
qed

text \<open>
  C15: if the socket takes at least one byte whenever it is written to, the object is done after at
  most one call more than there are bytes to send.
\<close>

theorem write_data_finishes:
  assumes "sends_in_order K sent" and "always_accepts K" and "sm_type s = TCP"
    and "hm_state h = READY" and "prep h = Inr h1" and "bufs_ok h1"
    and "length (unread (hm_data_buffer h1)) + length (unread (hm_content_buffer h1)) < n"
  shows "is_done (fst (write_calls K prep n (h, (s, k))))"
  by (rule write_calls_finish [where h = h and ?h1.0 = h1]) (use assms in auto)

text \<open>A kernel that takes everything.\<close>

definition eager_kernel :: "script kernel" where
  "eager_kernel = script_kernel\<lparr>k_sendto := (\<lambda>fd data a k.
     (int (length data), k\<lparr>sc_sent := (sc_sent k)(fd := sc_sent k fd @ data)\<rparr>))\<rparr>"

lemma eager_ok: "sends_in_order eager_kernel sc_sent" "always_accepts eager_kernel"
  by (simp_all add: eager_kernel_def sends_in_order_def always_accepts_def)

theorem write_data_finishes_witness:
  "is_done (fst (write_calls eager_kernel (\<lambda>h. Inr (h\<lparr>hm_data_buffer := \<lparr>m_buffer = ''abc'', m_size = 3, gptr = 0, pptr = 3\<rparr>\<rparr>)) 4
     (http_base_new, (socket_of_fd 3, script_start [] [] []))))"
  by (rule write_data_finishes [OF eager_ok])
     (auto simp: socket_of_fd_def http_base_new_def bufs_ok_def buffer_ok_def buffer_new_def unread_def)

end
