(* ===== verification/Http_Request.thy ===== *)
theory Http_Request
  imports Http_Base
begin

text \<open>
  HTTP requests (\<^verbatim>\<open>include/tasks/net/http_request.h\<close>, \<^verbatim>\<open>tasks/net/http_request.cpp\<close>): the
  object and its serialisation.
\<close>

section \<open>The object\<close>

record http_request = http_base +
  rm_host :: string
  rm_url :: string
  rm_port :: int

definition CRLF :: bytes where
  "CRLF = [CHR 0x0D, CHR 0x0A]"

definition init_default_headers :: "('z) http_base_scheme \<Rightarrow> ('z) http_base_scheme" where
  "init_default_headers h = h\<lparr>hm_headers := AList.update ''User-Agent'' ''libtasks'' (hm_headers h)\<rparr>"

definition http_request_new :: "string \<Rightarrow> string \<Rightarrow> int \<Rightarrow> http_request" where
  "http_request_new host url port =
     init_default_headers \<lparr>hm_data_buffer = buffer_new, hm_content_buffer = buffer_new, hm_state = READY,
       hm_headers = [(''Host'', host)], hm_content_length = 0, rm_host = host, rm_url = url, rm_port = port\<rparr>"

definition set_host :: "string \<Rightarrow> http_request \<Rightarrow> http_request" where
  "set_host host h = h\<lparr>rm_host := host\<rparr>"

definition set_url :: "string \<Rightarrow> http_request \<Rightarrow> http_request" where
  "set_url url h = h\<lparr>rm_url := url\<rparr>"

definition set_port :: "int \<Rightarrow> http_request \<Rightarrow> http_request" where
  "set_port port h = h\<lparr>rm_port := port\<rparr>"

definition request_clear :: "http_request \<Rightarrow> http_request" where
  "request_clear h =
     (let h = init_default_headers (http_clear h)
      in h\<lparr>hm_headers := AList.update ''Host'' (rm_host h) (hm_headers h)\<rparr>)"

section \<open>Serialisation\<close>

text \<open>The writes of one header line.\<close>

definition header_writes :: "string \<times> string \<Rightarrow> bytes list" where
  "header_writes kv = [fst kv, '': '', snd kv, CRLF]"

definition request_prepare :: "(headers_t \<Rightarrow> headers_t) \<Rightarrow> http_request \<Rightarrow> http_request result" where
  "request_prepare order h =
     rbind (assert_that (rm_url h \<noteq> [])) (\<lambda>_.
       let n = m_size (hm_content_buffer h);
           ctlen = (if n \<noteq> 0 then ''Content-Length: '' @ to_string n else []);
           writes = [if n \<noteq> 0 then ''POST '' else ''GET '', rm_url h, '' HTTP/1.1'', CRLF] @
                    concat (map header_writes (order (hm_headers h))) @ [ctlen, CRLF, CRLF]
       in map_sum id (\<lambda>b. h\<lparr>hm_data_buffer := b\<rparr>) (put_all buffer_write writes (hm_data_buffer h)))"

section \<open>Properties\<close>

definition header_line :: "string \<times> string \<Rightarrow> bytes" where
  "header_line kv = fst kv @ '': '' @ snd kv @ CRLF"

lemma concat_header_writes:
  "concat (concat (map header_writes kvs)) = concat (map header_line kvs)"
  by (induction kvs) (simp_all add: header_writes_def header_line_def)

lemma request_prepare_ok:
  assumes "append_ok (hm_data_buffer h)" and "rm_url h \<noteq> []"
  shows "\<exists>b. request_prepare order h = Inr (h\<lparr>hm_data_buffer := b\<rparr>) \<and> append_ok b \<and>
    unread b = unread (hm_data_buffer h) @
      (if m_size (hm_content_buffer h) \<noteq> 0 then ''POST '' else ''GET '') @ rm_url h @ '' HTTP/1.1'' @ CRLF @
      concat (map header_line (order (hm_headers h))) @
      (if m_size (hm_content_buffer h) \<noteq> 0
       then ''Content-Length: '' @ to_string (m_size (hm_content_buffer h)) else []) @ CRLF @ CRLF"
proof -
  let ?n = "m_size (hm_content_buffer h)"
  let ?w = "[if ?n \<noteq> 0 then ''POST '' else ''GET '', rm_url h, '' HTTP/1.1'', CRLF] @
    concat (map header_writes (order (hm_headers h))) @
    [if ?n \<noteq> 0 then ''Content-Length: '' @ to_string ?n else [], CRLF, CRLF]"
  obtain b where b: "put_all buffer_write ?w (hm_data_buffer h) = Inr b" "append_ok b"
    "unread b = unread (hm_data_buffer h) @ concat ?w"
    using buf.put_all_concat [OF assms(1)] by blast
  have "request_prepare order h = Inr (h\<lparr>hm_data_buffer := b\<rparr>)"
    using assms(2) b(1) unfolding request_prepare_def Let_def by simp
  with b(2,3) show ?thesis by (intro exI [of _ b]) (simp add: concat_header_writes)
qed

text \<open>The head of a request on the wire.\<close>

definition request_head :: "(headers_t \<Rightarrow> headers_t) \<Rightarrow> http_request \<Rightarrow> bytes" where
  "request_head order h =
     (if m_size (hm_content_buffer h) \<noteq> 0 then ''POST '' else ''GET '') @ rm_url h @ '' HTTP/1.1'' @ CRLF @
      concat (map header_line (order (hm_headers h))) @
      (if m_size (hm_content_buffer h) \<noteq> 0
       then ''Content-Length: '' @ to_string (m_size (hm_content_buffer h)) else []) @ CRLF @ CRLF"

definition request_fit :: "http_request \<Rightarrow> bool" where
  "request_fit h \<longleftrightarrow> append_ok (hm_data_buffer h) \<and> unread (hm_data_buffer h) = [] \<and>
     buffer_ok (hm_content_buffer h) \<and> rm_url h \<noteq> []"

interpretation rq: outgoing "request_prepare order" "request_head order" request_fit
  for order :: "headers_t \<Rightarrow> headers_t"
proof
  fix h
  assume "request_fit h"
  then show "\<exists>h1. request_prepare order h = Inr h1 \<and> bufs_ok h1 \<and> unread (hm_data_buffer h1) = request_head order h \<and>
      hm_content_buffer h1 = hm_content_buffer h"
    using request_prepare_ok [of h order] by (auto simp: request_fit_def request_head_def bufs_ok_def append_ok_ok)
qed

definition prepared_request :: "string \<Rightarrow> string \<Rightarrow> int \<Rightarrow> bytes \<Rightarrow> http_request result" where
  "prepared_request host url port body = map_sum id snd (http_write body (http_request_new host url port))"

lemma http_request_new_sel [simp]:
  "hm_data_buffer (http_request_new host url port) = buffer_new"
  "hm_content_buffer (http_request_new host url port) = buffer_new"
  "hm_state (http_request_new host url port) = READY" "rm_url (http_request_new host url port) = url"
  "hm_headers (http_request_new host url port) = [(''Host'', host), (''User-Agent'', ''libtasks'')]"
  by (simp_all add: http_request_new_def init_default_headers_def)

lemma prepared_request_ok:
  "\<exists>h. prepared_request host url port body = Inr h \<and> append_ok (hm_content_buffer h) \<and>
     unread (hm_content_buffer h) = body \<and> m_size (hm_content_buffer h) = length body \<and>
     hm_data_buffer h = buffer_new \<and> hm_state h = READY \<and> rm_url h = url \<and>
     hm_headers h = [(''Host'', host), (''User-Agent'', ''libtasks'')]"
  using buffer_write_append [of buffer_new body]
  by (auto simp: prepared_request_def http_write_def)

text \<open>
  The wire form of a request with a body. Preparing and writing a new request with content on a
  writable stream socket sends exactly the request line, one line per header in the map's order, a
  Content-Length line with the body's length, the empty line, and the body.
\<close>

theorem post_on_the_wire:
  assumes "sends_in_order K sent" and "always_accepts K" and "sm_type s = TCP"
    and "url \<noteq> []" and "body \<noteq> []" and "order [(''Host'', host), (''User-Agent'', ''libtasks'')] = hs"
  shows "\<exists>h n h' k'. prepared_request host url port body = Inr h \<and>
    write_calls K (request_prepare order) n (h, (s, k)) = (h', (s, k')) \<and> is_done h' \<and>
    sent k' (sm_fd s) = sent k (sm_fd s) @ ''POST '' @ url @ '' HTTP/1.1'' @ CRLF @
      concat (map header_line hs) @ ''Content-Length: '' @ to_string (length body) @ CRLF @ CRLF @ body"
proof -
  obtain h where h: "prepared_request host url port body = Inr h" "append_ok (hm_content_buffer h)"
    "unread (hm_content_buffer h) = body" "m_size (hm_content_buffer h) = length body"
    "hm_data_buffer h = buffer_new" "hm_state h = READY" "rm_url h = url"
    "hm_headers h = [(''Host'', host), (''User-Agent'', ''libtasks'')]"
    using prepared_request_ok by blast
  have "request_fit h" using h assms(4) by (simp add: request_fit_def append_ok_ok)
  from rq.goes_out [OF this h(6) assms(1-3), of order k] h assms(5,6) show ?thesis
    by (auto simp: request_head_def)
qed

theorem post_on_the_wire_witness:
  "\<exists>h n h' k'. prepared_request ''h'' ''/'' 80 ''xy'' = Inr h \<and>
    write_calls eager_kernel (request_prepare rev) n (h, (socket_of_fd 3, script_start [] [] [])) =
      (h', (socket_of_fd 3, k')) \<and> is_done h' \<and>
    sc_sent k' 3 = ''POST / HTTP/1.1'' @ CRLF @ ''User-Agent: libtasks'' @ CRLF @ ''Host: h'' @ CRLF @
      ''Content-Length: '' @ to_string 2 @ CRLF @ CRLF @ ''xy''"
  using post_on_the_wire [OF eager_ok, of "socket_of_fd 3" "''/''" "''xy''" rev "''h''"
      "[(''User-Agent'', ''libtasks''), (''Host'', ''h'')]" 80 "script_start [] [] []"]
  by (simp add: socket_of_fd_def script_start_def header_line_def numeral_2_eq_2)

text \<open>
  A request without content is written with one line break too many: after the empty line that
  ends the header section it sends another one, whatever the headers.
\<close>

theorem get_sends_extra_line:
  assumes "url \<noteq> []"
  shows "\<exists>b. request_prepare order (http_request_new host url port) =
      Inr ((http_request_new host url port)\<lparr>hm_data_buffer := b\<rparr>) \<and>
    unread b = (''GET '' @ url @ '' HTTP/1.1'' @ CRLF @
      concat (map header_line (order [(''Host'', host), (''User-Agent'', ''libtasks'')])) @ CRLF) @ CRLF"
  using request_prepare_ok [of "http_request_new host url port" order] assms by auto

theorem get_sends_extra_line_witness:
  "\<exists>b. request_prepare id (http_request_new ''h'' ''/'' 80) =
      Inr ((http_request_new ''h'' ''/'' 80)\<lparr>hm_data_buffer := b\<rparr>) \<and>
    unread b = ''GET / HTTP/1.1'' @ CRLF @ ''Host: h'' @ CRLF @ ''User-Agent: libtasks'' @ CRLF @ CRLF @ CRLF"
  using get_sends_extra_line [of "''/''" "id" "''h''" 80] by (simp add: header_line_def)

text \<open>
  After \<^verbatim>\<open>clear\<close> a request is as good as new: whatever it was used for, its buffers are empty and
  writable at the start, its state is ready, and its headers are those of a new request for its host.
\<close>

theorem request_clear_resets:
  "(let c = request_clear h in
     append_ok (hm_data_buffer c) \<and> append_ok (hm_content_buffer c) \<and>
     unread (hm_data_buffer c) = [] \<and> unread (hm_content_buffer c) = [] \<and>
     m_size (hm_content_buffer c) = 0 \<and> hm_state c = READY \<and> hm_content_length c = 0 \<and>
     map_of (hm_headers c) = [''Host'' \<mapsto> rm_host h, ''User-Agent'' \<mapsto> ''libtasks''] \<and>
     distinct (map fst (hm_headers c)) \<and>
     rm_host c = rm_host h \<and> rm_url c = rm_url h \<and> rm_port c = rm_port h)"
  by (simp add: Let_def request_clear_def init_default_headers_def http_clear_def fun_eq_iff)
     (simp add: buffer_clear_def)

end
