(* ===== verification/Http_Response.thy ===== *)
theory Http_Response
  imports Http_Request
begin

text \<open>
  HTTP responses (\<^verbatim>\<open>include/tasks/net/http_response.h\<close>, \<^verbatim>\<open>tasks/net/http_response.cpp\<close>): the
  object, its serialisation, and the parser, which works in place on the zero terminated bytes of the
  content buffer with the functions of \<^verbatim>\<open><cstring>\<close>.
\<close>

section \<open>The object\<close>

record http_response = http_base +
  pm_status :: string
  pm_status_code :: int
  pm_line_number :: int
  pm_last_line_start :: nat
  pm_content_start :: nat
  pm_content_length_exists :: bool
  pm_chunked_enc :: bool

text \<open>The constructor leaves \<^verbatim>\<open>m_status_code\<close> uninitialised: \<open>garbage\<close> is what the memory holds.\<close>

definition http_response_new :: "int \<Rightarrow> http_response" where
  "http_response_new garbage = \<lparr>hm_data_buffer = buffer_new, hm_content_buffer = buffer_new, hm_state = READY,
     hm_headers = [], hm_content_length = 0, pm_status = [], pm_status_code = garbage, pm_line_number = 0,
     pm_last_line_start = 0, pm_content_start = 0, pm_content_length_exists = False, pm_chunked_enc = False\<rparr>"

definition set_status :: "string \<Rightarrow> http_response \<Rightarrow> http_response" where
  "set_status status h = h\<lparr>pm_status := status, pm_status_code := atoi status\<rparr>"

definition response_clear :: "http_response \<Rightarrow> http_response" where
  "response_clear h = (http_clear h)\<lparr>pm_status := [], pm_line_number := 0, pm_last_line_start := 0,
     pm_content_start := 0, pm_content_length_exists := False, pm_chunked_enc := False\<rparr>"

definition response_prepare :: "(headers_t \<Rightarrow> headers_t) \<Rightarrow> http_response \<Rightarrow> http_response result" where
  "response_prepare order h =
     (let ct = ''Content-Length: '' @ to_string (m_size (hm_content_buffer h));
          writes = [''HTTP/1.1 '', pm_status h, CRLF] @ concat (map header_writes (order (hm_headers h))) @
                   [ct, CRLF, CRLF]
      in map_sum id (\<lambda>b. h\<lparr>hm_data_buffer := b\<rparr>) (put_all buffer_write writes (hm_data_buffer h)))"

section \<open>C strings in the content buffer\<close>

text \<open>The C string at an index of a vector: its end must be found before the end of the memory.\<close>

definition c_string :: "bytes \<Rightarrow> nat \<Rightarrow> string result" where
  "c_string v i = (if i \<le> length v \<and> CHR 0x00 \<in> set (drop i v)
     then Inr (takeWhile (\<lambda>c. c \<noteq> CHR 0x00) (drop i v)) else Inl Memory)"

fun find_char :: "char \<Rightarrow> string \<Rightarrow> nat option" where
  "find_char c [] = None"
| "find_char c (x # xs) = (if x = c then Some 0 else map_option Suc (find_char c xs))"

fun find_crlf :: "string \<Rightarrow> nat option" where
  "find_crlf (x # y # xs) =
     (if x = CHR 0x0D \<and> y = CHR 0x0A then Some 0 else map_option Suc (find_crlf (y # xs)))"
| "find_crlf _ = None"

definition strchr :: "bytes \<Rightarrow> nat \<Rightarrow> char \<Rightarrow> nat option result" where
  "strchr v i c = rbind (c_string v i) (\<lambda>s. Inr (map_option ((+) i) (find_char c s)))"

definition strstr_crlf :: "bytes \<Rightarrow> nat \<Rightarrow> nat option result" where
  "strstr_crlf v i = rbind (c_string v i) (\<lambda>s. Inr (map_option ((+) i) (find_crlf s)))"

section \<open>The parser\<close>

type_synonym 'a response_prog = "(http_response, 'a) prog"

definition vec :: "http_response \<Rightarrow> bytes" where
  "vec h = m_buffer (hm_content_buffer h)"

definition lift_result :: "'a result \<Rightarrow> ('s, 'a) prog" where
  "lift_result r s = (r, s)"

definition query :: "(http_response \<Rightarrow> 'a result) \<Rightarrow> 'a response_prog" where
  "query f = (\<lambda>h. (f h, h))"

definition cptr :: "nat \<Rightarrow> nat response_prog" where
  "cptr pos = query (\<lambda>h. ptr pos (hm_content_buffer h))"

definition load :: "nat \<Rightarrow> char response_prog" where
  "load i = query (\<lambda>h. if i < length (vec h) then Inr (vec h ! i) else Inl Memory)"

definition poke :: "nat \<Rightarrow> char \<Rightarrow> unit response_prog" where
  "poke i c = (\<lambda>h. case store i [c] (hm_content_buffer h) of
     Inl e \<Rightarrow> (Inl e, h) | Inr b \<Rightarrow> (Inr (), h\<lparr>hm_content_buffer := b\<rparr>))"

definition parse_status :: "unit response_prog" where
  "parse_status =
     bnd (gets pm_last_line_start) (\<lambda>lls.
     bnd (cptr (lls + 5)) (\<lambda>p.
     bnd (query (\<lambda>h. strchr (vec h) p CHR '' '')) (\<lambda>space.
       case space of
         None \<Rightarrow> fails Memory
       | Some j \<Rightarrow>
           bnd (query (\<lambda>h. c_string (vec h) (j + 1))) (\<lambda>status.
           sq (modify (\<lambda>h. h\<lparr>pm_status := status, pm_status_code := atoi status\<rparr>))
              (if atoi status < 100 \<or> atoi status > 999
               then fails (Thrown (tasks_exception_msg HTTP_INVALID_STATUS_CODE
                      (''http_response: Invalid status code '' @ int_to_string (atoi status))))
               else ret ())))))"

text \<open>\<^verbatim>\<open>do { eq++; } while (*eq == ' ')\<close>: the first byte after index \<open>i\<close> that is not a blank.\<close>

definition skip_blanks :: "nat \<Rightarrow> nat response_prog" where
  "skip_blanks i = query (\<lambda>h.
     let rest = drop (i + 1) (vec h); n = length (takeWhile (\<lambda>c. c = CHR '' '') rest)
     in if n < length rest then Inr (i + 1 + n) else Inl Memory)"

definition insert_header ::
  "(string \<Rightarrow> string \<Rightarrow> bool) \<Rightarrow> string \<Rightarrow> string \<Rightarrow> http_response \<Rightarrow> http_response" where
  "insert_header iequals name val h =
     (if name \<in> fst ` set (hm_headers h) then h
      else let h = h\<lparr>hm_headers := hm_headers h @ [(name, val)]\<rparr>
           in if iequals name ''Content-Length''
              then h\<lparr>hm_content_length := to_size (atoi val), pm_content_length_exists := True\<rparr>
              else if iequals name ''Transfer-Encoding'' \<and> val = ''chunked''
              then h\<lparr>pm_chunked_enc := True\<rparr>
              else h)"

definition parse_header :: "(string \<Rightarrow> string \<Rightarrow> bool) \<Rightarrow> unit response_prog" where
  "parse_header iequals =
     bnd (gets pm_last_line_start) (\<lambda>lls.
     bnd (cptr lls) (\<lambda>p.
     bnd (query (\<lambda>h. strchr (vec h) p CHR '':'')) (\<lambda>eq.
       case eq of
         Some j \<Rightarrow>
           sq (poke j (CHR 0x00))
          (bnd (skip_blanks j) (\<lambda>v.
           bnd (query (\<lambda>h. c_string (vec h) p)) (\<lambda>name.
           bnd (query (\<lambda>h. c_string (vec h) v)) (\<lambda>val.
           modify (insert_header iequals name val)))))
       | None \<Rightarrow>
           bnd (query (\<lambda>h. c_string (vec h) p)) (\<lambda>line.
           fails (Thrown (tasks_exception_msg HTTP_INVALID_HEADER
                    (''http_response: Invalid header: '' @ line)))))))"

definition parse_line :: "(string \<Rightarrow> string \<Rightarrow> bool) \<Rightarrow> unit response_prog" where
  "parse_line iequals =
     sq (bnd (gets pm_line_number) (\<lambda>n. if n = 0 then parse_status else parse_header iequals))
        (modify (\<lambda>h. h\<lparr>pm_line_number := pm_line_number h + 1\<rparr>))"

text \<open>One round of the loop of \<^verbatim>\<open>parse_data\<close>; it returns the loop's condition.\<close>

definition parse_round :: "(string \<Rightarrow> string \<Rightarrow> bool) \<Rightarrow> bool response_prog" where
  "parse_round iequals =
     bnd (gets pm_last_line_start) (\<lambda>lls0.
     bnd (cptr lls0) (\<lambda>p0.
     bnd (load p0) (\<lambda>c.
     sq (if c = CHR 0x0A then modify (\<lambda>h. h\<lparr>pm_last_line_start := pm_last_line_start h + 1\<rparr>) else ret ())
    (bnd (gets pm_last_line_start) (\<lambda>lls.
     bnd (cptr lls) (\<lambda>p.
     bnd (query (\<lambda>h. strstr_crlf (vec h) p)) (\<lambda>eol.
       case eol of
         None \<Rightarrow> ret False
       | Some e \<Rightarrow>
           (if e \<noteq> p
            then sq (poke e (CHR 0x00))
                (sq (parse_line iequals)
                (sq (modify (\<lambda>h. h\<lparr>pm_last_line_start := pm_last_line_start h + (e - p) + 1\<rparr>))
                    (gets (\<lambda>h. pm_content_start h = 0))))
            else bnd (gets pm_chunked_enc) (\<lambda>chunked.
                 bnd (gets pm_content_length_exists) (\<lambda>cl.
                   if chunked
                   then fails (Thrown (tasks_exception_msg HTTP_NOT_IMPL
                     ''http_response: Chunked transfer encoding needs to be implemented!''))
                   else if \<not> cl
                   then fails (Thrown (tasks_exception_msg HTTP_NO_CONTENT_LENGTH
                     ''http_response: Invalid response: Content-Length header missing''))
                   else
                     sq (modify (\<lambda>h. h\<lparr>pm_content_start := lls + 1\<rparr>))
                    (bnd (cptr (lls + 1)) (\<lambda>q.
                     bnd (load q) (\<lambda>c.
                     sq (if c = CHR 0x0A then modify (\<lambda>h. h\<lparr>pm_content_start := pm_content_start h + 1\<rparr>) else ret ())
                    (sq (modify (\<lambda>h. h\<lparr>hm_state := READ_CONTENT\<rparr>))
                        (gets (\<lambda>h. pm_content_start h = 0))))))))))))))))"

lemmas resp_defs = query_def cptr_def load_def poke_def vec_def lift_result_def

text \<open>The length of the memory never changes while parsing, and a round that goes on has moved on.\<close>

lemma find_char_less: "find_char c s = Some j \<Longrightarrow> j < length s"
  by (induction s arbitrary: j) (auto split: if_splits)

lemma find_crlf_less: "find_crlf s = Some j \<Longrightarrow> Suc j < length s"
  by (induction s arbitrary: j rule: find_crlf.induct) (auto split: if_splits)

lemma c_string_length: "c_string v i = Inr s \<Longrightarrow> i + length s < length v"
proof -
  assume "c_string v i = Inr s"
  then have s: "s = takeWhile (\<lambda>c. c \<noteq> CHR 0x00) (drop i v)" "i \<le> length v" "CHR 0x00 \<in> set (drop i v)"
    by (auto simp: c_string_def split: if_splits)
  have "length s \<noteq> length (drop i v)"
    using s(1,3) by (metis (mono_tags, lifting) takeWhile_eq_all_conv takeWhile_eq_take take_all_iff le_refl)
  moreover have "length s \<le> length (drop i v)" unfolding s(1) by (rule length_takeWhile_le)
  ultimately show ?thesis using s(2) by simp
qed

definition mem_size :: "http_response \<Rightarrow> nat" where
  "mem_size h = length (m_buffer (hm_content_buffer h))"

text \<open>Running a part leaves the size of the memory, the line start and the content start alone.\<close>

definition steady :: "'a response_prog \<Rightarrow> bool" where
  "steady m \<longleftrightarrow> (\<forall>h. let h' = snd (m h) in mem_size h' = mem_size h \<and>
     pm_last_line_start h' = pm_last_line_start h \<and> m_size (hm_content_buffer h') = m_size (hm_content_buffer h))"

lemma steady_bnd: "steady m \<Longrightarrow> (\<And>a. steady (f a)) \<Longrightarrow> steady (bnd m f)"
  by (auto simp: steady_def bnd_def Let_def split: prod.splits sum.splits) (metis snd_conv)+

lemma steady_sq: "steady m \<Longrightarrow> steady n \<Longrightarrow> steady (sq m n)"
  by (simp add: sq_def steady_bnd)

lemma steady_basic [simp]:
  "steady (query f)" "steady (gets g)" "steady (ret a)" "steady (fails e)" "steady (cptr i)" "steady (load i)"
  "steady (poke i c)" "steady (skip_blanks i)"
  by (auto simp: steady_def resp_defs prog_defs Let_def mem_size_def store_def mem_simps skip_blanks_def
      split: sum.splits)

lemma steady_parse_line: "steady (parse_line iequals)"
proof -
  have m: "steady (modify f)" if "\<And>h. hm_content_buffer (f h) = hm_content_buffer h"
    "\<And>h. pm_last_line_start (f h) = pm_last_line_start h" for f
    using that by (simp add: steady_def modify_def mem_size_def)
  have "steady parse_status"
    unfolding parse_status_def by (intro steady_bnd steady_sq) (auto split: option.splits intro!: steady_bnd steady_sq m)
  moreover have "steady (parse_header iequals)"
    unfolding parse_header_def
    by (intro steady_bnd) (auto split: option.splits intro!: steady_bnd steady_sq m simp: insert_header_def Let_def)
  ultimately show ?thesis
    unfolding parse_line_def by (intro steady_sq steady_bnd) (auto intro: m)
qed

lemma query_Inr: "query f h = (Inr a, h') \<longleftrightarrow> f h = Inr a \<and> h' = h"
  by (auto simp: query_def)

lemma cptr_Inr: "cptr i h = (Inr a, h') \<longleftrightarrow> i \<le> m_size (hm_content_buffer h) \<and> a = i \<and> h' = h"
  by (auto simp: cptr_def query_def ptr_def)

lemma modify_Inr: "modify f h = (Inr u, h') \<longleftrightarrow> h' = f h"
  by (auto simp: modify_def)

lemma ret_Inr: "ret a h = (Inr b, h') \<longleftrightarrow> b = a \<and> h' = h"
  by (auto simp: ret_def)

lemmas resp_Inr = bnd_Inr sq_Inr gets_Inr fails_Inr query_Inr cptr_Inr modify_Inr ret_Inr

lemma strstr_crlf_bounds:
  "strstr_crlf v i = Inr (Some e) \<Longrightarrow> i \<le> e \<and> Suc e < length v"
  by (auto simp: strstr_crlf_def dest!: c_string_length find_crlf_less)

lemma steadyD:
  "steady m \<Longrightarrow> m h = (r, h') \<Longrightarrow> mem_size h' = mem_size h \<and>
     pm_last_line_start h' = pm_last_line_start h \<and> m_size (hm_content_buffer h') = m_size (hm_content_buffer h)"
  by (metis snd_conv steady_def)

lemma parse_round_moves:
  assumes "parse_round iequals h = (Inr True, h')"
  shows "mem_size h' = mem_size h \<and> pm_last_line_start h < pm_last_line_start h' \<and>
    pm_last_line_start h' < mem_size h"
proof -
  define lls where "lls = pm_last_line_start h + (if vec h ! pm_last_line_start h = CHR 0x0A then 1 else 0)"
  let ?h = "h\<lparr>pm_last_line_start := lls\<rparr>"
  from assms obtain e h1 h2 where e: "strstr_crlf (vec h) lls = Inr (Some e)" "e \<noteq> lls"
    and p: "poke e (CHR 0x00) ?h = (Inr (), h1)" "parse_line iequals h1 = (Inr (), h2)"
    and h': "h' = h2\<lparr>pm_last_line_start := pm_last_line_start h2 + (e - lls) + 1\<rparr>"
    unfolding parse_round_def
    by (auto simp: resp_Inr load_def vec_def lls_def split: if_splits option.splits)
  have "mem_size h1 = mem_size h \<and> pm_last_line_start h1 = lls"
    using steadyD [OF steady_basic(7) p(1)] by (simp add: mem_size_def)
  with steadyD [OF steady_parse_line p(2)] have "mem_size h2 = mem_size h" "pm_last_line_start h2 = lls" by auto
  moreover have "lls \<le> e" "Suc e < mem_size h"
    using strstr_crlf_bounds [OF e(1)] by (auto simp: mem_size_def vec_def)
  moreover have "pm_last_line_start h \<le> lls" by (simp add: lls_def)
  ultimately show ?thesis using e(2) by (simp add: h' mem_size_def)
qed

function parse_data :: "(string \<Rightarrow> string \<Rightarrow> bool) \<Rightarrow> unit response_prog" where
  "parse_data iequals h =
     (case parse_round iequals h of
        (Inl e, h') \<Rightarrow> (Inl e, h')
      | (Inr again, h') \<Rightarrow> if again then parse_data iequals h' else (Inr (), h'))"
  by pat_completeness auto
termination
proof (relation "measure (\<lambda>(_, h). mem_size h - pm_last_line_start h)")
  fix iequals h r h' again
  assume "(r, h') = parse_round iequals h" "r = Inr again" "again"
  then show "((iequals, h'), (iequals, h)) \<in> measure (\<lambda>(_, h). mem_size h - pm_last_line_start h)"
    using parse_round_moves [of iequals h h'] by auto
qed simp

declare parse_data.simps [simp del]

section \<open>Reading from a socket\<close>

definition READ_BUFFER_SIZE_BLOCK :: nat where
  "READ_BUFFER_SIZE_BLOCK = 4096"

definition resp :: "'a response_prog \<Rightarrow> (http_response, 'k, 'a) http_prog" where
  "resp m = (\<lambda>(h, st). case m h of (r, h') \<Rightarrow> (r, (h', st)))"

definition content_op :: "(buffer \<Rightarrow> buffer result) \<Rightarrow> unit response_prog" where
  "content_op f = (\<lambda>h. case f (hm_content_buffer h) of
     Inl e \<Rightarrow> (Inl e, h) | Inr b \<Rightarrow> (Inr (), h\<lparr>hm_content_buffer := b\<rparr>))"

text \<open>
  One round of the loop of \<^verbatim>\<open>read_data\<close>; it returns the loop's condition. The kernel stores the bytes
  it returns at \<^verbatim>\<open>ptr_write()\<close>.
\<close>

definition make_room :: "int response_prog" where
  "make_room =
     bnd (gets (\<lambda>h. to_write (hm_content_buffer h) - 1)) (\<lambda>towrite.
       if towrite < int READ_BUFFER_SIZE_BLOCK - 1
       then sq (content_op (\<lambda>b. set_size (buffer_size b + READ_BUFFER_SIZE_BLOCK) b))
               (gets (\<lambda>h. to_write (hm_content_buffer h) - 1))
       else ret towrite)"

definition received :: "(string \<Rightarrow> string \<Rightarrow> bool) \<Rightarrow> nat \<Rightarrow> unit response_prog" where
  "received iequals bytes =
     sq (content_op (\<lambda>b. Inr (move_ptr_write bytes b)))
    (sq (bnd (gets hm_state) (\<lambda>st.
           if st = READ_DATA
           then sq (bnd (gets (pptr \<circ> hm_content_buffer)) (\<lambda>i. poke i (CHR 0x00))) (parse_data iequals)
           else ret ()))
        (bnd (gets (\<lambda>h. hm_content_length h =
                to_size (int (offset_write (hm_content_buffer h)) - int (pm_content_start h)))) (\<lambda>complete.
           if complete
           then sq (bnd (gets (pptr \<circ> hm_content_buffer)) (\<lambda>i. poke i (CHR 0x00)))
               (bnd (gets (\<lambda>h. (pm_content_start h, hm_content_length h))) (\<lambda>(start, len).
                sq (content_op (set_size (start + len)))
               (sq (content_op (move_ptr_read_abs start))
                   (modify (\<lambda>h. h\<lparr>hm_state := DONE\<rparr>)))))
           else ret ())))"

definition read_round :: "(string \<Rightarrow> string \<Rightarrow> bool) \<Rightarrow> 'k kernel \<Rightarrow> (http_response, 'k, bool) http_prog" where
  "read_round iequals K =
     bnd (resp make_room) (\<lambda>towrite.
     bnd (on_sock (socket_read K (nat towrite))) (\<lambda>(bytes, data).
     sq (resp (bnd (gets (pptr \<circ> hm_content_buffer)) (\<lambda>i. content_op (store i data))))
    (sq (if bytes > 0 then resp (received iequals (nat bytes)) else ret ())
        (ret (towrite = bytes)))))"

text \<open>The loop runs as long as the kernel fills the block completely, so it need not end.\<close>

partial_function (option) read_loop ::
  "(string \<Rightarrow> string \<Rightarrow> bool) \<Rightarrow> 'k kernel \<Rightarrow> http_response \<times> sock \<times> 'k \<Rightarrow>
   (unit result \<times> (http_response \<times> sock \<times> 'k)) option" where
  "read_loop iequals K st =
     (case read_round iequals K st of
        (Inl e, st') \<Rightarrow> Some (Inl e, st')
      | (Inr again, st') \<Rightarrow> if again then read_loop iequals K st' else Some (Inr (), st'))"

declare read_loop.simps [code]

definition response_read_data ::
  "(string \<Rightarrow> string \<Rightarrow> bool) \<Rightarrow> 'k kernel \<Rightarrow> http_response \<times> sock \<times> 'k \<Rightarrow>
   (unit result \<times> (http_response \<times> sock \<times> 'k)) option" where
  "response_read_data iequals K = (\<lambda>(h, st).
     case (if hm_state h = READY
           then sq (content_op (set_size READ_BUFFER_SIZE_BLOCK)) (modify (\<lambda>h. h\<lparr>hm_state := READ_DATA\<rparr>)) h
           else (Inr (), h)) of
       (Inl e, h) \<Rightarrow> Some (Inl e, (h, st))
     | (Inr _, h) \<Rightarrow> if hm_state h \<noteq> DONE then read_loop iequals K (h, st) else Some (Inr (), (h, st)))"

end
