(* ===== verification/Http_Round_Trip.thy ===== *)
theory Http_Round_Trip
  imports Http_Response
begin

text \<open>
  The response parser against the response serialiser: what one object writes, another one reads back,
  line by line on the bytes of the buffer. Then what goes wrong at the edges.
\<close>

section \<open>Searching bytes\<close>

lemma c_string_append:
  assumes "CHR 0x00 \<notin> set s" and "i = length pre"
  shows "c_string (pre @ s @ CHR 0x00 # rest) i = Inr s"
proof -
  have "takeWhile (\<lambda>c. c \<noteq> CHR 0x00) (s @ CHR 0x00 # rest) = s"
    using assms(1) by (subst takeWhile_append2) auto
  with assms(2) show ?thesis by (simp add: c_string_def)
qed

lemma find_char_append: "c \<notin> set a \<Longrightarrow> find_char c (a @ c # b) = Some (length a)"
  by (induction a) auto

lemma find_crlf_append:
  "CHR 0x0D \<notin> set line \<Longrightarrow> find_crlf (line @ CHR 0x0D # CHR 0x0A # r) = Some (length line)"
proof (induction line)
  case (Cons x xs)
  then show ?case by (cases xs) auto
qed simp

lemma strstr_append:
  assumes "CHR 0x0D \<notin> set line" "CHR 0x00 \<notin> set line" "CHR 0x00 \<in> set rest" "i = length pre"
  shows "strstr_crlf (pre @ line @ CHR 0x0D # CHR 0x0A # rest) i = Inr (Some (length pre + length line))"
proof -
  have "takeWhile (\<lambda>c. c \<noteq> CHR 0x00) (line @ CHR 0x0D # CHR 0x0A # rest) =
      line @ CHR 0x0D # CHR 0x0A # takeWhile (\<lambda>c. c \<noteq> CHR 0x00) rest"
    using assms(2) by (subst takeWhile_append2) auto
  with assms find_crlf_append [OF assms(1)] show ?thesis
    by (simp add: strstr_crlf_def c_string_def)
qed

lemma strchr_append:
  assumes "c \<notin> set a" "c \<noteq> CHR 0x00" "CHR 0x00 \<notin> set a" "CHR 0x00 \<in> set rest" "i = length pre"
  shows "strchr (pre @ a @ c # rest) i c = Inr (Some (length pre + length a))"
proof -
  have "takeWhile (\<lambda>c. c \<noteq> CHR 0x00) (a @ c # rest) = a @ c # takeWhile (\<lambda>c. c \<noteq> CHR 0x00) rest"
    using assms(2,3) by (subst takeWhile_append2) auto
  with assms find_char_append [OF assms(1)] show ?thesis
    by (simp add: strchr_def c_string_def)
qed

definition with_vec :: "bytes \<Rightarrow> http_response \<Rightarrow> http_response" where
  "with_vec v h = h\<lparr>hm_content_buffer := (hm_content_buffer h)\<lparr>m_buffer := v\<rparr>\<rparr>"

lemma with_vec_sel [simp]:
  "vec (with_vec v h) = v" "m_size (hm_content_buffer (with_vec v h)) = m_size (hm_content_buffer h)"
  "pm_last_line_start (with_vec v h) = pm_last_line_start h" "pm_line_number (with_vec v h) = pm_line_number h"
  "pm_content_start (with_vec v h) = pm_content_start h" "hm_headers (with_vec v h) = hm_headers h"
  "pm_chunked_enc (with_vec v h) = pm_chunked_enc h"
  "pm_content_length_exists (with_vec v h) = pm_content_length_exists h"
  "with_vec v (with_vec u h) = with_vec v h" "with_vec (vec h) h = h"
  "hm_state (with_vec v h) = hm_state h" "hm_content_length (with_vec v h) = hm_content_length h"
  "pptr (hm_content_buffer (with_vec v h)) = pptr (hm_content_buffer h)"
  by (simp_all add: with_vec_def vec_def)

lemma poke_append:
  assumes "vec h = pre @ x # rest" and "i = length pre"
  shows "poke i c h = (Inr (), with_vec (pre @ c # rest) h)"
  using assms by (simp add: poke_def store_def vec_def with_vec_def overwrite_def)

lemma poke_same: "vec h = pre @ x # rest \<Longrightarrow> i = length pre \<Longrightarrow> poke i x h = (Inr (), h)"
  by (metis poke_append with_vec_sel(10))

lemma vec_upd [simp]:
  "vec (h\<lparr>pm_last_line_start := n\<rparr>) = vec h" "vec (h\<lparr>pm_line_number := m\<rparr>) = vec h"
  "vec (h\<lparr>pm_status := st, pm_status_code := d\<rparr>) = vec h"
  by (simp_all add: vec_def)

section \<open>One line at a time\<close>

definition plain :: "string \<Rightarrow> bool" where
  "plain s \<longleftrightarrow> CHR 0x00 \<notin> set s \<and> CHR 0x0D \<notin> set s \<and> CHR 0x0A \<notin> set s"

definition header_ok :: "string \<times> string \<Rightarrow> bool" where
  "header_ok kv \<longleftrightarrow> plain (fst kv) \<and> plain (snd kv) \<and> CHR '':'' \<notin> set (fst kv) \<and>
     (snd kv = [] \<or> hd (snd kv) \<noteq> CHR '' '')"

lemma parse_status_line:
  assumes v: "vec h = ''HTTP/1.1 '' @ st @ CHR 0x00 # rest" and l: "pm_last_line_start h = 0"
    and p: "plain st" and c: "100 \<le> atoi st" "atoi st \<le> 999" and m: "5 \<le> m_size (hm_content_buffer h)"
  shows "parse_status h = (Inr (), h\<lparr>pm_status := st, pm_status_code := atoi st\<rparr>)"
proof -
  have "strchr (''HTTP/'' @ ''1.1'' @ CHR '' '' # st @ CHR 0x00 # rest) 5 CHR '' '' = Inr (Some 8)"
    by (subst strchr_append) auto
  moreover have "c_string (''HTTP/1.1 '' @ st @ CHR 0x00 # rest) 9 = Inr st"
    using p by (intro c_string_append) (auto simp: plain_def)
  ultimately show ?thesis
    using assms by (simp add: parse_status_def prog_defs resp_defs ptr_def)
qed

lemma takeWhile_blanks: "v = [] \<or> hd v \<noteq> CHR '' '' \<Longrightarrow> takeWhile (\<lambda>c. c = CHR '' '') (v @ CHR 0x00 # rest) = []"
  by (cases v) auto

lemma parse_header_line:
  assumes v: "vec h = pre @ nm @ '': '' @ val @ CHR 0x00 # rest" and l: "pm_last_line_start h = length pre"
    and ok: "header_ok (nm, val)" and m: "length pre \<le> m_size (hm_content_buffer h)"
  shows "parse_header iequals h =
    (Inr (), insert_header iequals nm val (with_vec (pre @ nm @ CHR 0x00 # '' '' @ val @ CHR 0x00 # rest) h))"
proof -
  let ?v = "pre @ nm @ CHR 0x00 # '' '' @ val @ CHR 0x00 # rest"
  have p: "plain nm" "plain val" "CHR '':'' \<notin> set nm" using ok by (auto simp: header_ok_def)
  have s: "strchr (vec h) (length pre) CHR '':'' = Inr (Some (length pre + length nm))"
    using strchr_append [of "CHR '':''" nm "'' '' @ val @ CHR 0x00 # rest" "length pre" pre] p v
    by (simp add: plain_def)
  have pk: "poke (length pre + length nm) (CHR 0x00) h = (Inr (), with_vec ?v h)"
    using poke_append [of h "pre @ nm" "CHR '':''" "'' '' @ val @ CHR 0x00 # rest"] v by simp
  have "takeWhile (\<lambda>c. c = CHR '' '') (drop (length pre + length nm + 1) ?v) = '' ''"
    using ok takeWhile_blanks [of val rest] by (simp add: header_ok_def)
  then have sk: "skip_blanks (length pre + length nm) (with_vec ?v h) = (Inr (length pre + length nm + 2), with_vec ?v h)"
    by (simp add: skip_blanks_def resp_defs Let_def) (simp add: with_vec_def)
  have c1: "c_string ?v (length pre) = Inr nm"
    using p by (intro c_string_append) (auto simp: plain_def)
  have c2: "c_string ?v (length pre + length nm + 2) = Inr val"
    using c_string_append [of val _ "pre @ nm @ CHR 0x00 # '' ''" rest] p by (simp add: plain_def)
  show ?thesis
    using s pk sk c1 c2 l m
    by (simp add: parse_header_def bnd_def sq_def query_def gets_def cptr_def ptr_def modify_def)
qed

text \<open>The rounds of \<^verbatim>\<open>parse_data\<close> on the status line, on a header line, and on the empty line.\<close>

lemma status_round:
  assumes v: "vec h = ''HTTP/1.1 '' @ st @ CHR 0x0D # CHR 0x0A # rest" and z: "CHR 0x00 \<in> set rest"
    and l: "pm_last_line_start h = 0" "pm_line_number h = 0" "pm_content_start h = 0"
    and p: "plain st" and c: "100 \<le> atoi st" "atoi st \<le> 999" and m: "5 \<le> m_size (hm_content_buffer h)"
  shows "parse_round iequals h = (Inr True,
    (with_vec (''HTTP/1.1 '' @ st @ CHR 0x00 # CHR 0x0A # rest) h)\<lparr>pm_status := st, pm_status_code := atoi st,
       pm_line_number := 1, pm_last_line_start := 10 + length st\<rparr>)"
proof -
  let ?v = "''HTTP/1.1 '' @ st @ CHR 0x00 # CHR 0x0A # rest"
  have e: "strstr_crlf (vec h) 0 = Inr (Some (9 + length st))"
    using strstr_append [of "''HTTP/1.1 '' @ st" rest 0 "[]"] p z v by (simp add: plain_def)
  have pk: "poke (9 + length st) (CHR 0x00) h = (Inr (), with_vec ?v h)"
    using poke_append [of h "''HTTP/1.1 '' @ st" "CHR 0x0D" "CHR 0x0A # rest" "9 + length st"] v by simp
  have ps: "parse_status (with_vec ?v h) = (Inr (), (with_vec ?v h)\<lparr>pm_status := st, pm_status_code := atoi st\<rparr>)"
    using assms by (intro parse_status_line) auto
  have ld: "load 0 h = (Inr (CHR ''H''), h)" using v by (simp add: load_def query_def)
  show ?thesis
    using e pk ps ld l
    by (simp add: parse_round_def parse_line_def bnd_def sq_def query_def gets_def cptr_def ptr_def modify_def ret_def
        add.commute)
qed

lemma header_round:
  assumes v: "vec h = pre @ CHR 0x0A # nm @ '': '' @ val @ CHR 0x0D # CHR 0x0A # rest" and z: "CHR 0x00 \<in> set rest"
    and l: "pm_last_line_start h = length pre" "pm_line_number h \<noteq> 0" "pm_content_start h = 0"
    and ok: "header_ok (nm, val)" and m: "length pre < m_size (hm_content_buffer h)"
  shows "parse_round iequals h = (Inr True,
    (insert_header iequals nm val (with_vec (pre @ CHR 0x0A # nm @ CHR 0x00 # '' '' @ val @ CHR 0x00 # CHR 0x0A # rest) h))
      \<lparr>pm_line_number := pm_line_number h + 1,
       pm_last_line_start := length pre + length nm + length val + 4\<rparr>)"
proof -
  let ?line = "nm @ '': '' @ val" and ?pre = "pre @ [CHR 0x0A]" and ?h = "h\<lparr>pm_last_line_start := length pre + 1\<rparr>"
  let ?v1 = "?pre @ nm @ '': '' @ val @ CHR 0x00 # CHR 0x0A # rest"
  have p: "plain nm" "plain val" using ok by (auto simp: header_ok_def)
  have e: "strstr_crlf (vec h) (length pre + 1) = Inr (Some (length pre + 1 + length ?line))"
    using strstr_append [of ?line rest "length pre + 1" ?pre] p z v by (simp add: plain_def)
  have pk: "poke (length pre + 1 + length ?line) (CHR 0x00) ?h = (Inr (), with_vec ?v1 ?h)"
    using poke_append [of ?h "?pre @ ?line" "CHR 0x0D" "CHR 0x0A # rest"] v by simp
  have ph: "parse_header iequals (with_vec ?v1 ?h) = (Inr (), insert_header iequals nm val
      (with_vec (?pre @ nm @ CHR 0x00 # '' '' @ val @ CHR 0x00 # CHR 0x0A # rest) (with_vec ?v1 ?h)))"
    using m ok by (intro parse_header_line) auto
  have ld: "load (length pre) h = (Inr (CHR 0x0A), h)"
    using v by (simp add: load_def query_def)
  have ih: "pm_line_number (insert_header iequals nm val g) = pm_line_number g"
    "pm_last_line_start (insert_header iequals nm val g) = pm_last_line_start g"
    "pm_content_start (insert_header iequals nm val g) = pm_content_start g" for g
    by (simp_all add: insert_header_def Let_def)
  have comm: "insert_header iequals nm val (with_vec w (h\<lparr>pm_last_line_start := n\<rparr>)) =
      (insert_header iequals nm val (with_vec w h))\<lparr>pm_last_line_start := n\<rparr>" for w n
    by (simp add: insert_header_def Let_def with_vec_def)
  show ?thesis
    using e pk ph ld l m
    by (simp add: parse_round_def parse_line_def bnd_def sq_def query_def gets_def cptr_def ptr_def modify_def ret_def ih comm)
qed

lemma empty_round:
  assumes v: "vec h = pre @ CHR 0x0A # CHR 0x0D # CHR 0x0A # rest" and z: "CHR 0x00 \<in> set rest"
    and l: "pm_last_line_start h = length pre" "pm_content_length_exists h" "\<not> pm_chunked_enc h"
    and m: "length pre + 2 \<le> m_size (hm_content_buffer h)"
  shows "parse_round iequals h =
    (Inr False, h\<lparr>pm_last_line_start := length pre + 1, pm_content_start := length pre + 3, hm_state := READ_CONTENT\<rparr>)"
proof -
  let ?h = "h\<lparr>pm_last_line_start := length pre + 1\<rparr>"
  have e: "strstr_crlf (vec h) (length pre + 1) = Inr (Some (length pre + 1))"
    using strstr_append [of "[]" rest "length pre + 1" "pre @ [CHR 0x0A]"] z v by simp
  have ld: "load (length pre) h = (Inr (CHR 0x0A), h)"
    using v by (simp add: load_def query_def)
  have ld2: "load (Suc (Suc (length pre))) g = (Inr (CHR 0x0A), g)" if "vec g = vec h" for g
    using v that by (simp add: load_def query_def nth_append)
  have vu: "vec (h\<lparr>pm_last_line_start := a, pm_content_start := b\<rparr>) = vec h" for a b by (simp add: vec_def)
  show ?thesis
    using e ld ld2 [OF vu] l m
    by (simp add: parse_round_def bnd_def sq_def query_def gets_def cptr_def ptr_def modify_def ret_def)
qed

section \<open>All lines\<close>

definition insert_headers :: "(string \<Rightarrow> string \<Rightarrow> bool) \<Rightarrow> headers_t \<Rightarrow> http_response \<Rightarrow> http_response" where
  "insert_headers iequals hs h = fold (\<lambda>(n, v). insert_header iequals n v) hs h"

text \<open>What parsing headers changes, and what it leaves.\<close>

definition header_part :: "http_response \<Rightarrow> headers_t \<times> nat \<times> bool \<times> bool" where
  "header_part h = (hm_headers h, hm_content_length h, pm_content_length_exists h, pm_chunked_enc h)"

definition fixed_part :: "http_response \<Rightarrow> string \<times> int \<times> nat \<times> nat \<times> nat \<times> buffer" where
  "fixed_part h = (pm_status h, pm_status_code h, m_size (hm_content_buffer h), gptr (hm_content_buffer h),
     pptr (hm_content_buffer h), hm_data_buffer h)"

lemma header_part_insert:
  "header_part g = header_part h \<Longrightarrow>
   header_part (insert_header iequals n v g) = header_part (insert_header iequals n v h)"
  by (auto simp: header_part_def insert_header_def Let_def)

lemma header_part_inserts:
  "header_part g = header_part h \<Longrightarrow>
   header_part (insert_headers iequals hs g) = header_part (insert_headers iequals hs h)"
proof (induction hs arbitrary: g h)
  case (Cons kv hs)
  obtain n v where kv: "kv = (n, v)" by fastforce
  have "header_part (insert_header iequals n v g) = header_part (insert_header iequals n v h)"
    by (rule header_part_insert) (rule Cons.prems)
  from Cons.IH [OF this] show ?case by (simp add: insert_headers_def kv)
qed (simp add: insert_headers_def)

lemma parts_simps [simp]:
  "header_part (with_vec v h) = header_part h" "fixed_part (with_vec v h) = fixed_part h"
  "header_part (h\<lparr>pm_line_number := n, pm_last_line_start := m\<rparr>) = header_part h"
  "fixed_part (h\<lparr>pm_line_number := n, pm_last_line_start := m\<rparr>) = fixed_part h"
  "fixed_part (insert_header iequals a b h) = fixed_part h"
  by (simp_all add: header_part_def fixed_part_def with_vec_def insert_header_def Let_def)

lemma insert_header_sel [simp]:
  "vec (insert_header iequals a b h) = vec h"
  "pm_content_start (insert_header iequals a b h) = pm_content_start h"
  "m_size (hm_content_buffer (insert_header iequals a b h)) = m_size (hm_content_buffer h)"
  by (simp_all add: insert_header_def Let_def vec_def)

lemma header_line_eq: "header_line (n, v) = n @ '': '' @ v @ [CHR 0x0D, CHR 0x0A]"
  by (simp add: header_line_def CRLF_def)

lemma parse_headers:
  assumes "vec h = pre @ CHR 0x0A # concat (map header_line hs) @ CHR 0x0D # CHR 0x0A # rest"
    and z: "CHR 0x00 \<in> set rest"
    and "pm_last_line_start h = length pre" "pm_line_number h > 0" "pm_content_start h = 0"
    and "\<forall>kv \<in> set hs. header_ok kv"
    and "length pre + length (concat (map header_line hs)) + 2 \<le> m_size (hm_content_buffer h)"
    and "pm_content_length_exists (insert_headers iequals hs h)" "\<not> pm_chunked_enc (insert_headers iequals hs h)"
  shows "\<exists>h' pre'. parse_data iequals h = (Inr (), h') \<and>
    length pre' = length pre + length (concat (map header_line hs)) \<and>
    vec h' = pre' @ CHR 0x0A # CHR 0x0D # CHR 0x0A # rest \<and>
    pm_content_start h' = length pre' + 3 \<and> hm_state h' = READ_CONTENT \<and>
    header_part h' = header_part (insert_headers iequals hs h) \<and> fixed_part h' = fixed_part h"
  using assms(1,3-9)
proof (induction hs arbitrary: h pre)
  case Nil
  let ?h = "h\<lparr>pm_last_line_start := length pre + 1, pm_content_start := length pre + 3, hm_state := READ_CONTENT\<rparr>"
  have "parse_round iequals h = (Inr False, ?h)"
    using Nil z by (intro empty_round) (auto simp: insert_headers_def)
  then have "parse_data iequals h = (Inr (), ?h)" by (simp add: parse_data.simps)
  then show ?case
    using Nil by (intro exI [of _ ?h] exI [of _ pre]) (simp add: insert_headers_def vec_def header_part_def fixed_part_def)
next
  case (Cons kv hs)
  obtain nm val where kv: "kv = (nm, val)" by fastforce
  let ?rest = "concat (map header_line hs) @ CHR 0x0D # CHR 0x0A # rest"
  let ?pre = "pre @ CHR 0x0A # nm @ CHR 0x00 # '' '' @ val @ [CHR 0x00]"
  let ?g = "insert_header iequals nm val (with_vec (?pre @ CHR 0x0A # ?rest) h)"
  let ?h = "?g\<lparr>pm_line_number := pm_line_number h + 1, pm_last_line_start := length ?pre\<rparr>"
  have v: "vec h = pre @ CHR 0x0A # nm @ '': '' @ val @ CHR 0x0D # CHR 0x0A # ?rest"
    using Cons.prems(1) by (simp add: kv header_line_eq)
  have r: "parse_round iequals h = (Inr True, ?h)"
    using header_round [OF v _ Cons.prems(2) _ Cons.prems(4)] Cons.prems(3,5,6) z by (simp add: kv)
  have hp: "header_part ?h = header_part (insert_header iequals nm val h)"
    using header_part_insert [of "with_vec (?pre @ CHR 0x0A # ?rest) h" h] by simp
  have ins: "header_part (insert_headers iequals hs ?h) = header_part (insert_headers iequals (kv # hs) h)"
    using header_part_inserts [OF hp] by (simp add: insert_headers_def kv)
  have len: "length ?pre = length pre + length (header_line kv)"
    by (simp add: kv header_line_eq)
  have "\<exists>h' pre'. parse_data iequals ?h = (Inr (), h') \<and>
    length pre' = length ?pre + length (concat (map header_line hs)) \<and>
    vec h' = pre' @ CHR 0x0A # CHR 0x0D # CHR 0x0A # rest \<and>
    pm_content_start h' = length pre' + 3 \<and> hm_state h' = READ_CONTENT \<and>
    header_part h' = header_part (insert_headers iequals hs ?h) \<and> fixed_part h' = fixed_part ?h"
  proof (rule Cons.IH)
    show "vec ?h = ?pre @ CHR 0x0A # concat (map header_line hs) @ CHR 0x0D # CHR 0x0A # rest"
      by (simp add: vec_def [of "_ \<lparr>pm_line_number := _, pm_last_line_start := _\<rparr>"])
    show "length ?pre + length (concat (map header_line hs)) + 2 \<le> m_size (hm_content_buffer ?h)"
      using Cons.prems(6) len by simp
    show "pm_content_length_exists (insert_headers iequals hs ?h)" "\<not> pm_chunked_enc (insert_headers iequals hs ?h)"
      using ins Cons.prems(7,8) by (simp_all add: header_part_def)
  qed (use Cons.prems in auto)
  then obtain h' pre' where h': "parse_data iequals ?h = (Inr (), h')"
    "length pre' = length ?pre + length (concat (map header_line hs))"
    "vec h' = pre' @ CHR 0x0A # CHR 0x0D # CHR 0x0A # rest"
    "pm_content_start h' = length pre' + 3" "hm_state h' = READ_CONTENT"
    "header_part h' = header_part (insert_headers iequals hs ?h)" "fixed_part h' = fixed_part ?h" by blast
  have "parse_data iequals h = (Inr (), h')" using r h'(1) by (subst parse_data.simps) simp
  with h' ins len show ?case by (intro exI [of _ h'] exI [of _ pre']) simp
qed

section \<open>The whole message\<close>

definition reserved :: "(string \<Rightarrow> string \<Rightarrow> bool) \<Rightarrow> string \<Rightarrow> bool" where
  "reserved iequals n \<longleftrightarrow> iequals n ''Content-Length'' \<or> iequals n ''Transfer-Encoding''"

definition content_length_header :: "nat \<Rightarrow> string \<times> string" where
  "content_length_header n = (''Content-Length'', to_string n)"

lemma insert_headers_plain:
  assumes "distinct (map fst (gs @ hs))" and "\<forall>kv \<in> set hs. \<not> reserved iequals (fst kv)"
    and "header_part h = (gs, 0, False, False)"
  shows "header_part (insert_headers iequals hs h) = (gs @ hs, 0, False, False)"
  using assms
proof (induction hs arbitrary: gs h)
  case (Cons kv hs)
  obtain n v where kv: "kv = (n, v)" by fastforce
  have "header_part (insert_header iequals n v h) = (gs @ [kv], 0, False, False)"
    using Cons.prems by (auto simp: header_part_def insert_header_def Let_def reserved_def kv)
  with Cons.IH [of "gs @ [kv]" "insert_header iequals n v h"] Cons.prems show ?case
    by (simp add: insert_headers_def kv)
qed (simp add: insert_headers_def)

lemma insert_headers_all:
  assumes "distinct (map fst hs)" "\<forall>kv \<in> set hs. \<not> reserved iequals (fst kv)"
    and "iequals ''Content-Length'' ''Content-Length''" and "n < 2 ^ 31"
    and "header_part h = ([], 0, False, False)"
  shows "header_part (insert_headers iequals (hs @ [content_length_header n]) h) =
    (hs @ [content_length_header n], n, True, False)"
proof -
  have p: "header_part (insert_headers iequals hs h) = (hs, 0, False, False)"
    using insert_headers_plain [of "[]" hs iequals h] assms by simp
  have "''Content-Length'' \<notin> fst ` set hs" using assms(2,3) by (auto simp: reserved_def)
  moreover have "to_size (atoi (to_string n)) = n"
    using assms(4) by (simp add: atoi_to_string to_size_nonneg)
  ultimately show ?thesis
    using p assms(3)
    by (auto simp: insert_headers_def content_length_header_def header_part_def insert_header_def Let_def)
qed

lemma header_ok_content_length: "header_ok (content_length_header n)"
proof -
  have d: "is_digit c" if "c \<in> set (to_string n)" for c using to_string_digits that by blast
  have "plain (to_string n)" using d by (auto simp: plain_def is_digit_def dest!: d)
  moreover have "hd (to_string n) \<noteq> CHR '' ''"
    using d [OF hd_in_set [OF to_string_not_Nil]] by (auto simp: is_digit_def)
  ultimately show ?thesis by (auto simp: header_ok_def content_length_header_def plain_def)
qed

definition message :: "string \<Rightarrow> headers_t \<Rightarrow> bytes \<Rightarrow> bytes" where
  "message st hs body = ''HTTP/1.1 '' @ st @ CRLF @
     concat (map header_line (hs @ [content_length_header (length body)])) @ CRLF @ body"

lemma parse_message:
  assumes st: "plain st" "100 \<le> atoi st" "atoi st \<le> 999"
    and hs: "\<forall>kv \<in> set hs. header_ok kv \<and> \<not> reserved iequals (fst kv)" "distinct (map fst hs)"
    and ie: "iequals ''Content-Length'' ''Content-Length''"
    and len: "length (message st hs body) < 4095"
    and v: "vec h = message st hs body @ CHR 0x00 # zs" and m: "m_size (hm_content_buffer h) = 4096"
    and i: "pm_last_line_start h = 0" "pm_line_number h = 0" "pm_content_start h = 0"
      "header_part h = ([], 0, False, False)"
  shows "\<exists>h' pre. parse_data iequals h = (Inr (), h') \<and> vec h' = pre @ body @ CHR 0x00 # zs \<and>
    length pre + length body = length (message st hs body) \<and> pm_content_start h' = length pre \<and>
    header_part h' = (hs @ [content_length_header (length body)], length body, True, False) \<and>
    fixed_part h' = fixed_part (h\<lparr>pm_status := st, pm_status_code := atoi st\<rparr>)"
proof -
  let ?hs = "hs @ [content_length_header (length body)]" and ?rest = "body @ CHR 0x00 # zs"
  let ?r = "concat (map header_line ?hs) @ CHR 0x0D # CHR 0x0A # ?rest"
  let ?pre = "''HTTP/1.1 '' @ st @ [CHR 0x00]"
  let ?h = "(with_vec (''HTTP/1.1 '' @ st @ CHR 0x00 # CHR 0x0A # ?r) h)\<lparr>pm_status := st,
    pm_status_code := atoi st, pm_line_number := 1, pm_last_line_start := 10 + length st\<rparr>"
  have v': "vec h = ''HTTP/1.1 '' @ st @ CHR 0x0D # CHR 0x0A # ?r"
    using v by (simp add: message_def CRLF_def)
  have r: "parse_round iequals h = (Inr True, ?h)"
    by (rule status_round [OF v' _ i(1-3) st]) (use m in simp_all)
  have hp: "header_part ?h = ([], 0, False, False)"
    using i(4) by (simp add: header_part_def with_vec_def)
  have l31: "length body < 2 ^ 31" using len by (simp add: message_def)
  have hok: "\<forall>kv \<in> set ?hs. header_ok kv" using hs(1) header_ok_content_length by auto
  have ins: "header_part (insert_headers iequals ?hs ?h) = (?hs, length body, True, False)"
    by (rule insert_headers_all) (use hs ie l31 hp in auto)
  have "\<exists>h' pre'. parse_data iequals ?h = (Inr (), h') \<and>
    length pre' = length ?pre + length (concat (map header_line ?hs)) \<and>
    vec h' = pre' @ CHR 0x0A # CHR 0x0D # CHR 0x0A # ?rest \<and>
    pm_content_start h' = length pre' + 3 \<and> hm_state h' = READ_CONTENT \<and>
    header_part h' = header_part (insert_headers iequals ?hs ?h) \<and> fixed_part h' = fixed_part ?h"
  proof (rule parse_headers)
    show "vec ?h = ?pre @ CHR 0x0A # ?r" by (simp add: vec_def with_vec_def)
    show "length ?pre + length (concat (map header_line ?hs)) + 2 \<le> m_size (hm_content_buffer ?h)"
      using len m by (simp add: message_def CRLF_def)
  qed (use hok ins i in \<open>simp_all add: header_part_def\<close>)
  then obtain h' pre' where h': "parse_data iequals ?h = (Inr (), h')"
    "length pre' = length ?pre + length (concat (map header_line ?hs))"
    "vec h' = pre' @ CHR 0x0A # CHR 0x0D # CHR 0x0A # ?rest"
    "pm_content_start h' = length pre' + 3"
    "header_part h' = header_part (insert_headers iequals ?hs ?h)" "fixed_part h' = fixed_part ?h" by blast
  have pd: "parse_data iequals h = (Inr (), h')" using r h'(1) by (subst parse_data.simps) simp
  have fx: "fixed_part ?h = fixed_part (h\<lparr>pm_status := st, pm_status_code := atoi st\<rparr>)"
    by (simp add: fixed_part_def with_vec_def)
  show ?thesis
    by (intro exI [of _ h'] exI [of _ "pre' @ [CHR 0x0A, CHR 0x0D, CHR 0x0A]"])
       (use pd h' ins fx in \<open>simp add: message_def CRLF_def\<close>)
qed

text \<open>A message that arrives in one piece, at an object that is ready.\<close>

definition zeros :: "nat \<Rightarrow> bytes" where
  "zeros n = replicate n (CHR 0x00)"

lemma first_round:
  assumes "sm_type s = TCP" and "k_recvfrom K (sm_fd s) 4095 False k = ((int (length data), data, a), k')"
    and "data \<noteq> []" "length data < 4095"
    and b: "hm_content_buffer h = \<lparr>m_buffer = zeros 5120, m_size = 4096, gptr = 0, pptr = 0\<rparr>"
  shows "read_round iequals K (h, (s, k)) =
    (case received iequals (length data)
        (h\<lparr>hm_content_buffer := \<lparr>m_buffer = data @ zeros (5120 - length data), m_size = 4096, gptr = 0, pptr = 0\<rparr>\<rparr>) of
       (Inl e, h') \<Rightarrow> (Inl e, (h', (s, k')))
     | (Inr _, h') \<Rightarrow> (Inr False, (h', (s, k'))))"
proof -
  have rd: "socket_read K 4095 (s, k) = (Inr (int (length data), data), (s, k'))"
    using socket_read_stream [OF assms(1,2)] assms(3) by simp
  have st: "store 0 data (hm_content_buffer h) =
      Inr \<lparr>m_buffer = data @ zeros (5120 - length data), m_size = 4096, gptr = 0, pptr = 0\<rparr>"
    using assms(4) b by (simp add: store_def overwrite_def zeros_def drop_replicate)
  have mk: "make_room h = (Inr 4095, h)"
    by (simp add: make_room_def prog_defs b to_write_def READ_BUFFER_SIZE_BLOCK_def)
  show ?thesis
    using mk rd st assms(3,4) b
    by (simp add: read_round_def bnd_def sq_def resp_def on_sock_def gets_def content_op_def ret_def
        split: prod.splits sum.splits)
qed

lemma read_ready:
  assumes "read_round iequals K ((http_response_new g)\<lparr>hm_state := READ_DATA,
      hm_content_buffer := \<lparr>m_buffer = zeros 5120, m_size = 4096, gptr = 0, pptr = 0\<rparr>\<rparr>, st) = (r, st')"
    and "r \<noteq> Inr True"
  shows "response_read_data iequals K (http_response_new g, st) =
    Some (case r of Inl e \<Rightarrow> Inl e | Inr _ \<Rightarrow> Inr (), st')"
proof -
  have "set_size READ_BUFFER_SIZE_BLOCK buffer_new = Inr \<lparr>m_buffer = zeros 5120, m_size = 4096, gptr = 0, pptr = 0\<rparr>"
    using set_size_ok [OF buffer_ok_new(1)]
    by (simp add: grow_def READ_BUFFER_SIZE_BLOCK_def zeros_def) (simp add: buffer_new_def)
  with assms show ?thesis
    by (simp add: response_read_data_def sq_def bnd_def content_op_def modify_def http_response_new_def)
       (subst read_loop.simps, simp split: sum.splits)
qed

lemma received_complete:
  assumes pd: "parse_data iequals (h\<lparr>hm_content_buffer := (hm_content_buffer h)\<lparr>pptr := n\<rparr>\<rparr>) = (Inr (), h1)"
    and h: "hm_state h = READ_DATA" "pptr (hm_content_buffer h) = 0" "n < length (vec h)" "vec h ! n = CHR 0x00"
    and v: "vec h1 = pre @ body @ CHR 0x00 # zs" "length pre + length body = n"
    and c: "pm_content_start h1 = length pre" "hm_content_length h1 = length body" "n < 2 ^ 64"
    and f: "pptr (hm_content_buffer h1) = n" "n \<le> m_size (hm_content_buffer h1)"
  shows "\<exists>h2. received iequals n h = (Inr (), h2) \<and> is_done h2 \<and>
    unread (hm_content_buffer h2) = body \<and> header_part h2 = header_part h1 \<and>
    pm_status h2 = pm_status h1 \<and> pm_status_code h2 = pm_status_code h1 \<and> append_ok (hm_content_buffer h2)"
proof -
  let ?h = "h\<lparr>hm_content_buffer := (hm_content_buffer h)\<lparr>pptr := n\<rparr>\<rparr>"
  have vv: "vec ?h = vec h" by (simp add: vec_def)
  have spl: "vec h = take n (vec h) @ CHR 0x00 # drop (Suc n) (vec h)"
    using h(3,4) id_take_nth_drop by metis
  have p1: "poke n (CHR 0x00) ?h = (Inr (), ?h)"
    by (rule poke_same [of _ "take n (vec h)" _ "drop (Suc n) (vec h)"]) (use spl vv h(3) in simp_all)
  have p2: "poke n (CHR 0x00) h1 = (Inr (), h1)"
    by (rule poke_same [of _ "pre @ body" _ zs]) (use v in simp_all)
  have comp: "length body = to_size (int n - int (length pre))"
    using v(2) c(3) by (subst to_size_nonneg) auto
  let ?b = "hm_content_buffer h1"
  have sz: "set_size n ?b = Inr (?b\<lparr>m_size := n\<rparr>)"
    using v by (simp add: set_size_def vec_def)
  have mv: "move_ptr_read_abs (length pre) (?b\<lparr>m_size := n\<rparr>) = Inr (?b\<lparr>m_size := n, gptr := length pre\<rparr>)"
    using v(2) by (simp add: move_ptr_read_abs_def ptr_def)
  have un: "unread (?b\<lparr>m_size := n, gptr := length pre\<rparr>) = body"
    using v by (simp add: unread_def vec_def [symmetric] flip: v(2))
  let ?h2 = "h1\<lparr>hm_content_buffer := ?b\<lparr>m_size := n, gptr := length pre\<rparr>, hm_state := DONE\<rparr>"
  have "received iequals n h = (Inr (), ?h2)"
    using pd h(1,2) p1 p2 comp c(1,2) f(1) sz mv v(2)
    by (simp add: received_def bnd_def sq_def content_op_def gets_def modify_def ret_def move_ptr_write_def offset_write_def)
  moreover have "append_ok (hm_content_buffer ?h2)"
    using v f(1) by (simp add: append_ok_def buffer_ok_def vec_def)
  ultimately show ?thesis using un by (auto simp: is_done_def header_part_def)
qed

lemma response_prepare_ok:
  assumes "append_ok (hm_data_buffer h)"
  shows "\<exists>b. response_prepare order h = Inr (h\<lparr>hm_data_buffer := b\<rparr>) \<and> append_ok b \<and>
    unread b = unread (hm_data_buffer h) @ ''HTTP/1.1 '' @ pm_status h @ CRLF @
      concat (map header_line (order (hm_headers h))) @
      ''Content-Length: '' @ to_string (m_size (hm_content_buffer h)) @ CRLF @ CRLF"
proof -
  let ?w = "[''HTTP/1.1 '', pm_status h, CRLF] @ concat (map header_writes (order (hm_headers h))) @
    [''Content-Length: '' @ to_string (m_size (hm_content_buffer h)), CRLF, CRLF]"
  obtain b where b: "put_all buffer_write ?w (hm_data_buffer h) = Inr b" "append_ok b"
    "unread b = unread (hm_data_buffer h) @ concat ?w"
    using buf.put_all_concat [OF assms] by blast
  have "response_prepare order h = Inr (h\<lparr>hm_data_buffer := b\<rparr>)"
    using b(1) unfolding response_prepare_def Let_def by simp
  with b(2,3) show ?thesis by (intro exI [of _ b]) (simp add: concat_header_writes)
qed

text \<open>The head of a response on the wire.\<close>

definition response_head :: "(headers_t \<Rightarrow> headers_t) \<Rightarrow> http_response \<Rightarrow> bytes" where
  "response_head order h = ''HTTP/1.1 '' @ pm_status h @ CRLF @ concat (map header_line (order (hm_headers h))) @
     ''Content-Length: '' @ to_string (m_size (hm_content_buffer h)) @ CRLF @ CRLF"

definition response_fit :: "http_response \<Rightarrow> bool" where
  "response_fit h \<longleftrightarrow> append_ok (hm_data_buffer h) \<and> unread (hm_data_buffer h) = [] \<and> buffer_ok (hm_content_buffer h)"

interpretation rp: outgoing "response_prepare order" "response_head order" response_fit
  for order :: "headers_t \<Rightarrow> headers_t"
proof
  fix h
  assume "response_fit h"
  then show "\<exists>h1. response_prepare order h = Inr h1 \<and> bufs_ok h1 \<and> unread (hm_data_buffer h1) = response_head order h \<and>
      hm_content_buffer h1 = hm_content_buffer h"
    using response_prepare_ok [of h order] by (auto simp: response_fit_def response_head_def bufs_ok_def append_ok_ok)
qed

text \<open>A serialised response that arrives in one piece at a new object.\<close>

lemma response_arrives:
  assumes h: "append_ok (hm_data_buffer h)" "unread (hm_data_buffer h) = []"
      "append_ok (hm_content_buffer h)" "gptr (hm_content_buffer h) = 0"
    and st: "plain (pm_status h)" "100 \<le> atoi (pm_status h)" "atoi (pm_status h) \<le> 999"
    and hs: "\<forall>kv \<in> set (order (hm_headers h)). header_ok kv \<and> \<not> reserved iequals (fst kv)"
      "distinct (map fst (order (hm_headers h)))"
    and ie: "iequals ''Content-Length'' ''Content-Length''"
    and p: "response_prepare order h = Inr h1"
    and wire: "wire = unread (hm_data_buffer h1) @ unread (hm_content_buffer h1)" "length wire < 4095"
    and rx: "sm_type s = TCP" "k_recvfrom K (sm_fd s) 4095 False k = ((int (length wire), wire, a), k')"
  shows "\<exists>h2. response_read_data iequals K (http_response_new g, (s, k)) = Some (Inr (), (h2, (s, k'))) \<and>
    is_done h2 \<and> pm_status h2 = pm_status h \<and> pm_status_code h2 = atoi (pm_status h) \<and>
    hm_headers h2 = order (hm_headers h) @
      [(''Content-Length'', to_string (length (unread (hm_content_buffer h))))] \<and>
    unread (hm_content_buffer h2) = unread (hm_content_buffer h) \<and> append_ok (hm_content_buffer h2)"
proof -
  let ?body = "unread (hm_content_buffer h)" and ?hs = "order (hm_headers h)" and ?st = "pm_status h"
  have n: "m_size (hm_content_buffer h) = length ?body"
    using h(3,4) by (simp add: unread_def append_ok_def buffer_ok_def)
  obtain b where b: "h1 = h\<lparr>hm_data_buffer := b\<rparr>"
    "unread b = ''HTTP/1.1 '' @ ?st @ CRLF @ concat (map header_line ?hs) @
       ''Content-Length: '' @ to_string (length ?body) @ CRLF @ CRLF"
    using response_prepare_ok [OF h(1), of order] p h(2) n by auto
  have msg: "wire = message ?st ?hs ?body"
    using b wire(1) by (simp add: message_def content_length_header_def header_line_def)
  let ?n = "length wire"
  let ?b = "\<lparr>m_buffer = wire @ zeros (5120 - ?n), m_size = 4096, gptr = 0, pptr = 0\<rparr>"
  let ?h = "(http_response_new g)\<lparr>hm_state := READ_DATA, hm_content_buffer := ?b\<rparr>"
  let ?h' = "(http_response_new g)\<lparr>hm_state := READ_DATA, hm_content_buffer := ?b\<lparr>pptr := ?n\<rparr>\<rparr>"
  obtain zs where zs: "zeros (5120 - ?n) = CHR 0x00 # zs"
    using wire(2) by (cases "5120 - ?n") (auto simp: zeros_def)
  have "\<exists>h2 pre. parse_data iequals ?h' = (Inr (), h2) \<and> vec h2 = pre @ ?body @ CHR 0x00 # zs \<and>
    length pre + length ?body = length (message ?st ?hs ?body) \<and> pm_content_start h2 = length pre \<and>
    header_part h2 = (?hs @ [content_length_header (length ?body)], length ?body, True, False) \<and>
    fixed_part h2 = fixed_part (?h'\<lparr>pm_status := ?st, pm_status_code := atoi ?st\<rparr>)"
    by (rule parse_message [OF st hs ie])
       (use wire(2) msg zs in \<open>simp_all add: vec_def http_response_new_def header_part_def\<close>)
  then obtain h2 pre where pd: "parse_data iequals ?h' = (Inr (), h2)" "vec h2 = pre @ ?body @ CHR 0x00 # zs"
    "length pre + length ?body = ?n" "pm_content_start h2 = length pre"
    "header_part h2 = (?hs @ [content_length_header (length ?body)], length ?body, True, False)"
    "fixed_part h2 = fixed_part (?h'\<lparr>pm_status := ?st, pm_status_code := atoi ?st\<rparr>)"
    by (auto simp: msg)
  have f: "pm_status h2 = ?st" "pm_status_code h2 = atoi ?st" "pptr (hm_content_buffer h2) = ?n"
    "m_size (hm_content_buffer h2) = 4096" "hm_content_length h2 = length ?body"
    using pd(5,6) by (simp_all add: fixed_part_def header_part_def)
  have pd': "parse_data iequals (?h\<lparr>hm_content_buffer := (hm_content_buffer ?h)\<lparr>pptr := ?n\<rparr>\<rparr>) = (Inr (), h2)"
    using pd(1) by simp
  obtain h3 where h3: "received iequals ?n ?h = (Inr (), h3)" "is_done h3"
    "unread (hm_content_buffer h3) = ?body" "header_part h3 = header_part h2"
    "pm_status h3 = pm_status h2" "pm_status_code h3 = pm_status_code h2" "append_ok (hm_content_buffer h3)"
    using received_complete [OF pd' _ _ _ _ pd(2,3,4) f(5) _ f(3)] wire(2) f(4) zs
    by (auto simp: vec_def nth_append)
  have "wire \<noteq> []" by (simp add: msg message_def)
  then have "read_round iequals K ((http_response_new g)\<lparr>hm_state := READ_DATA,
      hm_content_buffer := \<lparr>m_buffer = zeros 5120, m_size = 4096, gptr = 0, pptr = 0\<rparr>\<rparr>, (s, k)) = (Inr False, (h3, (s, k')))"
    by (subst first_round [OF rx]) (use wire(2) h3(1) in simp_all)
  from read_ready [OF this] h3 f(1,2) pd(5) show ?thesis
    by (auto simp: header_part_def content_length_header_def)
qed


definition sample_response :: http_response where
  "sample_response = (http_response_new 0)\<lparr>pm_status := ''200 OK'', hm_headers := [(''A'', ''b'')],
     hm_content_buffer := \<lparr>m_buffer = ''xyz'', m_size = 3, gptr = 0, pptr = 3\<rparr>\<rparr>"


section \<open>At the edges\<close>

text \<open>A round that finds no further line break.\<close>

lemma tail_round:
  assumes v: "vec h = pre @ CHR 0x0A # CHR 0x00 # rest" and l: "pm_last_line_start h = length pre"
    and m: "length pre < m_size (hm_content_buffer h)"
  shows "parse_round iequals h = (Inr False, h\<lparr>pm_last_line_start := length pre + 1\<rparr>)"
proof -
  have e: "strstr_crlf (vec h) (length pre + 1) = Inr None"
    using c_string_append [of "[]" "length pre + 1" "pre @ [CHR 0x0A]" rest] v by (simp add: strstr_crlf_def)
  have ld: "load (length pre) h = (Inr (CHR 0x0A), h)" using v by (simp add: load_def query_def)
  show ?thesis
    using e ld l m
    by (simp add: parse_round_def bnd_def sq_def query_def gets_def cptr_def ptr_def modify_def ret_def)
qed

definition fragment :: "string \<Rightarrow> nat \<Rightarrow> bytes" where
  "fragment st n = ''HTTP/1.1 '' @ st @ CRLF @ header_line (content_length_header n)"

lemma parse_fragment:
  assumes st: "plain st" "100 \<le> atoi st" "atoi st \<le> 999"
    and ie: "iequals ''Content-Length'' ''Content-Length''" and n: "length (fragment st n) < 4095" "n < 2 ^ 31"
    and v: "vec h = fragment st n @ CHR 0x00 # zs" and m: "m_size (hm_content_buffer h) = 4096"
    and i: "pm_last_line_start h = 0" "pm_line_number h = 0" "pm_content_start h = 0"
      "header_part h = ([], 0, False, False)"
  shows "\<exists>h' w. parse_data iequals h = (Inr (), h') \<and> vec h' = w @ CHR 0x00 # zs \<and>
    length w = length (fragment st n) \<and> pm_content_start h' = 0 \<and> hm_content_length h' = n \<and>
    take 9 w = ''HTTP/1.1 '' \<and> fixed_part h' = fixed_part (h\<lparr>pm_status := st, pm_status_code := atoi st\<rparr>)"
proof -
  let ?nm = "''Content-Length''" and ?val = "to_string n" and ?rest = "CHR 0x00 # zs"
  let ?pre = "''HTTP/1.1 '' @ st @ [CHR 0x00]"
  let ?r = "?nm @ '': '' @ ?val @ CHR 0x0D # CHR 0x0A # ?rest"
  let ?h1 = "(with_vec (''HTTP/1.1 '' @ st @ CHR 0x00 # CHR 0x0A # ?r) h)\<lparr>pm_status := st,
    pm_status_code := atoi st, pm_line_number := 1, pm_last_line_start := 10 + length st\<rparr>"
  have v': "vec h = ''HTTP/1.1 '' @ st @ CHR 0x0D # CHR 0x0A # ?r"
    using v by (simp add: fragment_def CRLF_def header_line_def content_length_header_def)
  have r1: "parse_round iequals h = (Inr True, ?h1)"
    by (rule status_round [OF v' _ i(1-3) st]) (use m in simp_all)
  let ?w = "?pre @ CHR 0x0A # ?nm @ CHR 0x00 # '' '' @ ?val @ [CHR 0x00]"
  let ?h2 = "(insert_header iequals ?nm ?val (with_vec (?w @ CHR 0x0A # ?rest) ?h1))\<lparr>pm_line_number := 2,
    pm_last_line_start := length ?w\<rparr>"
  have len: "length (fragment st n) = length ?w + 1"
    by (simp add: fragment_def CRLF_def header_line_def content_length_header_def)
  have "parse_round iequals ?h1 = (Inr True,
    (insert_header iequals ?nm ?val (with_vec (?pre @ CHR 0x0A # ?nm @ CHR 0x00 # '' '' @ ?val @ CHR 0x00 # CHR 0x0A # ?rest) ?h1))
      \<lparr>pm_line_number := pm_line_number ?h1 + 1, pm_last_line_start := length ?pre + length ?nm + length ?val + 4\<rparr>)"
  proof (rule header_round)
    show "vec ?h1 = ?pre @ CHR 0x0A # ?nm @ '': '' @ ?val @ CHR 0x0D # CHR 0x0A # ?rest"
      by (simp add: vec_def with_vec_def)
    show "header_ok (?nm, ?val)" using header_ok_content_length [of n] by (simp add: content_length_header_def)
    show "length ?pre < m_size (hm_content_buffer ?h1)" using m n(1) len by simp
  qed (use i in simp_all)
  then have r2: "parse_round iequals ?h1 = (Inr True, ?h2)" by simp
  have vh2: "vec ?h2 = ?w @ CHR 0x0A # ?rest"
    by (simp add: vec_def [of "_ \<lparr>pm_line_number := _, pm_last_line_start := _\<rparr>"])
  have r3: "parse_round iequals ?h2 = (Inr False, ?h2\<lparr>pm_last_line_start := length ?w + 1\<rparr>)"
    by (rule tail_round [OF vh2]) (use m n(1) len in simp_all)
  let ?h3 = "?h2\<lparr>pm_last_line_start := length ?w + 1\<rparr>"
  have pd: "parse_data iequals h = (Inr (), ?h3)"
    by (subst parse_data.simps, simp only: r1 prod.case sum.case if_True,
        subst parse_data.simps, simp only: r2 prod.case sum.case if_True,
        subst parse_data.simps, simp only: r3 prod.case sum.case if_False)
  have cl: "hm_content_length ?h3 = n" "pm_content_start ?h3 = 0"
    using i(3,4) ie n(2)
    by (simp_all add: insert_header_def Let_def header_part_def atoi_to_string to_size_nonneg with_vec_def)
  have fx: "fixed_part ?h3 = fixed_part (h\<lparr>pm_status := st, pm_status_code := atoi st\<rparr>)"
    by (simp add: fixed_part_def with_vec_def insert_header_def Let_def)
  have vh3: "vec ?h3 = (?w @ [CHR 0x0A]) @ CHR 0x00 # zs" using vh2 by (simp add: vec_def)
  show ?thesis
    by (intro exI [of _ ?h3] exI [of _ "?w @ [CHR 0x0A]"] conjI pd vh3 cl fx) (simp_all add: len)
qed

text \<open>
  C39: completion is decided by counting alone, and too early. A response that has arrived up to its
  Content-Length line, with its header section still open, is reported done if the number that header
  announces is the number of bytes received so far: the content then is the raw header bytes.
\<close>

theorem incomplete_response_done:
  assumes "plain st" "100 \<le> atoi st" "atoi st \<le> 999" and "iequals ''Content-Length'' ''Content-Length''"
    and "length (fragment st n) = n" "n < 4095"
    and "sm_type s = TCP" "k_recvfrom K (sm_fd s) 4095 False k = ((int n, fragment st n, a), k')"
  shows "\<exists>h2. response_read_data iequals K (http_response_new g, (s, k)) = Some (Inr (), (h2, (s, k'))) \<and>
    is_done h2 \<and> length (unread (hm_content_buffer h2)) = n \<and>
    take 9 (unread (hm_content_buffer h2)) = ''HTTP/1.1 ''"
proof -
  let ?d = "fragment st n"
  let ?b = "\<lparr>m_buffer = ?d @ zeros (5120 - n), m_size = 4096, gptr = 0, pptr = 0\<rparr>"
  let ?h = "(http_response_new g)\<lparr>hm_state := READ_DATA, hm_content_buffer := ?b\<rparr>"
  let ?h' = "(http_response_new g)\<lparr>hm_state := READ_DATA, hm_content_buffer := ?b\<lparr>pptr := n\<rparr>\<rparr>"
  obtain zs where zs: "zeros (5120 - n) = CHR 0x00 # zs"
    using assms(6) by (cases "5120 - n") (auto simp: zeros_def)
  have "\<exists>h' w. parse_data iequals ?h' = (Inr (), h') \<and> vec h' = w @ CHR 0x00 # zs \<and>
    length w = length (fragment st n) \<and> pm_content_start h' = 0 \<and> hm_content_length h' = n \<and>
    take 9 w = ''HTTP/1.1 '' \<and> fixed_part h' = fixed_part (?h'\<lparr>pm_status := st, pm_status_code := atoi st\<rparr>)"
    by (rule parse_fragment [where iequals = iequals])
       (use assms(1-6) zs in \<open>simp_all add: vec_def http_response_new_def header_part_def\<close>)
  then obtain h2 w where p: "parse_data iequals ?h' = (Inr (), h2)" "vec h2 = w @ CHR 0x00 # zs" "length w = n"
    "pm_content_start h2 = 0" "hm_content_length h2 = n" "take 9 w = ''HTTP/1.1 ''"
    "fixed_part h2 = fixed_part (?h'\<lparr>pm_status := st, pm_status_code := atoi st\<rparr>)"
    using assms(5) by auto
  have pd': "parse_data iequals (?h\<lparr>hm_content_buffer := (hm_content_buffer ?h)\<lparr>pptr := n\<rparr>\<rparr>) = (Inr (), h2)"
    using p(1) by simp
  have f: "pptr (hm_content_buffer h2) = n" "m_size (hm_content_buffer h2) = 4096"
    using p(7) by (simp_all add: fixed_part_def)
  obtain h3 where h3: "received iequals n ?h = (Inr (), h3)" "is_done h3" "unread (hm_content_buffer h3) = w"
    using received_complete [OF pd' _ _ _ _ _ _ _ _ _ f(1), of "[]" w zs] p assms(5,6) f(2) zs
    by (auto simp: vec_def nth_append)
  have "?d \<noteq> []" by (simp add: fragment_def)
  then have "read_round iequals K ((http_response_new g)\<lparr>hm_state := READ_DATA,
      hm_content_buffer := \<lparr>m_buffer = zeros 5120, m_size = 4096, gptr = 0, pptr = 0\<rparr>\<rparr>, (s, k)) = (Inr False, (h3, (s, k')))"
    by (subst first_round [OF assms(7), of K k ?d a k']) (use assms(5,6,8) h3(1) in simp_all)
  from read_ready [OF this] h3 p(3,6) show ?thesis by auto
qed

lemma fragment_37: "length (fragment ''200 OK'' 37) = 37" "atoi ''200 OK'' = 200"
  by (code_simp, code_simp)

theorem incomplete_response_done_witness:
  "\<exists>h2 k'. response_read_data ascii_iequals script_kernel (http_response_new 7, (socket_of_fd 3,
       script_start [] [37] (fragment ''200 OK'' 37 @ CRLF @ ''body''))) = Some (Inr (), (h2, (socket_of_fd 3, k'))) \<and>
     is_done h2"
proof -
  let ?k = "script_start [] [37] (fragment ''200 OK'' 37 @ CRLF @ ''body'')"
  obtain k' where rx: "k_recvfrom script_kernel (sm_fd (socket_of_fd 3)) 4095 False ?k =
      ((int 37, fragment ''200 OK'' 37, None), k')"
    using fragment_37(1) by (simp add: script_kernel_def script_recv_def script_start_def Let_def min_def)
  have "plain ''200 OK''" by (simp add: plain_def)
  from incomplete_response_done [OF this _ _ _ fragment_37(1) _ _ rx, of ascii_iequals 7]
  show ?thesis by (auto simp: fragment_37(2) ascii_iequals_def socket_of_fd_def)
qed

text \<open>
  A first line with no blank after its first five bytes makes the parser follow a null pointer:
  \<^verbatim>\<open>read_data\<close> does not throw, it reads invalid memory, whatever the rest of the line.
\<close>

theorem status_without_blank:
  assumes "line = pre @ st" "length pre = 5" "plain line" "CHR '' '' \<notin> set st"
    and "length line + 2 < 4095" and "sm_type s = TCP"
    and "k_recvfrom K (sm_fd s) 4095 False k = ((int (length (line @ CRLF)), line @ CRLF, a), k')"
  shows "\<exists>h2. response_read_data iequals K (http_response_new g, (s, k)) = Some (Inl Memory, (h2, (s, k')))"
proof -
  let ?d = "line @ CRLF" and ?n = "length line + 2"
  let ?b = "\<lparr>m_buffer = ?d @ zeros (5120 - length ?d), m_size = 4096, gptr = 0, pptr = 0\<rparr>"
  let ?h = "(http_response_new g)\<lparr>hm_state := READ_DATA, hm_content_buffer := ?b\<rparr>"
  let ?h' = "(http_response_new g)\<lparr>hm_state := READ_DATA, hm_content_buffer := ?b\<lparr>pptr := length ?d\<rparr>\<rparr>"
  obtain zs where zs: "zeros (5120 - length ?d) = CHR 0x00 # zs"
    using assms(5) by (cases "5120 - length ?d") (auto simp: zeros_def CRLF_def)
  have v: "vec ?h' = line @ CHR 0x0D # CHR 0x0A # CHR 0x00 # zs" using zs by (simp add: vec_def CRLF_def)
  have e: "strstr_crlf (vec ?h') 0 = Inr (Some (length line))"
    using strstr_append [of line "CHR 0x00 # zs" 0 "[]"] assms(3) v by (simp add: plain_def)
  let ?v1 = "line @ CHR 0x00 # CHR 0x0A # CHR 0x00 # zs"
  have pk: "poke (length line) (CHR 0x00) ?h' = (Inr (), with_vec ?v1 ?h')"
    using poke_append [of ?h' line "CHR 0x0D" "CHR 0x0A # CHR 0x00 # zs" "length line"] v by simp
  have np: "CHR 0x00 \<notin> set st" using assms(1,3) by (simp add: plain_def)
  have fc: "find_char CHR '' '' st = None" using assms(4) by (induction st) auto
  have sc: "strchr ?v1 5 CHR '' '' = Inr None"
    using c_string_append [OF np, of 5 pre "CHR 0x0A # CHR 0x00 # zs"] assms(1,2) fc by (simp add: strchr_def)
  have init: "pm_last_line_start ?h' = 0" "pm_line_number ?h' = 0" "m_size (hm_content_buffer ?h') = 4096"
    by (simp_all add: http_response_new_def)
  have ps: "parse_status (with_vec ?v1 ?h') = (Inl Memory, with_vec ?v1 ?h')"
    using sc init by (simp add: parse_status_def bnd_def gets_def cptr_def query_def ptr_def fails_def)
  have ne: "line \<noteq> []" using assms(1,2) by auto
  have hd: "hd line \<noteq> CHR 0x0A" using hd_in_set [OF ne] assms(3) by (auto simp: plain_def)
  have vn: "vec ?h' \<noteq> []" unfolding v by simp
  have v0: "vec ?h' ! 0 = hd line" unfolding v using ne by (simp add: nth_append hd_conv_nth)
  have ld: "load 0 ?h' = (Inr (hd line), ?h')" using v0 vn by (simp add: load_def query_def)
  have r: "parse_round iequals ?h' = (Inl Memory, with_vec ?v1 ?h')"
    using e pk ps ld init hd ne
    by (simp add: parse_round_def parse_line_def bnd_def sq_def query_def gets_def cptr_def ptr_def ret_def)
  have pd: "parse_data iequals ?h' = (Inl Memory, with_vec ?v1 ?h')"
    using r by (subst parse_data.simps) simp
  have pk2: "poke (length ?d) (CHR 0x00) ?h' = (Inr (), ?h')"
    by (rule poke_same [of _ ?d _ zs]) (use zs in \<open>simp_all add: vec_def\<close>)
  have "received iequals (length ?d) ?h = (Inl Memory, with_vec ?v1 ?h')"
    using pd pk2
    by (simp add: received_def bnd_def sq_def content_op_def gets_def move_ptr_write_def)
  then have "read_round iequals K ((http_response_new g)\<lparr>hm_state := READ_DATA,
      hm_content_buffer := \<lparr>m_buffer = zeros 5120, m_size = 4096, gptr = 0, pptr = 0\<rparr>\<rparr>, (s, k)) =
      (Inl Memory, (with_vec ?v1 ?h', (s, k')))"
    by (subst first_round [OF assms(6,7)]) (use assms(5) ne in \<open>simp_all add: CRLF_def\<close>)
  from read_ready [OF this] show ?thesis by auto
qed

theorem status_without_blank_witness:
  "\<exists>h2 k'. response_read_data ascii_iequals script_kernel (http_response_new 7, (socket_of_fd 3,
       script_start [] [4095] (''HTTP/1.1'' @ CRLF))) = Some (Inl Memory, (h2, (socket_of_fd 3, k')))"
proof -
  let ?k = "script_start [] [4095] (''HTTP/1.1'' @ CRLF)"
  obtain k' where rx: "k_recvfrom script_kernel (sm_fd (socket_of_fd 3)) 4095 False ?k =
      ((int (length (''HTTP/1.1'' @ CRLF)), ''HTTP/1.1'' @ CRLF, None), k')"
    by (simp add: script_kernel_def script_recv_def script_start_def Let_def CRLF_def)
  from status_without_blank [of "''HTTP/1.1''" "''HTTP/''" "''1.1''", OF _ _ _ _ _ _ rx, of ascii_iequals 7]
  show ?thesis by (auto simp: plain_def socket_of_fd_def)
qed

end
