(* ===== verification/Uwsgi_Request.thy ===== *)
theory Uwsgi_Request
  imports Http_Request
begin

text \<open>
  uwsgi requests (\<^verbatim>\<open>include/tasks/net/uwsgi_request.h\<close>, \<^verbatim>\<open>tasks/net/uwsgi_request.cpp\<close>,
  \<^verbatim>\<open>uwsgi_structs.h\<close>): the packet header, the block of variables with its 16 bit lengths, and the
  state machine that reads header, variables and body from a socket.

  The packed header and the lengths are stored as the machine has them, little endian.
\<close>

section \<open>The packet header\<close>

record uwsgi_packet_header =
  modifier1 :: "8 word"
  datasize :: "16 word"
  modifier2 :: "8 word"

definition UWSGI_VARS :: "8 word" where
  "UWSGI_VARS = 0"

definition char_of_u8 :: "8 word \<Rightarrow> char" where
  "char_of_u8 w = char_of (unat w)"

definition u8_of_char :: "char \<Rightarrow> 8 word" where
  "u8_of_char c = word_of_nat (of_char c)"

definition header_bytes :: "uwsgi_packet_header \<Rightarrow> bytes" where
  "header_bytes p = [char_of_u8 (modifier1 p)] @ bytes_of_u16 (datasize p) @ [char_of_u8 (modifier2 p)]"

definition header_of_bytes :: "bytes \<Rightarrow> uwsgi_packet_header" where
  "header_of_bytes bs = \<lparr>modifier1 = u8_of_char (bs ! 0), datasize = u16_of_bytes (bs ! 1) (bs ! 2),
     modifier2 = u8_of_char (bs ! 3)\<rparr>"

definition sizeof_header :: nat where
  "sizeof_header = 4"

lemma u8_round_trip [simp]: "u8_of_char (char_of_u8 w) = w"
proof -
  have "unat w < 256" using unsigned_less [of w] by simp
  then show ?thesis by (simp add: u8_of_char_def char_of_u8_def)
qed

lemma header_round_trip [simp]: "header_of_bytes (header_bytes p) = p"
  using u16_round_trip [of "datasize p"]
  by (simp add: header_of_bytes_def header_bytes_def nth_append bytes_of_u16_def)

lemma length_header_bytes [simp]: "length (header_bytes p) = 4"
  by (simp add: header_bytes_def)

section \<open>The object\<close>

record uwsgi_request = http_base +
  um_header :: uwsgi_packet_header
  um_host :: string
  um_path :: string
  um_port :: int

text \<open>
  Only the default constructor initialises \<^verbatim>\<open>m_header\<close>; the ones for a remote host or path leave it
  as the memory was (\<open>garbage\<close>).
\<close>

definition uwsgi_with :: "uwsgi_packet_header \<Rightarrow> string \<Rightarrow> int \<Rightarrow> string \<Rightarrow> uwsgi_request" where
  "uwsgi_with pkt host port path = \<lparr>hm_data_buffer = buffer_new, hm_content_buffer = buffer_new, hm_state = READY,
     hm_headers = [], hm_content_length = 0, um_header = pkt, um_host = host, um_path = path, um_port = port\<rparr>"

definition zero_header :: uwsgi_packet_header where
  "zero_header = \<lparr>modifier1 = 0, datasize = 0, modifier2 = 0\<rparr>"

definition uwsgi_request_new :: uwsgi_request where
  "uwsgi_request_new = uwsgi_with zero_header [] (-1) []"

definition uwsgi_request_host :: "uwsgi_packet_header \<Rightarrow> string \<Rightarrow> int \<Rightarrow> uwsgi_request" where
  "uwsgi_request_host garbage host port = uwsgi_with garbage host port []"

definition uwsgi_request_path :: "uwsgi_packet_header \<Rightarrow> string \<Rightarrow> uwsgi_request" where
  "uwsgi_request_path garbage path = uwsgi_with garbage [] (-1) path"

definition var :: "string \<Rightarrow> uwsgi_request \<Rightarrow> string" where
  "var key h = (let val = header key h in if val = [] then [] else val)"

definition uwsgi_clear :: "uwsgi_request \<Rightarrow> uwsgi_request" where
  "uwsgi_clear h = (http_clear h)\<lparr>um_header := zero_header\<rparr>"

section \<open>Parsing the variables\<close>

definition load_u16 :: "nat \<Rightarrow> buffer \<Rightarrow> 16 word result" where
  "load_u16 pos b = rbind (ptr pos b) (\<lambda>p. rbind (fetch p 2 b) (\<lambda>bs. Inr (u16_of_bytes (bs ! 0) (bs ! 1))))"

definition load_bytes :: "nat \<Rightarrow> nat \<Rightarrow> buffer \<Rightarrow> bytes result" where
  "load_bytes pos n b = rbind (ptr pos b) (\<lambda>p. fetch p n b)"

text \<open>
  One round of the loop: the new position and object. \<^verbatim>\<open>key_start\<close> and \<^verbatim>\<open>val_start\<close> are 16 bit
  variables, the sums that are used as positions are computed as \<^verbatim>\<open>int\<close>.
\<close>

definition parse_var :: "(string \<Rightarrow> string \<Rightarrow> bool) \<Rightarrow> nat \<Rightarrow> uwsgi_request \<Rightarrow> (nat \<times> uwsgi_request) result" where
  "parse_var iequals pos h =
     (let b = hm_data_buffer h in
      rbind (load_u16 pos b) (\<lambda>key_len.
      let key_start = (word_of_nat (pos + 2) :: 16 word) in
      rbind (load_u16 (unat key_start + unat key_len) b) (\<lambda>val_len.
      let val_start = (word_of_nat (unat key_start + unat key_len + 2) :: 16 word);
          pos' = unat val_start + unat val_len in
      if key_len \<noteq> 0 \<and> val_len \<noteq> 0
      then rbind (load_bytes (unat key_start) (unat key_len) b) (\<lambda>key.
           rbind (load_bytes (unat val_start) (unat val_len) b) (\<lambda>val.
           Inr (pos', set_header iequals key val h)))
      else Inr (pos', h))))"

text \<open>The loop as it is, which need not end.\<close>

partial_function (option) parse_vars_from ::
  "(string \<Rightarrow> string \<Rightarrow> bool) \<Rightarrow> nat \<Rightarrow> uwsgi_request \<Rightarrow> uwsgi_request result option" where
  "parse_vars_from iequals pos h =
     (if pos < m_size (hm_data_buffer h)
      then (case parse_var iequals pos h of
              Inl e \<Rightarrow> Some (Inl e)
            | Inr (pos', h') \<Rightarrow> parse_vars_from iequals pos' h')
      else Some (Inr h))"

declare parse_vars_from.simps [code]

definition parse_vars :: "(string \<Rightarrow> string \<Rightarrow> bool) \<Rightarrow> uwsgi_request \<Rightarrow> uwsgi_request result option" where
  "parse_vars iequals h = parse_vars_from iequals 0 h"

section \<open>Serialisation\<close>

definition var_writes :: "string \<times> string \<Rightarrow> bytes list" where
  "var_writes kv =
     (let klen = (word_of_nat (length (fst kv)) :: 16 word); vlen = (word_of_nat (length (snd kv)) :: 16 word)
      in [bytes_of_u16 klen, take (unat klen) (fst kv), bytes_of_u16 vlen, take (unat vlen) (snd kv)])"

definition uwsgi_prepare ::
  "(string \<Rightarrow> string \<Rightarrow> bool) \<Rightarrow> (headers_t \<Rightarrow> headers_t) \<Rightarrow> uwsgi_request \<Rightarrow> uwsgi_request result" where
  "uwsgi_prepare iequals order h =
     (let n = m_size (hm_content_buffer h);
          h = (if n \<noteq> 0 then set_header iequals ''CONTENT_LENGTH'' (to_string n) h else h)
      in rbind (set_size sizeof_header (hm_data_buffer h)) (\<lambda>b.
         rbind (put_all buffer_write (concat (map var_writes (order (hm_headers h))))
                  (move_ptr_write sizeof_header b)) (\<lambda>b.
         let owrite = offset_write b;
             pkt = (um_header h)\<lparr>datasize := word_of_nat owrite\<rparr>
         in rbind (move_ptr_write_abs 0 b) (\<lambda>b.
            rbind (buffer_write (header_bytes pkt) b) (\<lambda>(_, b).
            rbind (move_ptr_write_abs owrite b) (\<lambda>b.
            Inr (h\<lparr>um_header := pkt, hm_data_buffer := b\<rparr>)))))))"

section \<open>Reading from a socket\<close>

type_synonym ('k, 'a) uwsgi_prog = "(uwsgi_request, 'k, 'a) http_prog"

text \<open>What the kernel returned is stored in the memory of the header, even if it is too short.\<close>

definition read_header :: "'k kernel \<Rightarrow> ('k, unit) uwsgi_prog" where
  "read_header K =
     bnd (on_sock (socket_read K sizeof_header)) (\<lambda>(bytes, data).
     sq (on_http (\<lambda>h. h\<lparr>um_header := header_of_bytes (overwrite 0 data (header_bytes (um_header h)))\<rparr>))
        (if bytes \<noteq> int sizeof_header
         then fails (Thrown (tasks_exception_msg UWSGI_HEADER_ERROR ''uwsgi_request: error reading header''))
         else ret ()))"

text \<open>A read into the free part of a buffer; a negative room is passed on as a huge one.\<close>

definition read_into ::
  "'k kernel \<Rightarrow> (uwsgi_request \<Rightarrow> buffer) \<Rightarrow> (buffer \<Rightarrow> uwsgi_request \<Rightarrow> uwsgi_request) \<Rightarrow> ('k, unit) uwsgi_prog" where
  "read_into K buf put =
     bnd (the_http buf) (\<lambda>b.
     bnd (on_sock (socket_read K (to_size (to_write b)))) (\<lambda>(bytes, data).
     sq (try_http (\<lambda>h. rbind (store (pptr b) data b) (\<lambda>b. Inr (put b h))))
        (if bytes > 0 then on_http (\<lambda>h. put (move_ptr_write (nat bytes) (buf h)) h) else ret ())))"

text \<open>\<^verbatim>\<open>None\<close> is a call that does not return.\<close>

definition read_vars ::
  "(string \<Rightarrow> string \<Rightarrow> bool) \<Rightarrow> 'k kernel \<Rightarrow> uwsgi_request \<times> sock \<times> 'k \<Rightarrow>
   (unit result \<times> (uwsgi_request \<times> sock \<times> 'k)) option" where
  "read_vars iequals K st =
     (case read_into K hm_data_buffer (\<lambda>b h. h\<lparr>hm_data_buffer := b\<rparr>) st of
        (Inl e, st') \<Rightarrow> Some (Inl e, st')
      | (Inr _, (h, sk)) \<Rightarrow>
          if to_write (hm_data_buffer h) = 0 \<and> modifier1 (um_header h) = UWSGI_VARS
          then (case parse_vars iequals h of
                  None \<Rightarrow> None
                | Some (Inl e) \<Rightarrow> Some (Inl e, (h, sk))
                | Some (Inr h) \<Rightarrow>
                    let content_len_s = var ''CONTENT_LENGTH'' h
                    in if content_len_s \<noteq> []
                       then Some (try_http (\<lambda>h.
                              rbind (set_size (to_size (atoi content_len_s)) (hm_content_buffer h)) (\<lambda>b.
                              Inr (h\<lparr>hm_content_buffer := b, hm_state := READ_CONTENT\<rparr>))) (h, sk))
                       else Some (Inr (), (h\<lparr>hm_state := DONE\<rparr>, sk)))
          else Some (Inr (), (h, sk)))"

definition read_content :: "'k kernel \<Rightarrow> ('k, unit) uwsgi_prog" where
  "read_content K =
     sq (read_into K hm_content_buffer (\<lambda>b h. h\<lparr>hm_content_buffer := b\<rparr>))
        (on_http (\<lambda>h. if to_write (hm_content_buffer h) = 0 then h\<lparr>hm_state := DONE\<rparr> else h))"

definition start_read :: "'k kernel \<Rightarrow> ('k, unit) uwsgi_prog" where
  "start_read K =
     bnd (the_http hm_state) (\<lambda>st.
       if st = READY
       then sq (on_http (\<lambda>h. h\<lparr>hm_state := READ_HEADER\<rparr>))
           (sq (read_header K)
           (sq (on_http (\<lambda>h. h\<lparr>hm_state := READ_DATA\<rparr>))
               (try_http (\<lambda>h. rbind (set_size (unat (datasize (um_header h))) (hm_data_buffer h)) (\<lambda>b.
                  Inr (h\<lparr>hm_data_buffer := b\<rparr>))))))
       else ret ())"

definition uwsgi_read_data ::
  "(string \<Rightarrow> string \<Rightarrow> bool) \<Rightarrow> 'k kernel \<Rightarrow> uwsgi_request \<times> sock \<times> 'k \<Rightarrow>
   (unit result \<times> (uwsgi_request \<times> sock \<times> 'k)) option" where
  "uwsgi_read_data iequals K st =
     (case start_read K st of
        (Inl e, st) \<Rightarrow> Some (Inl e, st)
      | (Inr _, st) \<Rightarrow>
          (case (if hm_state (fst st) = READ_DATA then read_vars iequals K st else Some (Inr (), st)) of
             None \<Rightarrow> None
           | Some (Inl e, st) \<Rightarrow> Some (Inl e, st)
           | Some (Inr _, st) \<Rightarrow>
               Some (if hm_state (fst st) = READ_CONTENT then read_content K st else (Inr (), st))))"

section \<open>Termination\<close>

lemma load_u16_Inr: "load_u16 pos b = Inr w \<Longrightarrow> pos \<le> m_size b"
  by (auto simp: load_u16_def ptr_def split: if_splits)

lemma set_header_buf [simp]: "hm_data_buffer (set_header iequals k v h) = hm_data_buffer h"
  by (simp add: set_header_def Let_def)

lemma parse_var_moves:
  assumes "parse_var iequals pos h = Inr (pos', h')" and "pos < m_size (hm_data_buffer h)"
    and "m_size (hm_data_buffer h) \<le> 65533"
  shows "pos < pos' \<and> hm_data_buffer h' = hm_data_buffer h"
proof -
  let ?b = "hm_data_buffer h"
  from assms(1) obtain kl vl where k: "load_u16 pos ?b = Inr kl"
    and v: "load_u16 (unat (word_of_nat (pos + 2) :: 16 word) + unat kl) ?b = Inr vl"
    and p: "pos' = unat (word_of_nat (unat (word_of_nat (pos + 2) :: 16 word) + unat kl + 2) :: 16 word) + unat vl"
    and b: "hm_data_buffer h' = ?b"
    by (auto simp: parse_var_def Let_def split: if_splits)
  have ks: "unat (word_of_nat (pos + 2) :: 16 word) = pos + 2"
    unfolding unat_u16_of_nat using assms(2,3) by simp
  have "pos + 2 + unat kl + 2 < 65536" using load_u16_Inr [OF v] ks assms(3) by simp
  then have "unat (word_of_nat (pos + 2 + unat kl + 2) :: 16 word) = pos + 2 + unat kl + 2"
    unfolding unat_u16_of_nat by simp
  with p b ks show ?thesis by simp
qed

lemma parse_vars_returns:
  "m_size (hm_data_buffer h) \<le> 65533 \<Longrightarrow> \<exists>r. parse_vars_from iequals pos h = Some r"
proof (induction "m_size (hm_data_buffer h) - pos" arbitrary: pos h rule: less_induct)
  case less
  show ?case
  proof (cases "pos < m_size (hm_data_buffer h)")
    case True
    show ?thesis
    proof (cases "parse_var iequals pos h")
      case (Inl e)
      with True show ?thesis by (simp add: parse_vars_from.simps)
    next
      case (Inr x)
      obtain pos' h' where x: "x = (pos', h')" by fastforce
      with parse_var_moves [OF Inr [unfolded x] True less.prems]
      have "\<exists>r. parse_vars_from iequals pos' h' = Some r" using True less.prems by (intro less.hyps) auto
      with True Inr x show ?thesis by (subst parse_vars_from.simps) simp
    qed
  qed (simp add: parse_vars_from.simps)
qed

section \<open>Encoding and parsing\<close>

definition encode_var :: "string \<times> string \<Rightarrow> bytes" where
  "encode_var kv = bytes_of_u16 (word_of_nat (length (fst kv))) @ fst kv @
     bytes_of_u16 (word_of_nat (length (snd kv))) @ snd kv"

definition var_ok :: "string \<times> string \<Rightarrow> bool" where
  "var_ok kv \<longleftrightarrow> fst kv \<noteq> [] \<and> snd kv \<noteq> [] \<and> length (fst kv) < 65536 \<and> length (snd kv) < 65536"

lemma concat_var_writes: "\<forall>kv \<in> set kvs. var_ok kv \<Longrightarrow> concat (concat (map var_writes kvs)) = concat (map encode_var kvs)"
  by (induction kvs) (auto simp: var_writes_def encode_var_def Let_def unat_u16_of_nat var_ok_def)

lemma load_u16_at:
  assumes "m_buffer b = pre @ bytes_of_u16 w @ post" "length pre \<le> m_size b" "i = length pre"
  shows "load_u16 i b = Inr w"
  using assms u16_round_trip [of w]
  by (simp add: load_u16_def ptr_def fetch_def bytes_of_u16_def)

lemma load_bytes_at:
  assumes "m_buffer b = pre @ xs @ post" "length pre \<le> m_size b" "i = length pre" "n = length xs"
  shows "load_bytes i n b = Inr xs"
  using assms by (simp add: load_bytes_def ptr_def fetch_def)

lemma parse_var_at:
  assumes m: "m_buffer (hm_data_buffer h) = pre @ encode_var (key, val) @ post" and ok: "var_ok (key, val)"
    and sz: "length pre + length (encode_var (key, val)) \<le> m_size (hm_data_buffer h)" "m_size (hm_data_buffer h) \<le> 65533"
  shows "parse_var iequals (length pre) h =
    Inr (length pre + length (encode_var (key, val)), set_header iequals key val h)"
proof -
  let ?b = "hm_data_buffer h" and ?kl = "word_of_nat (length key) :: 16 word" and ?vl = "word_of_nat (length val) :: 16 word"
  have u: "unat ?kl = length key" "unat ?vl = length val" using ok by (simp_all add: unat_u16_of_nat var_ok_def)
  have len: "length (encode_var (key, val)) = length key + length val + 4" by (simp add: encode_var_def)
  have nz: "?kl \<noteq> 0" "?vl \<noteq> 0" using u ok by (auto simp: var_ok_def)
  have ks: "unat (word_of_nat (length pre + 2) :: 16 word) = length pre + 2"
    unfolding unat_u16_of_nat using sz len by simp
  have vs: "unat (word_of_nat (length pre + 2 + length key + 2) :: 16 word) = length pre + 2 + length key + 2"
    unfolding unat_u16_of_nat using sz len by simp
  have l1: "load_u16 (length pre) ?b = Inr ?kl"
    by (rule load_u16_at [of _ pre _ "key @ bytes_of_u16 ?vl @ val @ post"]) (use m sz len in \<open>simp_all add: encode_var_def\<close>)
  have l2: "load_u16 (length pre + 2 + length key) ?b = Inr ?vl"
    by (rule load_u16_at [of _ "pre @ bytes_of_u16 ?kl @ key" _ "val @ post"]) (use m sz len in \<open>simp_all add: encode_var_def\<close>)
  have l3: "load_bytes (length pre + 2) (length key) ?b = Inr key"
    by (rule load_bytes_at [of _ "pre @ bytes_of_u16 ?kl" _ "bytes_of_u16 ?vl @ val @ post"]) (use m sz len in \<open>simp_all add: encode_var_def\<close>)
  have l4: "load_bytes (length pre + 2 + length key + 2) (length val) ?b = Inr val"
    by (rule load_bytes_at [of _ "pre @ bytes_of_u16 ?kl @ key @ bytes_of_u16 ?vl" _ post]) (use m sz len in \<open>simp_all add: encode_var_def\<close>)
  show ?thesis
    unfolding parse_var_def Let_def l1 rbind_simps ks u l2 vs l3 l4 using nz len by simp
qed

definition set_headers :: "(string \<Rightarrow> string \<Rightarrow> bool) \<Rightarrow> headers_t \<Rightarrow> uwsgi_request \<Rightarrow> uwsgi_request" where
  "set_headers iequals kvs h = fold (\<lambda>(k, v). set_header iequals k v) kvs h"

lemma parse_vars_at:
  assumes "m_buffer (hm_data_buffer h) = pre @ concat (map encode_var kvs) @ replicate 4 (CHR 0x00) @ post"
    and "\<forall>kv \<in> set kvs. var_ok kv"
    and "m_size (hm_data_buffer h) = length pre + length (concat (map encode_var kvs)) + 4"
    and "m_size (hm_data_buffer h) \<le> 65533"
  shows "parse_vars_from iequals (length pre) h = Some (Inr (set_headers iequals kvs h))"
  using assms
proof (induction kvs arbitrary: pre h)
  case Nil
  have z: "bytes_of_u16 0 = [CHR 0x00, CHR 0x00]" by code_simp
  have r: "replicate 4 (CHR 0x00) = bytes_of_u16 0 @ bytes_of_u16 0"
    by (simp add: z numeral_eq_Suc)
  have l1: "load_u16 (length pre) (hm_data_buffer h) = Inr 0"
    by (rule load_u16_at [of _ pre _ "bytes_of_u16 0 @ post"]) (use Nil in \<open>simp_all add: r\<close>)
  have l2: "load_u16 (length pre + 2) (hm_data_buffer h) = Inr 0"
    by (rule load_u16_at [of _ "pre @ bytes_of_u16 0" _ post]) (use Nil in \<open>simp_all add: r\<close>)
  have ks: "unat (word_of_nat (length pre + 2) :: 16 word) = length pre + 2"
    "unat (word_of_nat (length pre + 2 + 0 + 2) :: 16 word) = length pre + 4"
    unfolding unat_u16_of_nat using Nil by simp_all
  have u0: "unat (0 :: 16 word) = 0" by simp
  have "parse_var iequals (length pre) h = Inr (length pre + 4, h)"
    unfolding parse_var_def Let_def l1 rbind_simps ks(1) u0 add_0_right l2 using ks(2) by simp
  then show ?case
    using Nil by (subst parse_vars_from.simps) (simp, subst parse_vars_from.simps, simp add: set_headers_def)
next
  case (Cons kv kvs)
  obtain k v where kv: "kv = (k, v)" by fastforce
  let ?post = "concat (map encode_var kvs) @ replicate 4 (CHR 0x00) @ post"
  have p: "parse_var iequals (length pre) h = Inr (length pre + length (encode_var (k, v)), set_header iequals k v h)"
    by (rule parse_var_at [of _ _ _ _ ?post]) (use Cons.prems in \<open>simp_all add: kv\<close>)
  have "parse_vars_from iequals (length (pre @ encode_var (k, v))) (set_header iequals k v h) =
      Some (Inr (set_headers iequals kvs (set_header iequals k v h)))"
    by (rule Cons.IH) (use Cons.prems in \<open>simp_all add: kv\<close>)
  with p Cons.prems(3) show ?case
    by (subst parse_vars_from.simps) (simp add: kv set_headers_def encode_var_def)
qed

end
