(* ===== verification/Uwsgi_Properties.thy ===== *)
theory Uwsgi_Properties
  imports Uwsgi_Request
begin

text \<open>
  What the uwsgi packet looks like on the wire, that a packet read back gives the variables that were
  put in, and when the parser of the variables ends.
\<close>

section \<open>The packet on the wire\<close>

text \<open>The byte of a vector that is extended with zeros as far as needed.\<close>

definition pad_nth :: "bytes \<Rightarrow> nat \<Rightarrow> char" where
  "pad_nth v i = (if i < length v then v ! i else CHR 0x00)"

lemma pad_nth_grow [simp]: "pad_nth (grow s v) i = pad_nth v i"
  by (auto simp: pad_nth_def grow_def nth_append)

lemma pad_nth_overwrite:
  "p + length xs \<le> length v \<Longrightarrow> p + length xs \<le> i \<Longrightarrow> pad_nth (overwrite p xs v) i = pad_nth v i"
  by (auto simp: pad_nth_def length_overwrite nth_overwrite)

lemma buffer_write_pad:
  assumes "append_ok b" "buffer_write xs b = Inr (n, b')" "m_size b' \<le> i"
  shows "pad_nth (m_buffer b') i = pad_nth (m_buffer b) i"
proof -
  have ok: "buffer_ok b" "pptr b = m_size b" using assms(1) by (simp_all add: append_ok_def)
  let ?v = "grow (m_size b + length xs) (m_buffer b)"
  have b': "m_buffer b' = overwrite (m_size b) xs ?v" "m_size b' = m_size b + length xs"
    using assms(2) ok by (auto simp: buffer_write_ok)
  have "m_size b + length xs \<le> length ?v" by (rule length_grow)
  then show ?thesis using assms(3) b' by (simp add: pad_nth_overwrite)
qed

lemma put_all_pad:
  "\<lbrakk>append_ok b; put_all buffer_write xss b = Inr b'; m_size b' \<le> i\<rbrakk> \<Longrightarrow>
   pad_nth (m_buffer b') i = pad_nth (m_buffer b) i \<and> m_size b' = m_size b + length (concat xss) \<and> gptr b' = gptr b"
proof (induction xss arbitrary: b)
  case (Cons xs xss)
  obtain b1 where b1: "buffer_write xs b = Inr (length xs, b1)" "append_ok b1" "m_size b1 = m_size b + length xs"
    "gptr b1 = gptr b"
    using buffer_write_append [OF Cons.prems(1), of xs] by auto
  with Cons.IH [of b1] Cons.prems have
    "pad_nth (m_buffer b') i = pad_nth (m_buffer b1) i" "m_size b' = m_size b1 + length (concat xss)" "gptr b' = gptr b1"
    by auto
  with b1 buffer_write_pad [OF Cons.prems(1) b1(1), of i] Cons.prems(3) show ?case by simp
qed simp

text \<open>The variables that go on the wire: with content, its length is one of them.\<close>

definition wire_vars :: "(string \<Rightarrow> string \<Rightarrow> bool) \<Rightarrow> uwsgi_request \<Rightarrow> uwsgi_request" where
  "wire_vars iequals h = (if m_size (hm_content_buffer h) \<noteq> 0
     then set_header iequals ''CONTENT_LENGTH'' (to_string (m_size (hm_content_buffer h))) h else h)"

lemma wire_vars_sel [simp]:
  "hm_data_buffer (wire_vars iequals h) = hm_data_buffer h"
  "hm_content_buffer (wire_vars iequals h) = hm_content_buffer h" "um_header (wire_vars iequals h) = um_header h"
  by (simp_all add: wire_vars_def set_header_def Let_def)

lemma uwsgi_prepare_vars:
  "uwsgi_prepare iequals order h =
     (let h = wire_vars iequals h
      in rbind (set_size sizeof_header (hm_data_buffer h)) (\<lambda>b.
         rbind (put_all buffer_write (concat (map var_writes (order (hm_headers h))))
                  (move_ptr_write sizeof_header b)) (\<lambda>b.
         let owrite = offset_write b;
             pkt = (um_header h)\<lparr>datasize := word_of_nat owrite\<rparr>
         in rbind (move_ptr_write_abs 0 b) (\<lambda>b.
            rbind (buffer_write (header_bytes pkt) b) (\<lambda>(_, b).
            rbind (move_ptr_write_abs owrite b) (\<lambda>b.
            Inr (h\<lparr>um_header := pkt, hm_data_buffer := b\<rparr>)))))))"
  unfolding uwsgi_prepare_def wire_vars_def Let_def by (rule refl)

lemma overwrite_front:
  assumes "4 \<le> m" "length xs = 4" "m + 4 \<le> length g"
  shows "take (m + 4) (overwrite 0 xs g) = xs @ drop 4 (take m g) @ map (pad_nth g) [m..<m + 4]"
proof -
  have "take 4 (drop m g) = map (pad_nth g) [m..<m + 4]"
    using assms by (intro nth_equalityI) (auto simp: pad_nth_def)
  moreover have "take m (drop 4 g) = drop 4 (take m g) @ take 4 (drop m g)"
    using assms take_add [of "m - 4" 4 "drop 4 g"] by (simp add: drop_take)
  ultimately show ?thesis using assms by (simp add: overwrite_def)
qed

lemma uwsgi_prepare_wire:
  assumes b: "m_size (hm_data_buffer h) = 0" "gptr (hm_data_buffer h) = 0" "pptr (hm_data_buffer h) = 0"
    and kvs: "kvs = order (hm_headers (wire_vars iequals h))" "\<forall>kv \<in> set kvs. var_ok kv"
    and enc: "enc = concat (map encode_var kvs)"
  shows "\<exists>h1. uwsgi_prepare iequals order h = Inr h1 \<and> buffer_ok (hm_data_buffer h1) \<and>
    um_header h1 = (um_header h)\<lparr>datasize := word_of_nat (4 + length enc)\<rparr> \<and>
    unread (hm_data_buffer h1) = header_bytes (um_header h1) @ enc @
      map (pad_nth (m_buffer (hm_data_buffer h))) [4 + length enc..<8 + length enc]"
proof -
  let ?h = "wire_vars iequals h" and ?v = "m_buffer (hm_data_buffer h)"
  let ?b0 = "\<lparr>m_buffer = grow 4 ?v, m_size = 4, gptr = 0, pptr = 4\<rparr>"
  have s0: "rbind (set_size sizeof_header (hm_data_buffer h)) (\<lambda>b. Inr (move_ptr_write sizeof_header b)) = Inr ?b0"
    using b by (cases "hm_data_buffer h")
      (simp add: set_size_ok buffer_ok_def move_ptr_write_def sizeof_header_def)
  then obtain b00 where b00: "set_size sizeof_header (hm_data_buffer h) = Inr b00" "move_ptr_write sizeof_header b00 = ?b0"
    by auto
  have a0: "append_ok ?b0" using length_grow(1) [of 4 ?v] by (simp add: append_ok_def buffer_ok_def)
  let ?w = "concat (map var_writes kvs)"
  have cw: "concat ?w = enc" using concat_var_writes [OF kvs(2)] enc by simp
  obtain b1 where b1: "put_all buffer_write ?w ?b0 = Inr b1" "append_ok b1" "unread b1 = unread ?b0 @ enc"
    using buf.put_all_concat [OF a0, of ?w] cw by auto
  have sz: "m_size b1 = 4 + length enc" "gptr b1 = 0"
    and pad: "pad_nth (m_buffer b1) i = pad_nth ?v i" if "4 + length enc \<le> i" for i
    using put_all_pad [OF a0 b1(1), of "m_size b1"] put_all_pad [OF a0 b1(1), of i] cw that by auto
  then have sz: "m_size b1 = 4 + length enc" "gptr b1 = 0" and pad: "\<And>i. 4 + length enc \<le> i \<Longrightarrow> pad_nth (m_buffer b1) i = pad_nth ?v i"
    by auto
  have ow: "offset_write b1 = 4 + length enc" using b1(2) sz by (simp add: append_ok_def offset_write_def)
  let ?p = "(um_header h)\<lparr>datasize := word_of_nat (4 + length enc)\<rparr>"
  let ?b2 = "b1\<lparr>pptr := 0\<rparr>" and ?g = "grow (m_size b1 + 4) (m_buffer b1)"
  have ok2: "buffer_ok ?b2" using b1(2) by (simp add: append_ok_def buffer_ok_def)
  let ?b3 = "b1\<lparr>m_buffer := overwrite 0 (header_bytes ?p) ?g, m_size := m_size b1 + 4, pptr := 4\<rparr>"
  have w3: "buffer_write (header_bytes ?p) ?b2 = Inr (4, ?b3)"
    using buffer_write_ok [OF ok2, of "header_bytes ?p"] by simp
  let ?b4 = "?b3\<lparr>pptr := 4 + length enc\<rparr>" and ?h1 = "?h\<lparr>um_header := ?p, hm_data_buffer := ?b3\<lparr>pptr := 4 + length enc\<rparr>\<rparr>"
  have w: "uwsgi_prepare iequals order h = Inr ?h1"
    unfolding uwsgi_prepare_vars Let_def wire_vars_sel b00 rbind_simps kvs(1) [symmetric] b1(1) ow
    using w3 sz by (simp add: move_ptr_write_abs_def ptr_def del: length_header_bytes)
  have gl: "m_size b1 + 4 \<le> length ?g" by (rule length_grow)
  have bl: "m_size b1 \<le> length (m_buffer b1)" using b1(2) by (simp add: append_ok_def buffer_ok_def)
  have "take (m_size b1) (m_buffer b1) = take 4 (grow 4 ?v) @ enc" using b1(3) sz by (simp add: unread_def)
  moreover have "length (take 4 (grow 4 ?v)) = 4" using length_grow(1) [of 4 ?v] by simp
  ultimately have t: "drop 4 (take (m_size b1) ?g) = enc" using bl by simp
  have "map (pad_nth ?g) [m_size b1..<m_size b1 + 4] = map (pad_nth ?v) [4 + length enc..<8 + length enc]"
    using sz pad by simp
  then have "take (m_size b1 + 4) (overwrite 0 (header_bytes ?p) ?g) = header_bytes ?p @ enc @
      map (pad_nth ?v) [4 + length enc..<8 + length enc]"
    using overwrite_front [of "m_size b1" "header_bytes ?p" ?g] gl sz t by simp
  then have "unread (hm_data_buffer ?h1) = header_bytes ?p @ enc @ map (pad_nth ?v) [4 + length enc..<8 + length enc]"
    using sz by (simp add: unread_def)
  moreover have "buffer_ok (hm_data_buffer ?h1)"
    using gl sz by (simp add: buffer_ok_def length_overwrite)
  ultimately show ?thesis using w by auto
qed

text \<open>The packet as the head of a message: what the vector held before shows in its last four bytes.\<close>

definition packet_head :: "(string \<Rightarrow> string \<Rightarrow> bool) \<Rightarrow> (headers_t \<Rightarrow> headers_t) \<Rightarrow> uwsgi_request \<Rightarrow> bytes" where
  "packet_head iequals order h =
     (let enc = concat (map encode_var (order (hm_headers (wire_vars iequals h))))
      in header_bytes ((um_header h)\<lparr>datasize := word_of_nat (4 + length enc)\<rparr>) @ enc @
         map (pad_nth (m_buffer (hm_data_buffer h))) [4 + length enc..<8 + length enc])"

definition packet_fit :: "(string \<Rightarrow> string \<Rightarrow> bool) \<Rightarrow> (headers_t \<Rightarrow> headers_t) \<Rightarrow> uwsgi_request \<Rightarrow> bool" where
  "packet_fit iequals order h \<longleftrightarrow> m_size (hm_data_buffer h) = 0 \<and> gptr (hm_data_buffer h) = 0 \<and> pptr (hm_data_buffer h) = 0 \<and>
     buffer_ok (hm_content_buffer h) \<and> list_all var_ok (order (hm_headers (wire_vars iequals h)))"

interpretation uq: outgoing "uwsgi_prepare iequals order" "packet_head iequals order" "packet_fit iequals order"
  for iequals :: "string \<Rightarrow> string \<Rightarrow> bool" and order :: "headers_t \<Rightarrow> headers_t"
proof
  fix h
  assume h: "packet_fit iequals order h"
  then obtain h1 where h1: "uwsgi_prepare iequals order h = Inr h1" "buffer_ok (hm_data_buffer h1)"
    "unread (hm_data_buffer h1) = packet_head iequals order h"
    using uwsgi_prepare_wire [of h _ order iequals, OF _ _ _ refl _ refl]
    by (auto simp: packet_fit_def packet_head_def Let_def list_all_iff)
  moreover have "hm_content_buffer h1 = hm_content_buffer h"
    using h1(1) unfolding uwsgi_prepare_vars Let_def by auto
  ultimately show "\<exists>h1. uwsgi_prepare iequals order h = Inr h1 \<and> bufs_ok h1 \<and>
      unread (hm_data_buffer h1) = packet_head iequals order h \<and> hm_content_buffer h1 = hm_content_buffer h"
    using h by (auto simp: bufs_ok_def packet_fit_def)
qed

section \<open>Reading a packet\<close>

lemma set_headers_sel [simp]:
  "hm_data_buffer (set_headers iequals kvs h) = hm_data_buffer h"
  "hm_content_buffer (set_headers iequals kvs h) = hm_content_buffer h"
  "hm_state (set_headers iequals kvs h) = hm_state h" "um_header (set_headers iequals kvs h) = um_header h"
  by (induction kvs arbitrary: h) (auto simp: set_headers_def set_header_def Let_def split: prod.splits)

lemma update_new: "k \<notin> fst ` set al \<Longrightarrow> AList.update k v al = al @ [(k, v)]"
  by (induction al) auto

lemma set_headers_distinct:
  "distinct (map fst (hm_headers h @ kvs)) \<Longrightarrow> hm_headers (set_headers iequals kvs h) = hm_headers h @ kvs"
proof (induction kvs arbitrary: h)
  case (Cons kv kvs)
  obtain k v where kv: "kv = (k, v)" by fastforce
  have "hm_headers (set_header iequals k v h) = hm_headers h @ [(k, v)]"
    using Cons.prems kv by (simp add: set_header_def Let_def update_new)
  then show ?case using Cons kv by (simp add: set_headers_def)
qed (simp add: set_headers_def)

text \<open>A read that fills a buffer of the given size at once.\<close>

lemma read_into_fills:
  assumes "buf h = \<lparr>m_buffer = grow n [], m_size = n, gptr = 0, pptr = 0\<rparr>" "length data = n" "0 < n" "n < 2 ^ 64"
    and "sm_type s = TCP" "k_recvfrom K (sm_fd s) n False k = ((int n, data, a), k')"
    and "\<And>b. buf (put b h) = b" "\<And>b b'. put b (put b' h) = put b h"
  shows "read_into K buf put (h, (s, k)) =
    (Inr (), (put \<lparr>m_buffer = data @ replicate 1024 (CHR 0x00), m_size = n, gptr = 0, pptr = n\<rparr> h, (s, k')))"
proof -
  have sz: "to_size (to_write (buf h)) = n" using assms(1,4) by (simp add: to_size_def to_write_def)
  have "store (pptr (buf h)) data (buf h) = Inr \<lparr>m_buffer = data @ replicate 1024 (CHR 0x00), m_size = n, gptr = 0, pptr = 0\<rparr>"
    using assms(1,2,3) by (simp add: store_def overwrite_def grow_def)
  then show ?thesis
    using sz assms socket_read_stream [OF assms(5,6)]
    by (simp add: read_into_def prog_defs http_prog_defs move_ptr_write_def)
qed

lemma start_read_packet:
  assumes "sm_type s = TCP" "k_recvfrom K (sm_fd s) 4 False k = ((4, header_bytes p, a), k')"
  shows "start_read K (uwsgi_request_new, (s, k)) = (Inr (), (uwsgi_request_new\<lparr>hm_state := READ_DATA, um_header := p,
    hm_data_buffer := \<lparr>m_buffer = grow (unat (datasize p)) [], m_size = unat (datasize p), gptr = 0, pptr = 0\<rparr>\<rparr>, (s, k')))"
proof -
  have "overwrite 0 (header_bytes p) (header_bytes q) = header_bytes p" for q by (simp add: overwrite_def)
  then show ?thesis
    using socket_read_stream [OF assms]
    by (simp add: start_read_def read_header_def prog_defs http_prog_defs sizeof_header_def uwsgi_request_new_def
        uwsgi_with_def set_size_ok buffer_new_def buffer_ok_def)
qed

lemma read_vars_packet:
  fixes h :: uwsgi_request
  assumes enc: "enc = concat (map encode_var kvs)" "\<forall>kv \<in> set kvs. var_ok kv" "distinct (map fst kvs)" "4 + length enc \<le> 65533"
    and h: "hm_data_buffer h = \<lparr>m_buffer = grow (4 + length enc) [], m_size = 4 + length enc, gptr = 0, pptr = 0\<rparr>"
      "modifier1 (um_header h) = UWSGI_VARS" "hm_headers h = []" "hm_content_buffer h = buffer_new"
    and rx: "sm_type s = TCP"
      "k_recvfrom K (sm_fd s) (4 + length enc) False k = ((int (4 + length enc), enc @ replicate 4 (CHR 0x00), a), k')"
  obtains h' where "hm_headers h' = kvs" "hm_content_buffer h' = buffer_new" "um_header h' = um_header h"
    "read_vars iequals K (h, (s, k)) = Some (Inr (), ((case map_of kvs ''CONTENT_LENGTH'' of
       None \<Rightarrow> h'\<lparr>hm_state := DONE\<rparr>
     | Some v \<Rightarrow> let n = to_size (atoi v)
         in h'\<lparr>hm_content_buffer := \<lparr>m_buffer = grow n [], m_size = n, gptr = 0, pptr = 0\<rparr>, hm_state := READ_CONTENT\<rparr>), (s, k')))"
proof -
  let ?z = "replicate 1024 (CHR 0x00)" and ?n = "4 + length enc"
  let ?b = "\<lparr>m_buffer = (enc @ replicate 4 (CHR 0x00)) @ ?z, m_size = ?n, gptr = 0, pptr = ?n\<rparr>"
  let ?h1 = "h\<lparr>hm_data_buffer := ?b\<rparr>"
  have r: "read_into K hm_data_buffer (\<lambda>b h. h\<lparr>hm_data_buffer := b\<rparr>) (h, (s, k)) = (Inr (), (?h1, (s, k')))"
    by (rule read_into_fills [where data = "enc @ replicate 4 (CHR 0x00)" and a = a]) (use h rx enc(4) in simp_all)
  have "parse_vars_from iequals (length ([] :: bytes)) ?h1 = Some (Inr (set_headers iequals kvs ?h1))"
    by (rule parse_vars_at [where post = ?z]) (use enc in simp_all)
  then have pv: "parse_vars iequals ?h1 = Some (Inr (set_headers iequals kvs ?h1))" by (simp add: parse_vars_def)
  let ?h2 = "set_headers iequals kvs ?h1"
  have hd: "hm_headers ?h2 = kvs" using set_headers_distinct [of ?h1 kvs iequals] h(3) enc(3) by simp
  have ne: "v \<noteq> []" if "map_of kvs ''CONTENT_LENGTH'' = Some v" for v
    using map_of_SomeD [OF that] enc(2) by (auto simp: var_ok_def)
  have v: "var ''CONTENT_LENGTH'' ?h2 = (case map_of kvs ''CONTENT_LENGTH'' of None \<Rightarrow> [] | Some v \<Rightarrow> v)"
    unfolding var_def header_def hd Let_def by simp
  have tw: "to_write (hm_data_buffer ?h1) = 0" "modifier1 (um_header ?h1) = UWSGI_VARS"
    using h(2) by (simp_all add: to_write_def)
  show thesis
  proof (rule that [of ?h2])
    show "read_vars iequals K (h, (s, k)) = Some (Inr (), ((case map_of kvs ''CONTENT_LENGTH'' of
         None \<Rightarrow> ?h2\<lparr>hm_state := DONE\<rparr>
       | Some v \<Rightarrow> let n = to_size (atoi v)
           in ?h2\<lparr>hm_content_buffer := \<lparr>m_buffer = grow n [], m_size = n, gptr = 0, pptr = 0\<rparr>, hm_state := READ_CONTENT\<rparr>), (s, k')))"
      unfolding read_vars_def r prod.case sum.case pv option.case if_P [OF conjI [OF tw]] Let_def v
      using ne h(4) by (auto simp: try_http_def set_size_ok buffer_new_def buffer_ok_def split: option.splits)
  qed (use hd h(4) in simp_all)
qed

section \<open>Properties\<close>

text \<open>
  C31: parsing the variables of a block of at most 65533 bytes ends, whatever the bytes are: with the
  variables, or with a failed assertion or a bad access, but never in an endless loop.
\<close>

theorem parse_vars_ends:
  assumes "m_size (hm_data_buffer h) \<le> 65533"
  shows "\<exists>r. parse_vars iequals h = Some r"
  unfolding parse_vars_def using assms by (rule parse_vars_returns)

definition junk_request :: uwsgi_request where
  "junk_request = uwsgi_request_new\<lparr>hm_data_buffer := \<lparr>m_buffer = ''junk'', m_size = 4, gptr = 0, pptr = 4\<rparr>\<rparr>"

theorem parse_vars_ends_witness: "\<exists>r. parse_vars ascii_iequals junk_request = Some r"
  by (rule parse_vars_ends) (simp add: junk_request_def)

lemma parse_var_returns_to_start:
  assumes "m_size (hm_data_buffer h) \<in> {65534, 65535}" "65536 \<le> length (m_buffer (hm_data_buffer h))"
    and "take 2 (m_buffer (hm_data_buffer h)) = [CHR 0xFC, CHR 0xFF]"
    and "take 2 (drop 65534 (m_buffer (hm_data_buffer h))) = [CHR 0x00, CHR 0x00]"
  shows "parse_var iequals 0 h = Inr (0, h)"
proof -
  have w: "unat (u16_of_bytes (CHR 0xFC) (CHR 0xFF)) = 65532" "u16_of_bytes (CHR 0x00) (CHR 0x00) = 0"
    by (simp_all add: u16_of_bytes_def)
  have s: "unat (word_of_nat (0 + 2) :: 16 word) = 2" "(word_of_nat (2 + 65532 + 2) :: 16 word) = 0" by simp_all
  have 1: "load_u16 0 (hm_data_buffer h) = Inr (u16_of_bytes (CHR 0xFC) (CHR 0xFF))"
    using assms(2,3) by (simp add: load_u16_def ptr_def fetch_def)
  have 2: "load_u16 (2 + 65532) (hm_data_buffer h) = Inr 0"
    using assms(1,2,4) w(2) by (auto simp add: load_u16_def ptr_def fetch_def)
  show ?thesis unfolding parse_var_def Let_def 1 rbind_simps s w(1) 2 by simp
qed

text \<open>
  C32: the bound is sharp. A block of 65534 or 65535 bytes, which the 16 bit size of the packet header
  can announce, whose first key claims 65532 bytes and whose value length behind it is zero brings the
  16 bit \<^verbatim>\<open>val_start\<close> back to 0: \<^verbatim>\<open>parse_vars()\<close> never returns.
\<close>

theorem parse_vars_loops:
  assumes "m_size (hm_data_buffer h) \<in> {65534, 65535}" "65536 \<le> length (m_buffer (hm_data_buffer h))"
    and "take 2 (m_buffer (hm_data_buffer h)) = [CHR 0xFC, CHR 0xFF]"
    and "take 2 (drop 65534 (m_buffer (hm_data_buffer h))) = [CHR 0x00, CHR 0x00]"
  shows "parse_vars iequals h = None"
proof -
  have p: "parse_var iequals 0 h = Inr (0, h)" by (rule parse_var_returns_to_start [OF assms])
  have "\<not> (ie = iequals \<and> pos = 0 \<and> g = h)" if "parse_vars_from ie pos g = Some r" for ie pos g r
  proof (rule parse_vars_from.raw_induct [OF _ that, where P = "\<lambda>ie pos g r. \<not> (ie = iequals \<and> pos = 0 \<and> g = h)"])
    fix f ie pos g r
    assume ih: "\<And>ie pos g r. f ie pos g = Some r \<Longrightarrow> \<not> (ie = iequals \<and> pos = 0 \<and> g = h)"
      and s: "(if pos < m_size (hm_data_buffer g)
        then case parse_var ie pos g of Inl e \<Rightarrow> Some (Inl e) | Inr (pos', h') \<Rightarrow> f ie pos' h' else Some (Inr g)) = Some r"
    show "\<not> (ie = iequals \<and> pos = 0 \<and> g = h)" using s ih [of iequals 0 h r] assms(1) p by auto
  qed
  then show ?thesis unfolding parse_vars_def by (cases "parse_vars_from iequals 0 h") auto
qed

definition looping_request :: uwsgi_request where
  "looping_request = uwsgi_request_new\<lparr>hm_data_buffer :=
     \<lparr>m_buffer = [CHR 0xFC, CHR 0xFF] @ replicate 66557 (CHR 0x00), m_size = 65535, gptr = 0, pptr = 65535\<rparr>\<rparr>"

theorem parse_vars_loops_witness: "parse_vars ascii_iequals looping_request = None"
  by (rule parse_vars_loops) (simp_all add: looping_request_def numeral_2_eq_2)

text \<open>
  The packet that \<^verbatim>\<open>prepare_data_buffer()\<close> makes in a cleared data buffer: the header, every
  variable as its length and its bytes, and then four bytes more, which \<^verbatim>\<open>datasize\<close> counts as if they
  were variables. They are what the vector held behind the variables before: zeros in a new buffer,
  bytes of an earlier message in one that was used.
\<close>

theorem uwsgi_packet_on_the_wire:
  assumes "m_size (hm_data_buffer h) = 0" "gptr (hm_data_buffer h) = 0" "pptr (hm_data_buffer h) = 0"
    and "\<forall>kv \<in> set (order (hm_headers (wire_vars iequals h))). var_ok kv"
    and "enc = concat (map encode_var (order (hm_headers (wire_vars iequals h))))"
  shows "\<exists>h1. uwsgi_prepare iequals order h = Inr h1 \<and>
    um_header h1 = (um_header h)\<lparr>datasize := word_of_nat (length enc + 4)\<rparr> \<and>
    unread (hm_data_buffer h1) = header_bytes (um_header h1) @ enc @
      map (pad_nth (m_buffer (hm_data_buffer h))) [4 + length enc..<8 + length enc]"
  using uwsgi_prepare_wire [of h _ order iequals enc, OF assms(1,2,3) refl assms(4,5)] by (auto simp: add.commute)

text \<open>A request whose data buffer carried a longer message before.\<close>

definition reused_request :: uwsgi_request where
  "reused_request = uwsgi_request_new\<lparr>hm_headers := [(''K'', ''v'')],
     hm_data_buffer := \<lparr>m_buffer = ''abcdefghijklmnopqrst'', m_size = 0, gptr = 0, pptr = 0\<rparr>\<rparr>"

theorem uwsgi_packet_on_the_wire_witness:
  "\<exists>h1. uwsgi_prepare ascii_iequals id reused_request = Inr h1 \<and>
     unread (hm_data_buffer h1) = [CHR 0x00, CHR 0x0A, CHR 0x00, CHR 0x00, CHR 0x01, CHR 0x00] @ ''K'' @
       [CHR 0x01, CHR 0x00] @ ''vklmn''"
proof -
  have v: "hm_headers (wire_vars ascii_iequals reused_request) = [(''K'', ''v'')]"
    by (simp add: wire_vars_def reused_request_def uwsgi_request_new_def uwsgi_with_def)
  have e: "concat (map encode_var (id (hm_headers (wire_vars ascii_iequals reused_request)))) =
      [CHR 0x01, CHR 0x00] @ ''K'' @ [CHR 0x01, CHR 0x00] @ ''v''"
    unfolding v by code_simp
  have l: "[4 + length ([CHR 0x01, CHR 0x00] @ ''K'' @ [CHR 0x01, CHR 0x00] @ ''v'')..<
      8 + length ([CHR 0x01, CHR 0x00] @ ''K'' @ [CHR 0x01, CHR 0x00] @ ''v'')] = [10, 11, 12, 13]" by code_simp
  have hb: "header_bytes ((um_header reused_request)\<lparr>datasize := word_of_nat 10\<rparr>) = [CHR 0x00, CHR 0x0A, CHR 0x00, CHR 0x00]"
    by code_simp
  have p: "map (pad_nth (m_buffer (hm_data_buffer reused_request))) [10, 11, 12, 13] = ''klmn''"
    by (simp add: pad_nth_def reused_request_def)
  have "\<exists>h1. uwsgi_prepare ascii_iequals id reused_request = Inr h1 \<and>
    um_header h1 = (um_header reused_request)\<lparr>datasize := word_of_nat (length ([CHR 0x01, CHR 0x00] @ ''K'' @ [CHR 0x01, CHR 0x00] @ ''v'') + 4)\<rparr> \<and>
    unread (hm_data_buffer h1) = header_bytes (um_header h1) @ ([CHR 0x01, CHR 0x00] @ ''K'' @ [CHR 0x01, CHR 0x00] @ ''v'') @
      map (pad_nth (m_buffer (hm_data_buffer reused_request)))
        [4 + length ([CHR 0x01, CHR 0x00] @ ''K'' @ [CHR 0x01, CHR 0x00] @ ''v'')..<8 + length ([CHR 0x01, CHR 0x00] @ ''K'' @ [CHR 0x01, CHR 0x00] @ ''v'')]"
    by (rule uwsgi_packet_on_the_wire [of reused_request id ascii_iequals, OF _ _ _ _ e [symmetric]])
       (simp_all add: v var_ok_def, simp_all add: reused_request_def)
  then show ?thesis unfolding l p using hb by (auto simp del: of_nat_numeral)
qed

text \<open>A packet as one object makes it and another reads it.\<close>

lemma uwsgi_arrives:
  assumes h: "hm_data_buffer h = buffer_new" "append_ok (hm_content_buffer h)" "gptr (hm_content_buffer h) = 0"
      "modifier1 (um_header h) = UWSGI_VARS"
    and body: "body = unread (hm_content_buffer h)" "length body < 2 ^ 31"
      "body = [] \<longrightarrow> map_of (hm_headers h) ''CONTENT_LENGTH'' = None"
    and kvs: "kvs = order (hm_headers (wire_vars iequals h))" "set kvs = set (hm_headers (wire_vars iequals h))"
      "distinct (map fst kvs)" "\<forall>kv \<in> set kvs. var_ok kv" "length (concat (map encode_var kvs)) \<le> 65529"
    and p: "uwsgi_prepare iequals order h = Inr h1" "d = unread (hm_data_buffer h1)"
    and rx: "sm_type s = TCP" "k_recvfrom K (sm_fd s) 4 False k = ((4, take 4 d, a1), k1)"
      "k_recvfrom K (sm_fd s) (length d - 4) False k1 = ((int (length d - 4), drop 4 d, a2), k2)"
      "if body = [] then k3 = k2 else k_recvfrom K (sm_fd s) (length body) False k2 = ((int (length body), body, a3), k3)"
  shows "\<exists>h2. uwsgi_read_data iequals K (uwsgi_request_new, (s, k)) = Some (Inr (), (h2, (s, k3))) \<and>
    is_done h2 \<and> hm_headers h2 = kvs \<and> unread (hm_content_buffer h2) = body \<and> um_header h2 = um_header h1 \<and>
    buffer_ok (hm_content_buffer h2)"
proof -
  let ?enc = "concat (map encode_var kvs)" and ?p = "um_header h1"
  have n: "m_size (hm_content_buffer h) = length body"
    using h(2,3) body(1) by (simp add: unread_def append_ok_def buffer_ok_def)
  have pad: "map (pad_nth []) [4 + length ?enc..<8 + length ?enc] = replicate 4 (CHR 0x00)"
    by (rule nth_equalityI) (simp_all add: pad_nth_def)
  have pkt: "?p = (um_header h)\<lparr>datasize := word_of_nat (4 + length ?enc)\<rparr>"
    "d = header_bytes ?p @ ?enc @ replicate 4 (CHR 0x00)"
    using uwsgi_prepare_wire [of h kvs order iequals ?enc, OF _ _ _ kvs(1,4) refl] h(1) p pad
    by (auto simp: buffer_new_def)
  have ds: "unat (datasize ?p) = 4 + length ?enc" 
    using kvs(5) unat_u16_of_nat [of "4 + length ?enc"] unfolding pkt(1) by (simp del: of_nat_add)
  let ?h0 = "uwsgi_request_new\<lparr>hm_state := READ_DATA, um_header := ?p, hm_data_buffer :=
    \<lparr>m_buffer = grow (4 + length ?enc) [], m_size = 4 + length ?enc, gptr = 0, pptr = 0\<rparr>\<rparr>"
  have s0: "start_read K (uwsgi_request_new, (s, k)) = (Inr (), (?h0, (s, k1)))"
    using start_read_packet [OF rx(1), of K k ?p a1 k1] rx(2) pkt(2) ds by simp
  obtain h' where h': "hm_headers h' = kvs" "hm_content_buffer h' = buffer_new" "um_header h' = um_header ?h0"
    and rv: "read_vars iequals K (?h0, (s, k1)) = Some (Inr (), ((case map_of kvs ''CONTENT_LENGTH'' of
       None \<Rightarrow> h'\<lparr>hm_state := DONE\<rparr>
     | Some v \<Rightarrow> let n = to_size (atoi v)
         in h'\<lparr>hm_content_buffer := \<lparr>m_buffer = grow n [], m_size = n, gptr = 0, pptr = 0\<rparr>, hm_state := READ_CONTENT\<rparr>), (s, k2)))"
    by (rule read_vars_packet [OF refl kvs(4,3), of ?h0 s K k1 a2 k2 iequals])
       (use kvs(5) rx(1,3) pkt h(4) in \<open>simp_all add: uwsgi_request_new_def uwsgi_with_def\<close>)
  show ?thesis
  proof (cases "body = []")
    case True
    then have "map_of kvs ''CONTENT_LENGTH'' = None"
      using body(3) n kvs(2) by (simp add: wire_vars_def map_of_eq_None_iff)
    with rv s0 rx(4) True h' show ?thesis
      by (simp add: uwsgi_read_data_def is_done_def)
  next
    case False
    then have "map_of (hm_headers (wire_vars iequals h)) ''CONTENT_LENGTH'' = Some (to_string (length body))"
      using n by (simp add: wire_vars_def set_header_def Let_def update_conv)
    then have m: "map_of kvs ''CONTENT_LENGTH'' = Some (to_string (length body))"
      using kvs(2,3) map_of_SomeD map_of_is_SomeI by metis
    let ?n = "length body"
    let ?h2 = "h'\<lparr>hm_content_buffer := \<lparr>m_buffer = grow ?n [], m_size = ?n, gptr = 0, pptr = 0\<rparr>, hm_state := READ_CONTENT\<rparr>"
    let ?b = "\<lparr>m_buffer = body @ replicate 1024 (CHR 0x00), m_size = ?n, gptr = 0, pptr = ?n\<rparr>"
    have "to_size (atoi (to_string ?n)) = ?n" using body(2) by (simp add: atoi_to_string to_size_def)
    then have rv': "read_vars iequals K (?h0, (s, k1)) = Some (Inr (), (?h2, (s, k2)))"
      using rv m by (simp add: Let_def)
    have "read_into K hm_content_buffer (\<lambda>b h. h\<lparr>hm_content_buffer := b\<rparr>) (?h2, (s, k2)) =
        (Inr (), (?h2\<lparr>hm_content_buffer := ?b\<rparr>, (s, k3)))"
      by (rule read_into_fills [where data = body and a = a3]) (use rx False body(2) in simp_all)
    then have "read_content K (?h2, (s, k2)) = (Inr (), (?h2\<lparr>hm_content_buffer := ?b, hm_state := DONE\<rparr>, (s, k3)))"
      by (simp add: read_content_def sq_def bnd_def on_http_def modify_def to_write_def)
    with s0 rv' h' show ?thesis by (simp add: uwsgi_read_data_def is_done_def unread_def buffer_ok_def)
  qed
qed


definition posted_request :: uwsgi_request where
  "posted_request = uwsgi_request_new\<lparr>hm_headers := [(''K'', ''v'')],
     hm_content_buffer := \<lparr>m_buffer = ''xyz'', m_size = 3, gptr = 0, pptr = 3\<rparr>\<rparr>"

abbreviation posted_vars :: headers_t where
  "posted_vars \<equiv> [(''K'', ''v''), (''CONTENT_LENGTH'', ''3'')]"

lemma posted_request_sel:
  "hm_data_buffer posted_request = buffer_new" "append_ok (hm_content_buffer posted_request)"
  "gptr (hm_content_buffer posted_request) = 0" "modifier1 (um_header posted_request) = UWSGI_VARS"
  "''xyz'' = unread (hm_content_buffer posted_request)" "length ''xyz'' < 2 ^ 31"
  "''xyz'' = [] \<longrightarrow> map_of (hm_headers posted_request) ''CONTENT_LENGTH'' = None"
  by (simp_all add: posted_request_def uwsgi_request_new_def uwsgi_with_def append_ok_def buffer_ok_def unread_def
      zero_header_def UWSGI_VARS_def)

lemma posted_vars_ok:
  "posted_vars = id (hm_headers (wire_vars ascii_iequals posted_request))"
  "set posted_vars = set (hm_headers (wire_vars ascii_iequals posted_request))"
  "distinct (map fst posted_vars)" "\<forall>kv \<in> set posted_vars. var_ok kv"
  "length (concat (map encode_var posted_vars)) \<le> 65529"
proof -
  have w: "hm_headers (wire_vars ascii_iequals posted_request) = posted_vars" by code_simp
  have le: "length (concat (map encode_var posted_vars)) = 25" by code_simp
  show "posted_vars = id (hm_headers (wire_vars ascii_iequals posted_request))"
    "set posted_vars = set (hm_headers (wire_vars ascii_iequals posted_request))" unfolding w by simp_all
  show "length (concat (map encode_var posted_vars)) \<le> 65529" unfolding le by simp
qed (simp_all add: var_ok_def)

lemma posted_packet:
  "\<exists>h1. uwsgi_prepare ascii_iequals id posted_request = Inr h1 \<and> length (unread (hm_data_buffer h1)) = 33"
proof -
  have le: "length (concat (map encode_var posted_vars)) = 25" by code_simp
  show ?thesis
    using uwsgi_prepare_wire [of posted_request posted_vars id ascii_iequals, OF _ _ _ posted_vars_ok(1,4) refl]
      posted_request_sel(1) le by (auto simp: buffer_new_def simp del: list.map concat.simps)
qed

text \<open>A kernel that delivers the packet and the body as \<open>script_recv\<close> does.\<close>

lemma posted_recv:
  assumes "k_recvfrom K = script_recv" "length d = 33"
  shows "\<exists>k1 k2 k3. k_recvfrom K 3 4 False (script_start [] [99, 99, 99] (d @ ''xyz'')) = ((4, take 4 d, None), k1) \<and>
    k_recvfrom K 3 (length d - 4) False k1 = ((int (length d - 4), drop 4 d, None), k2) \<and>
    k_recvfrom K 3 (length ''xyz'') False k2 = ((int (length ''xyz''), ''xyz'', None), k3) \<and> sc_sent k3 3 = []"
  using assms by (simp add: script_recv_def script_start_def Let_def)

lemma posted_arrives:
  assumes "k_recvfrom K = script_recv" "uwsgi_prepare ascii_iequals id posted_request = Inr h1"
    and "length (unread (hm_data_buffer h1)) = 33" "d = unread (hm_data_buffer h1)"
  shows "\<exists>q k3. uwsgi_read_data ascii_iequals K (uwsgi_request_new, (socket_of_fd 3, script_start [] [99, 99, 99] (d @ ''xyz''))) =
    Some (Inr (), (q, (socket_of_fd 3, k3))) \<and> is_done q \<and> buffer_ok (hm_content_buffer q)"
proof -
  let ?k = "script_start [] [99, 99, 99] (d @ ''xyz'')" and ?s = "socket_of_fd 3"
  have fd: "sm_fd ?s = 3" "sm_type ?s = TCP" by (simp_all add: socket_of_fd_def)
  obtain k1 k2 k3 where rx: "k_recvfrom K (sm_fd ?s) 4 False ?k = ((4, take 4 d, None), k1)"
    "k_recvfrom K (sm_fd ?s) (length d - 4) False k1 = ((int (length d - 4), drop 4 d, None), k2)"
    "if ''xyz'' = [] then k3 = k2 else
      k_recvfrom K (sm_fd ?s) (length ''xyz'') False k2 = ((int (length ''xyz''), ''xyz'', None), k3)"
    using posted_recv [OF assms(1), of d] assms(3,4) unfolding fd by auto
  from uwsgi_arrives [OF posted_request_sel posted_vars_ok assms(2,4) fd(2) rx] show ?thesis by blast
qed


end
