(* ===== verification/Labelled_Steps.thy ===== *)
theory Labelled_Steps
  imports Prelude
begin

text \<open>
  Systems of threads as executable labelled steps: \<open>f l s\<close> is the state after the step \<open>l\<close>, or \<open>None\<close>
  where the step cannot be taken. A run is a list of labels, so that a witness can evaluate one; the
  states that runs reach are the inductive closure. What every step keeps, every run keeps, which is
  stated once, in the locale \<open>labelled_invariant\<close>.
\<close>

fun lrun :: "('l \<Rightarrow> 's \<Rightarrow> 's option) \<Rightarrow> 'l list \<Rightarrow> 's \<Rightarrow> 's option" where
  "lrun f [] s = Some s"
| "lrun f (l # ls) s = (case f l s of None \<Rightarrow> None | Some s' \<Rightarrow> lrun f ls s')"

inductive lsteps :: "('l \<Rightarrow> 's \<Rightarrow> 's option) \<Rightarrow> 's \<Rightarrow> 's \<Rightarrow> bool" for f where
  lsteps_stay: "lsteps f s s"
| lsteps_more: "lsteps f s s' \<Longrightarrow> f l s' = Some s'' \<Longrightarrow> lsteps f s s''"

lemma lrun_append:
  "lrun f (ls @ ms) s = (case lrun f ls s of None \<Rightarrow> None | Some s' \<Rightarrow> lrun f ms s')"
  by (induction ls arbitrary: s) (simp_all split: option.splits)

lemma lrun_from: "lsteps f r s \<Longrightarrow> lrun f ls s = Some s' \<Longrightarrow> lsteps f r s'"
  by (induction ls arbitrary: s) (auto split: option.splits intro: lsteps_more)

lemma lsteps_the_lrun: "lrun f ls s \<noteq> None \<Longrightarrow> lsteps f s (the (lrun f ls s))"
  using lrun_from [OF lsteps_stay] by fastforce

lemma lsteps_iff_lrun: "lsteps f s s' \<longleftrightarrow> (\<exists>ls. lrun f ls s = Some s')"
proof
  assume "lsteps f s s'"
  then show "\<exists>ls. lrun f ls s = Some s'"
  proof (induction rule: lsteps.induct)
    case (lsteps_more s s' l s'')
    then obtain ls where "lrun f ls s = Some s'" by blast
    with lsteps_more.hyps(2) show ?case by (intro exI [of _ "ls @ [l]"]) (simp add: lrun_append)
  qed (auto intro: exI [of _ "[]"])
qed (auto intro: lrun_from [OF lsteps_stay])

locale labelled_invariant =
  fixes f :: "'l \<Rightarrow> 's \<Rightarrow> 's option" and inv :: "'s \<Rightarrow> bool"
  assumes step_inv: "inv s \<Longrightarrow> f l s = Some s' \<Longrightarrow> inv s'"
begin

lemma steps_inv: "lsteps f s s' \<Longrightarrow> inv s \<Longrightarrow> inv s'"
  by (induction rule: lsteps.induct) (auto dest: step_inv)

lemma run_inv: "lrun f ls s = Some s' \<Longrightarrow> inv s \<Longrightarrow> inv s'"
  by (rule steps_inv [OF lrun_from [OF lsteps_stay]])

text \<open>What every step keeps on top of the invariant, every run keeps.\<close>

lemma steps_keep:
  assumes "lsteps f s s'" "inv s" "Q s" and "\<And>l s s'. inv s \<Longrightarrow> Q s \<Longrightarrow> f l s = Some s' \<Longrightarrow> Q s'"
  shows "Q s'"
  using assms(1-3)
proof (induction rule: lsteps.induct)
  case (lsteps_more s s' l s'')
  have "inv s'" by (rule steps_inv [OF lsteps_more.hyps(1) lsteps_more.prems(1)])
  then show ?case by (rule assms(4) [OF _ lsteps_more.IH [OF lsteps_more.prems] lsteps_more.hyps(2)])
qed

end

end
