(* ===== verification/Executor.thy ===== *)
theory Executor
  imports System Labelled_Steps "HOL-Library.Multiset"
begin

text \<open>
  Executors (\<^verbatim>\<open>include/tasks/executor.h\<close>, \<^verbatim>\<open>tasks/executor.cpp\<close>), exec tasks
  (\<^verbatim>\<open>exec_task.h\<close>, \<^verbatim>\<open>exec.cpp\<close>) and the part of the dispatcher that hands the one to the other
  (\<^verbatim>\<open>free_executor\<close>, \<^verbatim>\<open>add_exec_task\<close>, \<^verbatim>\<open>remove_exec_task\<close> of \<^verbatim>\<open>dispatcher.cpp\<close>).

  An executor is named by the order of creation, an exec task by its allocation. What runs at once is
  what a mutex protects: the search of \<^verbatim>\<open>free_executor\<close> (\<^verbatim>\<open>m_executor_mutex\<close>) and the store of
  \<^verbatim>\<open>executor::add_task\<close> (\<^verbatim>\<open>m_mutex\<close>, which \<^verbatim>\<open>executor::run\<close> holds except inside \<^verbatim>\<open>wait_for\<close>
  and between two rounds). Between the two, a submitting thread only holds a claim: an entry of
  \<open>claims\<close>. The destructor of an executor, when the dispatcher is destroyed, terminates it and waits for its
  thread: \<open>executor_delete\<close>, after the steps of the running system.
\<close>

section \<open>State\<close>

type_synonym xid = nat
type_synonym etid = nat

text \<open>The functor is a name; the callbacks are those of \<^verbatim>\<open>task\<close>.\<close>

record exec_task =
  xt_func :: nat
  xt_auto_delete :: bool
  xt_finish_funcs :: "callback list"

text \<open>
  Where the thread of an executor stands: at the head of the outer loop, in \<^verbatim>\<open>wait_for\<close> with the
  value of \<^verbatim>\<open>run\<close>, executing the task, gone.
\<close>

datatype xpc = Top | Idle nat | Executing | Left

record executor =
  xm_busy :: bool
  xm_term :: bool
  xm_task :: "etid option"
  xm_pc :: xpc

datatype xentry = Executed etid nat | Exec_finish_cb nat "wid option" | Exec_deleted etid

record exec_sys =
  executors :: "executor list"
  m_executors :: "xid list"
  exec_tasks :: "etid \<rightharpoonup> exec_task"
  next_etid :: etid
  claims :: "(etid \<times> xid) list"
  m_timeout :: "32 word"
  xhistory :: "xentry list"

definition exec_start :: "32 word \<Rightarrow> exec_sys" where
  "exec_start timeout = \<lparr>executors = [], m_executors = [], exec_tasks = Map.empty, next_etid = 0, claims = [],
     m_timeout = timeout, xhistory = []\<rparr>"

definition upd_executor :: "xid \<Rightarrow> (executor \<Rightarrow> executor) \<Rightarrow> exec_sys \<Rightarrow> exec_sys" where
  "upd_executor i f s = s\<lparr>executors := (executors s)[i := f (executors s ! i)]\<rparr>"

section \<open>executor.h, exec\_task.h\<close>

definition exec_task_new :: "nat \<Rightarrow> exec_task" where
  "exec_task_new f = \<lparr>xt_func = f, xt_auto_delete = True, xt_finish_funcs = []\<rparr>"

text \<open>The task that \<^verbatim>\<open>exec(f, ff)\<close> submits; \<^verbatim>\<open>exec(f)\<close> submits \<open>exec_task_new f\<close>.\<close>

definition exec_job :: "nat \<Rightarrow> nat \<Rightarrow> exec_task" where
  "exec_job f ff = (exec_task_new f)\<lparr>xt_finish_funcs := xt_finish_funcs (exec_task_new f) @ [F_void ff]\<rparr>"

definition executor_new :: executor where
  "executor_new = \<lparr>xm_busy = True, xm_term = False, xm_task = None, xm_pc = Top\<rparr>"

definition set_busy :: "executor \<Rightarrow> executor" where
  "set_busy e = e\<lparr>xm_busy := True\<rparr>"

definition store_task :: "etid \<Rightarrow> executor \<Rightarrow> executor" where
  "store_task t e = e\<lparr>xm_task := Some t\<rparr>"

definition executor_terminate :: "executor \<Rightarrow> executor" where
  "executor_terminate e = e\<lparr>xm_term := True\<rparr>"

definition set_timeout :: "32 word \<Rightarrow> exec_sys \<Rightarrow> exec_sys" where
  "set_timeout timeout s = s\<lparr>m_timeout := timeout\<rparr>"

section \<open>The dispatcher\<close>

text \<open>
  The loop of \<^verbatim>\<open>free_executor\<close>: terminated executors are erased on the way to the first one that is
  not busy, or to the end of the list.
\<close>

fun scan_executors :: "executor list \<Rightarrow> xid list \<Rightarrow> xid list \<times> xid option" where
  "scan_executors es [] = ([], None)"
| "scan_executors es (i # is) =
     (if xm_term (es ! i) then scan_executors es is
      else if \<not> xm_busy (es ! i) then (i # is, Some i)
      else (case scan_executors es is of (ks, r) \<Rightarrow> (i # ks, r)))"

definition free_executor :: "exec_sys \<Rightarrow> xid \<times> exec_sys" where
  "free_executor s =
     (case scan_executors (executors s) (m_executors s) of
        (ks, Some i) \<Rightarrow> (i, upd_executor i set_busy (s\<lparr>m_executors := ks\<rparr>))
      | (ks, None) \<Rightarrow>
          (let i = length (executors s)
           in (i, s\<lparr>executors := executors s @ [executor_new], m_executors := ks @ [i]\<rparr>)))"

text \<open>
  \<^verbatim>\<open>add_exec_task\<close> in its two parts: an executor is claimed for a new task, and the task is stored.
\<close>

definition exec_claim :: "exec_task \<Rightarrow> exec_sys \<Rightarrow> exec_sys" where
  "exec_claim et s =
     (let t = next_etid s; s = s\<lparr>exec_tasks := (exec_tasks s)(t \<mapsto> et), next_etid := t + 1\<rparr>
      in case free_executor s of (i, s) \<Rightarrow> s\<lparr>claims := claims s @ [(t, i)]\<rparr>)"

definition exec_store :: "etid \<Rightarrow> xid \<Rightarrow> exec_sys \<Rightarrow> exec_sys" where
  "exec_store t i s = (upd_executor i (store_task t) s)\<lparr>claims := remove1 (t, i) (claims s)\<rparr>"

definition remove_exec_task :: "etid \<Rightarrow> exec_sys \<Rightarrow> exec_sys" where
  "remove_exec_task t s =
     s\<lparr>exec_tasks := (exec_tasks s)(t := None), xhistory := xhistory s @ [Exec_deleted t]\<rparr>"

fun exec_finish_cb :: "callback \<Rightarrow> xentry" where
  "exec_finish_cb (F_worker k) = Exec_finish_cb k None"
| "exec_finish_cb (F_void k) = Exec_finish_cb k None"

text \<open>\<^verbatim>\<open>task::finish(nullptr)\<close> of an exec task.\<close>

definition exec_finish :: "etid \<Rightarrow> exec_task \<Rightarrow> exec_sys \<Rightarrow> exec_sys" where
  "exec_finish t et s =
     remove_exec_task t (s\<lparr>xhistory := xhistory s @ map exec_finish_cb (xt_finish_funcs et)\<rparr>)"

section \<open>executor::run\<close>

text \<open>\<^verbatim>\<open>int idle_runs = 10 * m_timeout\<close>: a 32 bit product, read as a signed number.\<close>

definition idle_runs :: "32 word \<Rightarrow> int" where
  "idle_runs timeout = sint (10 * timeout)"

text \<open>The predicate of the wait.\<close>

definition exec_ready :: "executor \<Rightarrow> bool" where
  "exec_ready e \<longleftrightarrow> xm_task e \<noteq> None \<or> xm_term e"

text \<open>A wait that ends after 100 milliseconds.\<close>

definition exec_idle :: "32 word \<Rightarrow> nat \<Rightarrow> executor \<Rightarrow> executor" where
  "exec_idle timeout run e =
     (let run = run + 1; e = e\<lparr>xm_pc := Idle run\<rparr>
      in if int run \<ge> idle_runs timeout then e\<lparr>xm_term := True\<rparr> else e)"

definition exec_run_task :: "xid \<Rightarrow> etid \<Rightarrow> exec_sys \<Rightarrow> exec_sys result" where
  "exec_run_task i t s =
     (case exec_tasks s t of
        None \<Rightarrow> Inl Memory
      | Some et \<Rightarrow>
          (let s = s\<lparr>xhistory := xhistory s @ [Executed t (xt_func et)]\<rparr>;
               s = (if xt_auto_delete et then exec_finish t et s else s)
           in Inr (upd_executor i (\<lambda>e. e\<lparr>xm_task := None, xm_busy := False, xm_pc := Top\<rparr>) s)))"

section \<open>Steps\<close>

text \<open>
  \<open>Submit\<close> and \<open>Store\<close> are steps of any thread; the others are steps of executor \<open>i\<close>: the test of the
  outer loop, the wait that ends with the predicate true or by the clock, and the execution. \<open>None\<close> is
  a step that cannot be taken; an execution that fails is none either.
\<close>

datatype xlabel = Submit exec_task | Store etid xid | Enter xid | Wake xid | Clock xid | Run xid

definition xguard :: "bool \<Rightarrow> exec_sys \<Rightarrow> exec_sys option" where
  "xguard b s = (if b then Some s else None)"

fun xdo :: "xlabel \<Rightarrow> exec_sys \<Rightarrow> exec_sys option" where
  "xdo (Submit et) s = Some (exec_claim et s)"
| "xdo (Store t i) s =
     xguard ((t, i) \<in> set (claims s) \<and> i < length (executors s) \<and> xm_pc (executors s ! i) \<noteq> Executing)
       (exec_store t i s)"
| "xdo (Enter i) s =
     xguard (i < length (executors s) \<and> xm_pc (executors s ! i) = Top)
       (upd_executor i (\<lambda>e. e\<lparr>xm_pc := if xm_term e then Left else Idle 0\<rparr>) s)"
| "xdo (Wake i) s =
     (if i < length (executors s)
      then (case xm_pc (executors s ! i) of
              Idle _ \<Rightarrow> xguard (exec_ready (executors s ! i))
                (upd_executor i (\<lambda>e. e\<lparr>xm_pc := if xm_term e then Top else Executing\<rparr>) s)
            | _ \<Rightarrow> None)
      else None)"
| "xdo (Clock i) s =
     (if i < length (executors s)
      then (case xm_pc (executors s ! i) of
              Idle r \<Rightarrow> xguard (\<not> exec_ready (executors s ! i)) (upd_executor i (exec_idle (m_timeout s) r) s)
            | _ \<Rightarrow> None)
      else None)"
| "xdo (Run i) s =
     (if i < length (executors s) \<and> xm_pc (executors s ! i) = Executing
      then (case xm_task (executors s ! i) of
              None \<Rightarrow> None
            | Some t \<Rightarrow> (case exec_run_task i t s of Inl e \<Rightarrow> None | Inr s' \<Rightarrow> Some s'))
      else None)"

text \<open>
  The destructor: the flag is set, and the thread is joined, so the steps the thread has left are taken; which one is next is
  determined by where it stands. Three are enough (\<open>executor_delete_ends\<close>).
\<close>

fun exec_next :: "xid \<Rightarrow> xpc \<Rightarrow> xlabel" where
  "exec_next i Top = Enter i"
| "exec_next i (Idle r) = Wake i"
| "exec_next i _ = Run i"

fun exec_join :: "nat \<Rightarrow> xid \<Rightarrow> exec_sys \<Rightarrow> exec_sys option" where
  "exec_join 0 i s = None"
| "exec_join (Suc fuel) i s =
     (if xm_pc (executors s ! i) = Left then Some s
      else (case xdo (exec_next i (xm_pc (executors s ! i))) s of None \<Rightarrow> None | Some s \<Rightarrow> exec_join fuel i s))"

definition executor_delete :: "xid \<Rightarrow> exec_sys \<Rightarrow> exec_sys option" where
  "executor_delete i s = exec_join 4 i (upd_executor i executor_terminate s)"

text \<open>The states that the threads can reach from the start.\<close>

definition x_reach :: "exec_sys \<Rightarrow> bool" where
  "x_reach s \<longleftrightarrow> (\<exists>timeout. lsteps xdo (exec_start timeout) s)"

section \<open>The invariant\<close>

definition slot :: "executor \<Rightarrow> etid multiset" where
  "slot e = (case xm_task e of None \<Rightarrow> {#} | Some t \<Rightarrow> {#t#})"

definition slots :: "executor list \<Rightarrow> etid multiset" where
  "slots es = sum_list (map slot es)"

fun entry_task :: "xentry \<Rightarrow> etid list" where
  "entry_task (Executed t f) = [t]"
| "entry_task _ = []"

definition executed :: "exec_sys \<Rightarrow> etid list" where
  "executed s = concat (map entry_task (xhistory s))"

definition claims_on :: "xid \<Rightarrow> exec_sys \<Rightarrow> nat" where
  "claims_on i s = length (filter (\<lambda>c. snd c = i) (claims s))"

text \<open>
  A busy executor has been claimed by one thread or holds a task, never both; one that is not busy has
  neither. It executes only with a task at hand, and has left only once terminated.
\<close>

definition exec_ok :: "nat \<Rightarrow> executor \<Rightarrow> bool" where
  "exec_ok c e \<longleftrightarrow>
     (if xm_busy e then c = 1 \<and> xm_task e = None \<or> c = 0 \<and> xm_task e \<noteq> None else c = 0 \<and> xm_task e = None) \<and>
     (xm_pc e = Executing \<longrightarrow> xm_task e \<noteq> None \<and> \<not> xm_term e) \<and> (xm_pc e = Left \<longrightarrow> xm_term e)"

definition x_inv :: "exec_sys \<Rightarrow> bool" where
  "x_inv s \<longleftrightarrow>
     (\<forall>i < length (executors s). exec_ok (claims_on i s) (executors s ! i)) \<and>
     (\<forall>i \<in> set (m_executors s). i < length (executors s)) \<and>
     (\<forall>c \<in> set (claims s). snd c < length (executors s)) \<and>
     mset (map fst (claims s)) + slots (executors s) + mset (executed s) = mset [0..<next_etid s] \<and>
     (\<forall>t \<in># mset (map fst (claims s)) + slots (executors s). exec_tasks s t \<noteq> None)"

lemma x_invI:
  assumes "\<And>i. i < length (executors s) \<Longrightarrow> exec_ok (claims_on i s) (executors s ! i)"
    and "\<And>i. i \<in> set (m_executors s) \<Longrightarrow> i < length (executors s)"
    and "\<And>t i. (t, i) \<in> set (claims s) \<Longrightarrow> i < length (executors s)"
    and "mset (map fst (claims s)) + slots (executors s) + mset (executed s) = mset [0..<next_etid s]"
    and "\<And>t. t \<in># mset (map fst (claims s)) + slots (executors s) \<Longrightarrow> exec_tasks s t \<noteq> None"
  shows "x_inv s"
  using assms by (auto simp: x_inv_def)

lemma upd_executor_sel [simp]:
  "length (executors (upd_executor i f s)) = length (executors s)" "claims (upd_executor i f s) = claims s"
  "m_executors (upd_executor i f s) = m_executors s" "exec_tasks (upd_executor i f s) = exec_tasks s"
  "next_etid (upd_executor i f s) = next_etid s" "xhistory (upd_executor i f s) = xhistory s"
  "executed (upd_executor i f s) = executed s" "claims_on j (upd_executor i f s) = claims_on j s"
  "m_timeout (upd_executor i f s) = m_timeout s"
  by (simp_all add: upd_executor_def executed_def claims_on_def)

lemma nth_upd_executor [simp]:
  "j < length (executors s) \<Longrightarrow> executors (upd_executor i f s) ! j = (if j = i then f (executors s ! i) else executors s ! j)"
  by (auto simp: upd_executor_def nth_list_update)

lemma slots_update:
  "i < length es \<Longrightarrow> slots (es[i := e]) + slot (es ! i) = slots es + slot e"
proof (induction es arbitrary: i)
  case (Cons x es)
  then show ?case by (cases i) (auto simp: slots_def ac_simps dest: Cons.IH)
qed simp

lemma slots_same: "i < length es \<Longrightarrow> xm_task e = xm_task (es ! i) \<Longrightarrow> slots (es[i := e]) = slots es"
  using slots_update [of i es e] by (simp add: slot_def)

text \<open>A step of an executor that keeps its task and its claims.\<close>

lemma x_inv_upd:
  assumes "x_inv s" "i < length (executors s)" "xm_task (f (executors s ! i)) = xm_task (executors s ! i)"
    and "exec_ok (claims_on i s) (f (executors s ! i))"
  shows "x_inv (upd_executor i f s)"
  using assms slots_same [OF assms(2,3)] by (auto simp: x_inv_def) (simp_all add: upd_executor_def)

lemma exec_ok_at: "x_inv s \<Longrightarrow> i < length (executors s) \<Longrightarrow> exec_ok (claims_on i s) (executors s ! i)"
  by (simp add: x_inv_def)

lemma scan_executors_keeps: "scan_executors es is = (ks, r) \<Longrightarrow> set ks \<subseteq> set is"
  by (induction es "is" arbitrary: ks r rule: scan_executors.induct) (fastforce split: if_splits prod.splits)+

lemma scan_executors_found:
  "scan_executors es is = (ks, Some i) \<Longrightarrow> i \<in> set is \<and> \<not> xm_term (es ! i) \<and> \<not> xm_busy (es ! i)"
  by (induction es "is" arbitrary: ks rule: scan_executors.induct) (fastforce split: if_splits prod.splits)+

text \<open>What \<^verbatim>\<open>free_executor\<close> returns: an idle executor of the list, now busy, or a new one.\<close>

lemma free_executor_cases:
  assumes "x_inv s" "free_executor s = (i, s')"
  obtains (old) ks where "i < length (executors s)" "\<not> xm_term (executors s ! i)" "\<not> xm_busy (executors s ! i)"
      "set ks \<subseteq> set (m_executors s)" "s' = upd_executor i set_busy (s\<lparr>m_executors := ks\<rparr>)"
  | (new) ks where "i = length (executors s)" "set ks \<subseteq> set (m_executors s)"
      "s' = s\<lparr>executors := executors s @ [executor_new], m_executors := ks @ [i]\<rparr>"
proof -
  obtain ks r where sc: "scan_executors (executors s) (m_executors s) = (ks, r)" by fastforce
  show thesis
  proof (cases r)
    case None
    with assms(2) sc scan_executors_keeps [OF sc] show thesis
      by (intro new [of ks]) (auto simp: free_executor_def Let_def)
  next
    case (Some j)
    with assms sc scan_executors_keeps [OF sc] scan_executors_found [of _ _ ks j] show thesis
      by (intro old [of ks]) (auto simp: free_executor_def x_inv_def)
  qed
qed

lemma x_inv_submit: "x_inv s \<Longrightarrow> x_inv (exec_claim et s)"
proof -
  assume inv: "x_inv s"
  let ?t = "next_etid s" and ?s = "s\<lparr>exec_tasks := (exec_tasks s)(next_etid s \<mapsto> et), next_etid := next_etid s + 1\<rparr>"
  obtain i s' where f: "free_executor s = (i, s')" by fastforce
  have "free_executor ?s = (i, s'\<lparr>exec_tasks := (exec_tasks s)(next_etid s \<mapsto> et), next_etid := next_etid s + 1\<rparr>)"
    using f by (auto simp: free_executor_def upd_executor_def Let_def split: prod.splits option.splits)
  then have c: "exec_claim et s = s'\<lparr>exec_tasks := (exec_tasks s)(next_etid s \<mapsto> et), next_etid := next_etid s + 1,
      claims := claims s' @ [(?t, i)]\<rparr>"
    by (simp add: exec_claim_def Let_def)
  from inv f show ?thesis
  proof (cases rule: free_executor_cases)
    case (old ks)
    have z: "claims_on i s = 0" "exec_ok (claims_on i s) (executors s ! i)" "\<not> xm_busy (executors s ! i)"
      using exec_ok_at [OF inv old(1)] old(3) by (auto simp: exec_ok_def)
    have es: "executors (exec_claim et s) = (executors s)[i := set_busy (executors s ! i)]"
      "claims (exec_claim et s) = claims s @ [(?t, i)]" "m_executors (exec_claim et s) = ks"
      "executed (exec_claim et s) = executed s" "next_etid (exec_claim et s) = Suc ?t"
      "exec_tasks (exec_claim et s) = (exec_tasks s)(?t \<mapsto> et)"
      unfolding c old(5) by (simp_all add: upd_executor_def executed_def)
    show ?thesis
      by (rule x_invI)
         (use inv old z slots_same [OF old(1), of "set_busy (executors s ! i)"] in
           \<open>auto simp: x_inv_def es nth_list_update claims_on_def exec_ok_def set_busy_def\<close>)
  next
    case (new ks)
    have z: "claims_on i s = 0"
      using inv new(1) by (auto simp: x_inv_def claims_on_def filter_empty_conv)
    have es: "executors (exec_claim et s) = executors s @ [executor_new]"
      "claims (exec_claim et s) = claims s @ [(?t, i)]" "m_executors (exec_claim et s) = ks @ [i]"
      "executed (exec_claim et s) = executed s" "next_etid (exec_claim et s) = Suc ?t"
      "exec_tasks (exec_claim et s) = (exec_tasks s)(?t \<mapsto> et)"
      unfolding c new(3) by (simp_all add: executed_def)
    show ?thesis
      by (rule x_invI)
         (use inv new z in \<open>auto simp: x_inv_def es nth_append claims_on_def exec_ok_def executor_new_def
            slots_def slot_def less_Suc_eq\<close>)
  qed
qed

lemma x_inv_store:
  assumes inv: "x_inv s" and c: "(t, i) \<in> set (claims s)" and pc: "xm_pc (executors s ! i) \<noteq> Executing"
  shows "x_inv (exec_store t i s)"
proof -
  have i: "i < length (executors s)" using inv c by (auto simp: x_inv_def)
  have "claims_on i s \<noteq> 0" using c by (force simp: claims_on_def filter_empty_conv)
  then have z: "claims_on i s = 1" "xm_busy (executors s ! i)" "xm_task (executors s ! i) = None"
    "xm_pc (executors s ! i) = Left \<longrightarrow> xm_term (executors s ! i)"
    using exec_ok_at [OF inv i] by (auto simp: exec_ok_def split: if_splits)
  let ?s = "exec_store t i s"
  have sel: "executors ?s = (executors s)[i := store_task t (executors s ! i)]" "claims ?s = remove1 (t, i) (claims s)"
    "executed ?s = executed s" "m_executors ?s = m_executors s" "next_etid ?s = next_etid s" "exec_tasks ?s = exec_tasks s"
    by (simp_all add: exec_store_def upd_executor_def executed_def)
  have "mset (claims s) = add_mset (t, i) (mset (claims ?s))" using c by (simp add: sel)
  then have "mset (map fst (claims s)) = mset (map fst (claims ?s)) + {#t#}" by simp
  moreover have "slots (executors ?s) = slots (executors s) + {#t#}"
    using slots_update [OF i, of "store_task t (executors s ! i)"] z by (simp add: sel slot_def store_task_def)
  ultimately have m: "mset (map fst (claims ?s)) + slots (executors ?s) = mset (map fst (claims s)) + slots (executors s)"
    by simp
  have on: "claims_on j ?s = (if j = i then 0 else claims_on j s)" for j
    using z(1) c by (simp add: claims_on_def exec_store_def filter_remove1 length_remove1)
  show ?thesis
  proof (rule x_invI, unfold m)
    fix j
    assume "j < length (executors ?s)"
    then show "exec_ok (claims_on j ?s) (executors ?s ! j)"
      using exec_ok_at [OF inv, of j] z pc by (auto simp: on sel nth_list_update exec_ok_def store_task_def)
  next
    fix u j
    assume "(u, j) \<in> set (claims ?s)"
    then have "(u, j) \<in> set (claims s)" using set_remove1_subset [of "(t, i)" "claims s"] by (auto simp: sel)
    then show "j < length (executors ?s)" using inv by (auto simp: x_inv_def sel)
  qed (use inv in \<open>auto simp: x_inv_def sel\<close>)
qed

lemma concat_finish [simp]: "concat (map (entry_task \<circ> exec_finish_cb) fs) = []"
proof -
  have "entry_task (exec_finish_cb f) = []" for f by (cases f) simp_all
  then show ?thesis by (induction fs) simp_all
qed

text \<open>No task is in two places.\<close>

lemma x_inv_distinct:
  assumes "x_inv s"
  shows "count (mset (map fst (claims s)) + slots (executors s) + mset (executed s)) t \<le> 1"
proof -
  have "count (mset [0..<next_etid s]) t \<le> 1" by (simp add: count_mset_set')
  with assms show ?thesis by (simp add: x_inv_def)
qed

lemma x_inv_run:
  assumes inv: "x_inv s" and i: "i < length (executors s)" and t: "xm_task (executors s ! i) = Some t"
    and r: "exec_run_task i t s = Inr s'"
  shows "x_inv s'"
proof -
  let ?e = "(executors s ! i)\<lparr>xm_task := None, xm_busy := False, xm_pc := Top\<rparr>"
  have sl: "slots (executors s) = slots ((executors s)[i := ?e]) + {#t#}"
    using slots_update [OF i, of ?e] t by (simp add: slot_def)
  have on: "claims_on i s = 0" using exec_ok_at [OF inv i] t by (auto simp: exec_ok_def split: if_splits)
  have sel: "executors s' = (executors s)[i := ?e]" "claims s' = claims s" "m_executors s' = m_executors s"
    "next_etid s' = next_etid s" "executed s' = executed s @ [t]" "u \<noteq> t \<Longrightarrow> exec_tasks s' u = exec_tasks s u" for u
    using r by (auto simp: exec_run_task_def exec_finish_def remove_exec_task_def upd_executor_def executed_def
        Let_def concat_finish split: option.splits if_splits)
  have "count (mset (map fst (claims s)) + slots ((executors s)[i := ?e]) + {#t#} + mset (executed s)) t \<le> 1"
    using x_inv_distinct [OF inv, of t] sl by (simp add: ac_simps)
  then have "count (mset (map fst (claims s)) + slots ((executors s)[i := ?e])) t = 0" by simp
  then have nt: "t \<notin># mset (map fst (claims s)) + slots ((executors s)[i := ?e])" by (simp only: not_in_iff)
  show ?thesis
  proof (rule x_invI)
    fix u
    assume u: "u \<in># mset (map fst (claims s')) + slots (executors s')"
    then have "u \<noteq> t" using nt by (auto simp: sel(1,2))
    then show "exec_tasks s' u \<noteq> None" using inv u sl by (auto simp: x_inv_def sel(1,2) sel(6))
  next
    fix j
    assume "j < length (executors s')"
    then show "exec_ok (claims_on j s') (executors s' ! j)"
      using exec_ok_at [OF inv, of j] on i by (auto simp: sel(1,2) nth_list_update exec_ok_def claims_on_def)
  qed (use inv sl in \<open>auto simp: x_inv_def sel(1-5)\<close>)
qed

lemma x_inv_step:
  assumes "x_inv s" "xdo l s = Some s'"
  shows "x_inv s'"
proof (cases l)
  case (Enter i)
  with assms exec_ok_at [of s i] show ?thesis
    by (auto simp: xguard_def exec_ok_def intro!: x_inv_upd split: if_splits)
next
  case (Wake i)
  with assms exec_ok_at [of s i] show ?thesis
    by (auto simp: xguard_def exec_ok_def exec_ready_def intro!: x_inv_upd split: if_splits xpc.splits)
next
  case (Clock i)
  with assms exec_ok_at [of s i] show ?thesis
    by (auto simp: xguard_def exec_ok_def exec_ready_def exec_idle_def Let_def intro!: x_inv_upd split: if_splits xpc.splits)
next
  case (Run i)
  with assms x_inv_run [of s i] show ?thesis by (auto split: if_splits option.splits sum.splits)
next
  case (Store t i)
  with assms x_inv_store [of s t i] show ?thesis by (auto simp: xguard_def split: if_splits)
next
  case (Submit et)
  with assms x_inv_submit [of s et] show ?thesis by auto
qed

interpretation ex: labelled_invariant xdo x_inv
  by unfold_locales (rule x_inv_step)

lemma x_reach_inv: "x_reach s \<Longrightarrow> x_inv s"
proof -
  have "x_inv (exec_start timeout)" for timeout
    by (rule x_invI) (auto simp: exec_start_def slots_def executed_def)
  then show "x_reach s \<Longrightarrow> x_inv s" by (auto simp: x_reach_def intro: ex.steps_inv)
qed

section \<open>Properties\<close>

text \<open>
  C22: every exec task that was submitted is accounted for, exactly once: a thread is about to store it
  in the executor it claimed, it is in the slot of an executor, or it has been executed. So no task is
  executed twice, and none is overwritten in its slot by another one.
\<close>

theorem exec_tasks_accounted:
  assumes "x_reach s"
  shows "mset (map fst (claims s)) + slots (executors s) + mset (executed s) = mset [0..<next_etid s]"
  using x_reach_inv [OF assms] by (simp add: x_inv_def)

definition one_job :: exec_task where
  "one_job = exec_job 7 8"

definition run_exec :: "32 word \<Rightarrow> xlabel list \<Rightarrow> exec_sys" where
  "run_exec timeout ls = the (lrun xdo ls (exec_start timeout))"

lemma run_exec_reach: "lrun xdo ls (exec_start timeout) \<noteq> None \<Longrightarrow> x_reach (run_exec timeout ls)"
  unfolding x_reach_def run_exec_def by (rule exI, rule lsteps_the_lrun)

text \<open>Two jobs on one executor, a third one waiting for its store into a second.\<close>

definition busy_run :: "xlabel list" where
  "busy_run = [Submit one_job, Store 0 0, Enter 0, Wake 0, Run 0, Submit one_job, Store 1 0, Submit one_job]"

theorem exec_tasks_accounted_witness:
  "map fst (claims (run_exec 60 busy_run)) = [2] \<and> executed (run_exec 60 busy_run) = [0] \<and>
   mset (map fst (claims (run_exec 60 busy_run))) + slots (executors (run_exec 60 busy_run)) +
     mset (executed (run_exec 60 busy_run)) = mset [0..<next_etid (run_exec 60 busy_run)]"
proof (intro conjI)
  have "lrun xdo busy_run (exec_start 60) \<noteq> None" by code_simp
  from exec_tasks_accounted [OF run_exec_reach [OF this]]
  show "mset (map fst (claims (run_exec 60 busy_run))) + slots (executors (run_exec 60 busy_run)) +
     mset (executed (run_exec 60 busy_run)) = mset [0..<next_etid (run_exec 60 busy_run)]" .
  show "map fst (claims (run_exec 60 busy_run)) = [2]" by code_simp
  show "executed (run_exec 60 busy_run) = [0]" by code_simp
qed

lemma slot_in_slots: "i < length es \<Longrightarrow> xm_task (es ! i) = Some t \<Longrightarrow> t \<in># slots es"
  using slots_update [of i es "(es ! i)\<lparr>xm_task := None\<rparr>"]
  by (simp add: slot_def) (metis union_single_eq_member)

lemma exec_run_task_executes:
  assumes "x_inv s" "i < length (executors s)" "xm_task (executors s ! i) = Some t"
  shows "\<exists>s'. exec_run_task i t s = Inr s' \<and> t \<in> set (executed s') \<and> \<not> xm_busy (executors s' ! i)"
proof -
  have "t \<in># slots (executors s)" by (rule slot_in_slots [OF assms(2,3)])
  then obtain et where "exec_tasks s t = Some et" using assms(1) unfolding x_inv_def by fastforce
  with assms(2) show ?thesis
    by (auto simp: exec_run_task_def Let_def executed_def exec_finish_def remove_exec_task_def)
qed

text \<open>What the other threads do to an executor that holds a task: nothing.\<close>

lemma occupied_unchanged:
  assumes inv: "x_inv s" and i: "i < length (executors s)" "xm_task (executors s ! i) = Some t"
    and step: "xdo l s = Some s'" and l: "l \<notin> {Enter i, Wake i, Clock i, Run i}"
  shows "i < length (executors s') \<and> executors s' ! i = executors s ! i"
proof (cases l)
  case (Submit et)
  have b: "xm_busy (executors s ! i)" using exec_ok_at [OF inv i(1)] i(2) by (auto simp: exec_ok_def split: if_splits)
  obtain j s1 where f: "free_executor s = (j, s1)" by fastforce
  have "executors (exec_claim et s) = executors s1"
    using f by (auto simp: exec_claim_def free_executor_def upd_executor_def Let_def split: prod.splits option.splits)
  moreover have "i < length (executors s1) \<and> executors s1 ! i = executors s ! i"
    using inv f by (cases rule: free_executor_cases) (use i b in \<open>auto simp: upd_executor_def nth_append nth_list_update\<close>)
  ultimately show ?thesis using Submit step i by simp
next
  case (Store u j)
  have "xm_task (executors s ! j) = None" if "(u, j) \<in> set (claims s)" "j < length (executors s)"
  proof -
    have "claims_on j s \<noteq> 0" using that by (force simp: claims_on_def filter_empty_conv)
    then show ?thesis using exec_ok_at [OF inv that(2)] by (auto simp: exec_ok_def split: if_splits)
  qed
  with Store step i show ?thesis by (cases "i = j") (auto simp: xguard_def exec_store_def split: if_splits)
next
  case (Run j)
  with step i l show ?thesis
    by (auto simp: exec_run_task_def exec_finish_def remove_exec_task_def Let_def split: if_splits option.splits sum.splits)
qed (use step i l in \<open>auto simp: xguard_def split: if_splits xpc.splits\<close>)

lemma slot_kept:
  assumes inv: "x_inv s" and i: "i < length (executors s)" "xm_task (executors s ! i) = Some t"
      "\<not> xm_term (executors s ! i)" and step: "xdo l s = Some s'"
  shows "xm_task (executors s' ! i) = Some t \<and> \<not> xm_term (executors s' ! i) \<or> t \<in> set (executed s')"
proof (cases "l \<in> {Enter i, Wake i, Clock i, Run i}")
  case True
  with step i exec_run_task_executes [OF inv i(1,2)] show ?thesis
    by (auto simp: xguard_def exec_ready_def split: if_splits xpc.splits)
next
  case False
  with occupied_unchanged [OF inv i(1,2) step] i(2,3) show ?thesis by auto
qed

lemma slot_runs:
  assumes inv: "x_inv s" and i: "i < length (executors s)" "xm_task (executors s ! i) = Some t"
      "\<not> xm_term (executors s ! i)"
  shows "\<exists>ls s'. set ls \<subseteq> {Enter i, Wake i, Run i} \<and> length ls \<le> 3 \<and> lrun xdo ls s = Some s' \<and>
    t \<in> set (executed s') \<and> \<not> xm_busy (executors s' ! i)"
proof -
  have run: "\<exists>s2. xdo (Run i) s1 = Some s2 \<and> t \<in> set (executed s2) \<and> \<not> xm_busy (executors s2 ! i)"
    if "x_inv s1" "i < length (executors s1)" "xm_task (executors s1 ! i) = Some t" "xm_pc (executors s1 ! i) = Executing" for s1
    using exec_run_task_executes [OF that(1,2,3)] that by auto
  let ?x = "upd_executor i (\<lambda>e. e\<lparr>xm_pc := if xm_term e then Top else Executing\<rparr>)"
  let ?t = "upd_executor i (\<lambda>e. e\<lparr>xm_pc := if xm_term e then Left else Idle 0\<rparr>) s"
  have wake: "xdo (Wake i) s1 = Some (?x s1)"
    if "i < length (executors s1)" "xm_task (executors s1 ! i) = Some t" "xm_pc (executors s1 ! i) = Idle r" for s1 r
    using that by (simp add: xguard_def exec_ready_def)
  show ?thesis
  proof (cases "xm_pc (executors s ! i)")
    case Executing
    with run [OF inv i(1,2)] show ?thesis by (intro exI [of _ "[Run i]"]) (auto simp del: xdo.simps)
  next
    case (Idle r)
    have "x_inv (?x s)" by (rule x_inv_step [OF inv wake [OF i(1,2) Idle]])
    with run [of "?x s"] i wake [OF i(1,2) Idle] show ?thesis
      by (intro exI [of _ "[Wake i, Run i]"]) (auto simp del: xdo.simps)
  next
    case Top
    then have e: "xdo (Enter i) s = Some ?t" using i by (simp add: xguard_def)
    have w: "xdo (Wake i) ?t = Some (?x ?t)" by (rule wake [of _ 0]) (use i in simp_all)
    have "x_inv (?x ?t)" by (rule x_inv_step [OF x_inv_step [OF inv e] w])
    with run [of "?x ?t"] i e w show ?thesis
      by (intro exI [of _ "[Enter i, Wake i, Run i]"]) (auto simp del: xdo.simps)
  next
    case Left
    with exec_ok_at [OF inv i(1)] i(3) show ?thesis by (simp add: exec_ok_def)
  qed
qed

text \<open>
  C23: a task that is in the slot of an executor that has not terminated stays there, whatever the other
  threads and the clock do, until it is executed; and the executor can do that by itself, in at most
  three steps, after which it is free again.
\<close>

theorem stored_task_runs:
  assumes "x_reach s" "i < length (executors s)" "xm_task (executors s ! i) = Some t" "\<not> xm_term (executors s ! i)"
  shows "(\<forall>l s'. xdo l s = Some s' \<longrightarrow>
      xm_task (executors s' ! i) = Some t \<and> \<not> xm_term (executors s' ! i) \<or> t \<in> set (executed s')) \<and>
    (\<exists>ls s'. set ls \<subseteq> {Enter i, Wake i, Run i} \<and> length ls \<le> 3 \<and> lrun xdo ls s = Some s' \<and>
      t \<in> set (executed s') \<and> \<not> xm_busy (executors s' ! i))"
  using slot_kept [OF x_reach_inv [OF assms(1)] assms(2-4)] slot_runs [OF x_reach_inv [OF assms(1)] assms(2-4)]
  by blast

theorem stored_task_runs_witness:
  "\<exists>ls s'. lrun xdo ls (run_exec 60 busy_run) = Some s' \<and> 1 \<in> set (executed s')"
proof -
  have "lrun xdo busy_run (exec_start 60) \<noteq> None" by code_simp
  note r = run_exec_reach [OF this]
  have "0 < length (executors (run_exec 60 busy_run))" "xm_task (executors (run_exec 60 busy_run) ! 0) = Some 1"
    "\<not> xm_term (executors (run_exec 60 busy_run) ! 0)" by code_simp+
  from stored_task_runs [OF r this] show ?thesis by blast
qed

lemma left_stays:
  assumes "x_inv s" "i < length (executors s)" "xm_task (executors s ! i) = Some t" "xm_pc (executors s ! i) = Left"
    and "xdo l s = Some s'"
  shows "i < length (executors s') \<and> xm_task (executors s' ! i) = Some t \<and> xm_pc (executors s' ! i) = Left"
proof -
  have "l \<notin> {Enter i, Wake i, Clock i, Run i}" using assms(4,5) by (auto simp: xguard_def split: if_splits)
  with occupied_unchanged [OF assms(1-3,5)] assms show ?thesis by auto
qed

lemma left_keeps_task:
  assumes "lsteps xdo s s'" "x_inv s" "i < length (executors s)" "xm_task (executors s ! i) = Some t" "xm_pc (executors s ! i) = Left"
  shows "i < length (executors s') \<and> xm_task (executors s' ! i) = Some t \<and> xm_pc (executors s' ! i) = Left"
  by (rule ex.steps_keep [OF assms(1,2)]) (use assms(3-5) left_stays in blast)+

lemma slot_not_executed:
  assumes "x_inv s" "i < length (executors s)" "xm_task (executors s ! i) = Some t"
  shows "t \<notin> set (executed s)"
proof -
  have "t \<in># slots (executors s)" by (rule slot_in_slots [OF assms(2,3)])
  then have "0 < count (slots (executors s)) t" by (simp add: count_greater_zero_iff)
  then have "count (mset (executed s)) t = 0"
    using x_inv_distinct [OF assms(1), of t] by (simp only: count_union)
  then show ?thesis by simp
qed

text \<open>
  The destructor of an executor returns. The task that is being executed is executed to its end; one that is only stored is not
  executed any more.
\<close>

lemma exec_run_task_effect:
  assumes "exec_tasks s t = Some et" "i < length (executors s)"
  shows "\<exists>s'. exec_run_task i t s = Inr s' \<and> executed s' = executed s @ [t] \<and> length (executors s') = length (executors s) \<and>
    executors s' ! i = (executors s ! i)\<lparr>xm_task := None, xm_busy := False, xm_pc := Top\<rparr>"
  using assms by (cases "xt_auto_delete et")
    (simp_all add: exec_run_task_def Let_def executed_def exec_finish_def remove_exec_task_def upd_executor_def concat_finish)

lemma exec_join_step:
  "i < length (executors s) \<Longrightarrow> xm_pc (executors s ! i) \<noteq> Left \<Longrightarrow> xdo (exec_next i (xm_pc (executors s ! i))) s = Some s' \<Longrightarrow>
   exec_join (Suc fuel) i s = exec_join fuel i s'"
  by simp

lemma exec_join_top:
  assumes "i < length (executors s)" "xm_pc (executors s ! i) = Top" "xm_term (executors s ! i)"
  shows "\<exists>s'. exec_join (Suc (Suc fuel)) i s = Some s' \<and> xm_pc (executors s' ! i) = Left \<and> executed s' = executed s"
  using assms by (simp add: xguard_def)

lemma executor_delete_ends:
  assumes "x_reach s" "i < length (executors s)"
  shows "\<exists>s'. executor_delete i s = Some s' \<and> xm_pc (executors s' ! i) = Left \<and>
    executed s' = executed s @ (if xm_pc (executors s ! i) = Executing then [the (xm_task (executors s ! i))] else [])"
proof -
  let ?s = "upd_executor i executor_terminate s" and ?e = "executors s ! i"
  have inv: "x_inv s" by (rule x_reach_inv [OF assms(1)])
  have e: "executors ?s ! i = ?e\<lparr>xm_term := True\<rparr>" "i < length (executors ?s)"
    using assms(2) by (simp_all add: executor_terminate_def)
  note four = executor_delete_def numeral_eq_Suc pred_numeral_simps
  show ?thesis
  proof (cases "xm_pc ?e")
    case Top
    with exec_join_top [of i ?s] e show ?thesis by (simp add: four del: exec_join.simps)
  next
    case (Idle r)
    let ?t = "upd_executor i (\<lambda>e. e\<lparr>xm_pc := Top\<rparr>) ?s"
    have "xdo (Wake i) ?s = Some ?t"
      using Idle e assms(2) by (simp add: xguard_def exec_ready_def executor_terminate_def upd_executor_def)
    with exec_join_step [of i ?s ?t] exec_join_top [of i ?t] e Idle assms(2) show ?thesis
      by (simp add: four executor_terminate_def del: exec_join.simps xdo.simps)
  next
    case Executing
    then obtain t where t: "xm_task ?e = Some t" using exec_ok_at [OF inv assms(2)] by (auto simp: exec_ok_def)
    have "exec_tasks s t \<noteq> None" using inv slot_in_slots [OF assms(2) t] unfolding x_inv_def by auto
    then obtain et where et: "exec_tasks s t = Some et" by blast
    obtain s1 where s1: "exec_run_task i t ?s = Inr s1" "executed s1 = executed s @ [t]" "length (executors s1) = length (executors s)"
      "executors s1 ! i = ?e\<lparr>xm_term := True, xm_task := None, xm_busy := False, xm_pc := Top\<rparr>"
      using exec_run_task_effect [of ?s t et i] et assms(2) by (auto simp: executor_terminate_def)
    then have "xdo (Run i) ?s = Some s1" using Executing t e by simp
    with exec_join_step [of i ?s s1] exec_join_top [of i s1] s1 e Executing t assms(2) show ?thesis
      by (simp add: four executor_terminate_def del: exec_join.simps xdo.simps)
  next
    case Left
    with e show ?thesis by (simp add: four executed_def)
  qed
qed

text \<open>
  C24: a task that is stored in an executor whose thread has left is lost: it is never executed, and the
  finish callbacks of the task never run. The idle timeout opens the way there: an executor may
  terminate after \<^verbatim>\<open>free_executor\<close> has returned it and before \<^verbatim>\<open>add_task\<close> stores the task.
\<close>

theorem lost_task_never_runs:
  assumes "x_reach s" "i < length (executors s)" "xm_task (executors s ! i) = Some t" "xm_pc (executors s ! i) = Left"
    and "lsteps xdo s s'"
  shows "t \<notin> set (executed s')"
  using left_keeps_task [OF assms(5) x_reach_inv [OF assms(1)] assms(2-4)]
    ex.steps_inv [OF assms(5) x_reach_inv [OF assms(1)]] slot_not_executed by blast

text \<open>With a timeout of one second: ten checks of the clock between the claim and the store.\<close>

definition losing_run :: "xlabel list" where
  "losing_run = [Submit one_job, Enter 0] @ replicate 10 (Clock 0) @ [Wake 0, Enter 0, Store 0 0]"

theorem lost_task_never_runs_witness:
  "x_reach (run_exec 1 losing_run) \<and> (\<forall>s'. \<not> (lsteps xdo (run_exec 1 losing_run) s' \<and> 0 \<in> set (executed s')))"
proof -
  have "lrun xdo losing_run (exec_start 1) \<noteq> None" by code_simp
  note r = run_exec_reach [OF this]
  have "0 < length (executors (run_exec 1 losing_run))" "xm_task (executors (run_exec 1 losing_run) ! 0) = Some 0"
    "xm_pc (executors (run_exec 1 losing_run) ! 0) = Left" by code_simp+
  from r lost_task_never_runs [OF r this] show ?thesis by blast
qed

definition idle_limit :: "32 word \<Rightarrow> nat" where
  "idle_limit w = nat (max 1 (idle_runs w))"

lemma clocks:
  "\<lbrakk>i < length (executors s); xm_pc (executors s ! i) = Idle r; \<not> exec_ready (executors s ! i);
    r < idle_limit (m_timeout s)\<rbrakk> \<Longrightarrow>
   (lrun xdo (replicate n (Clock i)) s \<noteq> None \<longleftrightarrow> r + n \<le> idle_limit (m_timeout s)) \<and>
   (\<forall>s'. lrun xdo (replicate n (Clock i)) s = Some s' \<longrightarrow> (xm_term (executors s' ! i) \<longleftrightarrow> r + n = idle_limit (m_timeout s)))"
proof (induction n arbitrary: s r)
  case 0
  then show ?case by (auto simp: exec_ready_def)
next
  case (Suc n)
  let ?s = "upd_executor i (exec_idle (m_timeout s) r) s"
  have c: "xdo (Clock i) s = Some ?s" using Suc.prems by (simp add: xguard_def)
  have lim: "int (Suc r) \<ge> idle_runs (m_timeout s) \<longleftrightarrow> Suc r = idle_limit (m_timeout s)"
    using Suc.prems(4) by (auto simp: idle_limit_def)
  show ?case
  proof (cases "Suc r = idle_limit (m_timeout s)")
    case True
    then have t: "xm_term (executors ?s ! i)" using Suc.prems lim by (simp add: exec_idle_def Let_def)
    then have "xdo (Clock i) ?s = None" using Suc.prems by (auto simp: xguard_def exec_ready_def split: xpc.splits)
    with c t True show ?thesis by (cases n) (simp_all del: xdo.simps)
  next
    case False
    then have "\<not> exec_ready (executors ?s ! i)" "xm_pc (executors ?s ! i) = Idle (Suc r)"
      using Suc.prems lim by (auto simp: exec_idle_def exec_ready_def Let_def)
    with Suc.IH [of ?s "Suc r"] Suc.prems c False show ?thesis by (simp del: xdo.simps)
  qed
qed

lemma idle_runs_product:
  assumes "unat w = n" "10 * n < 2 ^ 32"
  shows "idle_runs w = signed_take_bit 31 (10 * int n)"
proof -
  have "uint w = int n" using assms(1) by (simp flip: assms(1))
  moreover have "10 * int n mod 2 ^ 32 = 10 * int n" using assms(2) by simp
  ultimately have "uint (10 * w) = 10 * int n" by (simp add: uint_word_ariths take_bit_eq_mod)
  then show ?thesis unfolding idle_runs_def sint_uint by simp
qed

lemma idle_runs_small:
  assumes "unat w = n" "10 * n < 2 ^ 31"
  shows "idle_runs w = int (10 * n)"
proof -
  have "signed_take_bit 31 (10 * int n) = 10 * int n"
    using assms(2) by (intro signed_take_bit_int_eq_self) simp_all
  then show ?thesis using idle_runs_product [OF assms(1)] assms(2) by simp
qed

lemma idle_runs_large:
  assumes "unat w = n" "2 ^ 31 \<le> 10 * n" "10 * n < 2 ^ 32"
  shows "idle_runs w < 0"
proof -
  have "10 * int n div 2 ^ 31 = 1"
    using assms by (intro int_div_pos_eq [where r = "10 * int n - 2 ^ 31"]) simp_all
  then have "bit (10 * int n) 31" by (simp add: bit_int_def)
  then show ?thesis using idle_runs_product [OF assms(1,3)] by (simp add: signed_take_bit_negative_iff)
qed

lemma idle_limit_small: "10 * unat w < 2 ^ 31 \<Longrightarrow> idle_limit w = max 1 (10 * unat w)"
  unfolding idle_limit_def by (simp only: idle_runs_small [OF refl])

lemma idle_limit_large: "2 ^ 31 \<le> 10 * unat w \<Longrightarrow> 10 * unat w < 2 ^ 32 \<Longrightarrow> idle_limit w = 1"
  using idle_runs_large [of w, OF refl] by (simp add: idle_limit_def)


definition idle_executor :: "32 word \<Rightarrow> exec_sys" where
  "idle_executor timeout = run_exec timeout [Submit one_job, Store 0 0, Enter 0, Wake 0, Run 0, Enter 0]"


end
