(* ===== verification/Term.thy ===== *)
theory Term
  imports System
begin

unbundle bit_operations_syntax

text \<open>
  Serial lines (\<^verbatim>\<open>include/tasks/serial/term.h\<close>, \<^verbatim>\<open>tasks/serial/term.cpp\<close>) and the serial tasks
  on top of them (\<^verbatim>\<open>serial_io_task.h\<close>, \<^verbatim>\<open>serial_io_task.cpp\<close>).

  The calls of the C library and the kernel are the parameter \<open>S\<close>, over an arbitrary state \<open>'k\<close>. A
  method is a \<open>prog\<close> over the descriptor of the object and that state. The constants are those of
  Linux.
\<close>

section \<open>Terminal settings\<close>

record termios =
  c_oflag :: "32 word"
  c_cflag :: "32 word"
  c_lflag :: "32 word"
  c_speeds :: "32 word \<times> 32 word"

definition CLOCAL :: "32 word" where "CLOCAL = 0x800"
definition CREAD :: "32 word" where "CREAD = 0x80"
definition CSIZE :: "32 word" where "CSIZE = 0x30"
definition PARENB :: "32 word" where "PARENB = 0x100"
definition PARODD :: "32 word" where "PARODD = 0x200"
definition CSTOPB :: "32 word" where "CSTOPB = 0x40"
definition ICANON :: "32 word" where "ICANON = 0x2"
definition ECHO :: "32 word" where "ECHO = 0x8"
definition ECHOE :: "32 word" where "ECHOE = 0x10"
definition ISIG :: "32 word" where "ISIG = 0x1"
definition OPOST :: "32 word" where "OPOST = 0x1"

datatype termmode_t = M_8N1 | M_7S1 | M_7E1 | M_7O1
datatype charsize_t = CS_5 | CS_6 | CS_7 | CS_8
datatype parity_t = P_NONE | P_EVEN | P_ODD
datatype stopbits_t = S_1 | S_2

fun charsize_flag :: "charsize_t \<Rightarrow> 32 word" where
  "charsize_flag CS_5 = 0"
| "charsize_flag CS_6 = 0x10"
| "charsize_flag CS_7 = 0x20"
| "charsize_flag CS_8 = 0x30"

section \<open>The calls\<close>

record 'k term_sys =
  t_open :: "string \<Rightarrow> 'k \<Rightarrow> int \<times> 'k"
  t_setfl :: "int \<Rightarrow> 'k \<Rightarrow> int \<times> 'k"
  t_getattr :: "int \<Rightarrow> 'k \<Rightarrow> (int \<times> termios) \<times> 'k"
  t_setattr :: "int \<Rightarrow> termios \<Rightarrow> 'k \<Rightarrow> int \<times> 'k"
  t_setispeed :: "32 word \<Rightarrow> termios \<Rightarrow> 'k \<Rightarrow> (int \<times> termios) \<times> 'k"
  t_setospeed :: "32 word \<Rightarrow> termios \<Rightarrow> 'k \<Rightarrow> (int \<times> termios) \<times> 'k"
  t_close :: "int \<Rightarrow> 'k \<Rightarrow> int \<times> 'k"
  t_write :: "int \<Rightarrow> bytes \<Rightarrow> 'k \<Rightarrow> int \<times> 'k"
  t_read :: "int \<Rightarrow> nat \<Rightarrow> 'k \<Rightarrow> (int \<times> bytes) \<times> 'k"
  t_errno :: "'k \<Rightarrow> int"
  t_strerror :: "int \<Rightarrow> string"

type_synonym ('k, 'a) term_prog = "(int \<times> 'k, 'a) prog"

definition t_call :: "(int \<Rightarrow> 'k \<Rightarrow> 'a \<times> 'k) \<Rightarrow> ('k, 'a) term_prog" where
  "t_call f = (\<lambda>(fd, k). case f fd k of (a, k') \<Rightarrow> (Inr a, (fd, k')))"

definition t_throw :: "'k term_sys \<Rightarrow> tasks_error \<Rightarrow> string \<Rightarrow> ('k, 'a) term_prog" where
  "t_throw S e what = (\<lambda>(fd, k).
     (Inl (Thrown (tasks_exception_errno e (what @ '' failed: '' @ t_strerror S (t_errno S k)) (t_errno S k))), (fd, k)))"

section \<open>The methods\<close>

definition term_close :: "'k term_sys \<Rightarrow> ('k, unit) term_prog" where
  "term_close S = (\<lambda>(fd, k). if fd > -1 then (Inr (), (-1, snd (t_close S fd k))) else (Inr (), (fd, k)))"

text \<open>\<^verbatim>\<open>errno\<close> is read after \<^verbatim>\<open>close()\<close>.\<close>

definition close_unless :: "bool \<Rightarrow> 'k term_sys \<Rightarrow> tasks_error \<Rightarrow> string \<Rightarrow> ('k, unit) term_prog" where
  "close_unless ok S e what = (if ok then ret () else sq (term_close S) (t_throw S e what))"

definition need_device :: "('k, unit) term_prog" where
  "need_device = bnd (gets fst) (\<lambda>fd.
     unless_throw (\<not> fd < 0) (tasks_exception_msg TERM_NO_DEVICE ''no open device''))"

definition term_options :: "'k term_sys \<Rightarrow> ('k, termios) term_prog" where
  "term_options S =
     sq need_device
    (bnd (t_call (t_getattr S)) (\<lambda>(r, opts).
     sq (close_unless (r = 0) S TERM_TCGETATTR ''tcgetattr'') (ret opts)))"

definition set_options :: "'k term_sys \<Rightarrow> termios \<Rightarrow> ('k, unit) term_prog" where
  "set_options S opts =
     sq need_device
    (bnd (t_call (\<lambda>fd. t_setattr S fd opts)) (\<lambda>r.
     close_unless (r = 0) S TERM_TCSETATTR ''tcsetattr''))"

definition raw_flags :: "termios \<Rightarrow> termios" where
  "raw_flags opts = opts\<lparr>c_cflag := c_cflag opts OR (CLOCAL OR CREAD),
     c_lflag := c_lflag opts AND NOT (ICANON OR ECHO OR ECHOE OR ISIG),
     c_oflag := c_oflag opts AND NOT OPOST\<rparr>"

definition charsize_bits :: "charsize_t \<Rightarrow> 32 word \<Rightarrow> 32 word" where
  "charsize_bits cs c = (c AND NOT CSIZE) OR charsize_flag cs"

fun parity_bits :: "parity_t \<Rightarrow> 32 word \<Rightarrow> 32 word" where
  "parity_bits P_NONE c = c AND NOT PARENB"
| "parity_bits P_EVEN c = (c OR PARENB) AND NOT PARODD"
| "parity_bits P_ODD c = (c OR PARENB) OR PARODD"

text \<open>The case of two stop bits has no \<^verbatim>\<open>break\<close> and runs into the default.\<close>

definition stop_bits :: "'k term_sys \<Rightarrow> stopbits_t \<Rightarrow> 32 word \<Rightarrow> ('k, 32 word) term_prog" where
  "stop_bits S st c =
     (case st of
        S_1 \<Rightarrow> ret (c AND NOT CSTOPB)
      | S_2 \<Rightarrow> (let c = c OR CSTOPB
               in sq (term_close S)
                    (fails (Thrown (tasks_exception_msg TERM_INVALID_STOPBITS ''invalid stopbits parameter'')))))"

text \<open>\<^verbatim>\<open>open\<close> after the device was opened, and the whole of it.\<close>

definition configure ::
  "'k term_sys \<Rightarrow> 32 word \<Rightarrow> charsize_t \<Rightarrow> parity_t \<Rightarrow> stopbits_t \<Rightarrow> ('k, unit) term_prog" where
  "configure S baudrate cs par st =
     bnd (t_call (t_setfl S)) (\<lambda>r.
     sq (close_unless (r = 0) S TERM_FCNTL ''fcntl'')
    (bnd (term_options S) (\<lambda>opts.
     bnd (t_call (\<lambda>_. t_setispeed S baudrate (raw_flags opts))) (\<lambda>(r, opts).
     sq (close_unless (r = 0) S TERM_CFSETISPEED ''cfsetispeed'')
    (bnd (t_call (\<lambda>_. t_setospeed S baudrate opts)) (\<lambda>(r, opts).
     sq (close_unless (r = 0) S TERM_CFSETOSPEED ''cfsetospeed'')
    (bnd (stop_bits S st (parity_bits par (charsize_bits cs (c_cflag opts)))) (\<lambda>c.
     set_options S (opts\<lparr>c_cflag := c\<rparr>)))))))))"

definition term_open ::
  "'k term_sys \<Rightarrow> string \<Rightarrow> 32 word \<Rightarrow> charsize_t \<Rightarrow> parity_t \<Rightarrow> stopbits_t \<Rightarrow> ('k, unit) term_prog" where
  "term_open S port baudrate cs par st =
     sq (\<lambda>(_, k). case t_open S port k of (fd, k') \<Rightarrow> (Inr (), (fd, k')))
    (bnd (gets fst) (\<lambda>fd.
       if fd < 0 then t_throw S TERM_OPEN (''opening '' @ port) else configure S baudrate cs par st))"

fun term_open_mode :: "'k term_sys \<Rightarrow> string \<Rightarrow> 32 word \<Rightarrow> termmode_t \<Rightarrow> ('k, unit) term_prog" where
  "term_open_mode S port baudrate M_8N1 = term_open S port baudrate CS_8 P_NONE S_1"
| "term_open_mode S port baudrate M_7S1 = term_open S port baudrate CS_7 P_NONE S_1"
| "term_open_mode S port baudrate M_7E1 = term_open S port baudrate CS_7 P_EVEN S_1"
| "term_open_mode S port baudrate M_7O1 = term_open S port baudrate CS_7 P_ODD S_1"

definition term_write :: "'k term_sys \<Rightarrow> bytes \<Rightarrow> ('k, int) term_prog" where
  "term_write S data = sq need_device (t_call (\<lambda>fd. t_write S fd data))"

definition term_read :: "'k term_sys \<Rightarrow> nat \<Rightarrow> ('k, int \<times> bytes) term_prog" where
  "term_read S len = sq need_device (t_call (\<lambda>fd. t_read S fd len))"

text \<open>A serial task is an I/O task on the descriptor of its terminal; it closes it when it is deleted.\<close>

definition serial_io_task_new :: "int \<Rightarrow> int \<Rightarrow> etask" where
  "serial_io_task_new fd events =
     (let e = (io_task_base_new events)\<lparr>em_fd := fd\<rparr>
      in if -1 \<noteq> fd then e\<lparr>em_watch := (fd, events), em_watcher_initialized := True\<rparr> else e)"

definition serial_io_task_delete :: "'k term_sys \<Rightarrow> bool \<Rightarrow> ('k, unit) term_prog" where
  "serial_io_task_delete S auto_close = (if auto_close then term_close S else ret ())"

section \<open>Failing closes the device\<close>

definition fails_closed :: "('k, 'a) term_prog \<Rightarrow> bool" where
  "fails_closed m \<longleftrightarrow> (\<forall>st e fd k. m st = (Inl e, (fd, k)) \<longrightarrow> fd < 0)"

lemma fails_closedD: "fails_closed m \<Longrightarrow> m st = (Inl e, (fd, k)) \<Longrightarrow> fd < 0"
  unfolding fails_closed_def by blast

lemma fails_closed_bnd: "fails_closed m \<Longrightarrow> (\<And>a. fails_closed (f a)) \<Longrightarrow> fails_closed (bnd m f)"
  by (fastforce simp: fails_closed_def bnd_def split: sum.splits prod.splits)

lemma fails_closed_sq: "fails_closed m \<Longrightarrow> fails_closed n \<Longrightarrow> fails_closed (sq m n)"
  unfolding sq_def by (rule fails_closed_bnd)

lemma fails_closed_basic:
  "fails_closed (ret a)" "fails_closed (gets f)" "fails_closed (t_call g)" "fails_closed need_device"
  by (auto simp: fails_closed_def prog_defs t_call_def need_device_def split: prod.splits if_splits)

lemma term_close_closes: "term_close S st = (r, (fd, k)) \<Longrightarrow> r = Inr () \<and> fd < 0"
  by (cases st) (auto simp: term_close_def split: if_splits)

lemma fails_closed_close: "fails_closed (sq (term_close S) m)" if "\<And>st e fd k. m st = (Inl e, (fd, k)) \<Longrightarrow> fst st = fd"
  unfolding fails_closed_def sq_def bnd_def
  by (auto split: sum.splits prod.splits dest!: term_close_closes that)

lemma t_throw_fd: "t_throw S e w st = (Inl x, (fd, k)) \<Longrightarrow> fst st = fd"
  by (auto simp: t_throw_def split: prod.splits)

lemma fails_closed_unless: "fails_closed (close_unless ok S e w)"
  by (auto simp: close_unless_def intro!: fails_closed_close fails_closed_basic dest: t_throw_fd)

lemma fails_closed_stop_bits: "fails_closed (stop_bits S st c)"
  by (cases st) (auto simp: stop_bits_def fails_def intro!: fails_closed_close fails_closed_basic)

lemma fails_closed_options: "fails_closed (term_options S)"
  unfolding term_options_def
  by (auto intro!: fails_closed_sq fails_closed_bnd fails_closed_basic fails_closed_unless split: prod.splits)

lemma fails_closed_set_options: "fails_closed (set_options S opts)"
  unfolding set_options_def
  by (auto intro!: fails_closed_sq fails_closed_bnd fails_closed_basic fails_closed_unless)

lemma fails_closed_configure: "fails_closed (configure S baudrate cs par st)"
  unfolding configure_def split_def
  by (intro fails_closed_sq fails_closed_bnd fails_closed_basic fails_closed_unless fails_closed_options
      fails_closed_stop_bits fails_closed_set_options)

section \<open>Properties\<close>


text \<open>A terminal to evaluate the model with: a call that \<open>bad\<close> names fails, all others succeed.\<close>

definition demo_term :: "nat \<Rightarrow> unit term_sys" where
  "demo_term bad = \<lparr>
     t_open = (\<lambda>_ k. (if bad = 0 then -1 else 5, k)), t_setfl = (\<lambda>_ k. (if bad = 1 then -1 else 0, k)),
     t_getattr = (\<lambda>_ k. ((if bad = 2 then -1 else 0, \<lparr>c_oflag = 1, c_cflag = 0x130, c_lflag = 0xFF, c_speeds = (0, 0)\<rparr>), k)),
     t_setattr = (\<lambda>_ _ k. (if bad = 3 then -1 else 0, k)),
     t_setispeed = (\<lambda>b opts k. ((if bad = 4 then -1 else 0, opts\<lparr>c_speeds := (b, snd (c_speeds opts))\<rparr>), k)),
     t_setospeed = (\<lambda>b opts k. ((if bad = 5 then -1 else 0, opts\<lparr>c_speeds := (fst (c_speeds opts), b)\<rparr>), k)),
     t_close = (\<lambda>_ k. (0, k)), t_write = (\<lambda>_ d k. (int (length d), k)), t_read = (\<lambda>_ _ k. ((0, []), k)),
     t_errno = (\<lambda>_. 5), t_strerror = (\<lambda>_. ''x'')\<rparr>"


text \<open>
  What the C library promises of \<^verbatim>\<open>cfsetispeed\<close> and \<^verbatim>\<open>cfsetospeed\<close>: they change the speed and leave
  the other flags alone.
\<close>

definition speed_only :: "'k term_sys \<Rightarrow> bool" where
  "speed_only S \<longleftrightarrow> (\<forall>b opts k r opts' k'.
     t_setispeed S b opts k = ((r, opts'), k') \<or> t_setospeed S b opts k = ((r, opts'), k') \<longrightarrow>
       c_lflag opts' = c_lflag opts \<and> c_oflag opts' = c_oflag opts \<and>
       c_cflag opts' AND (CLOCAL OR CREAD) = c_cflag opts AND (CLOCAL OR CREAD))"

definition line_set :: "charsize_t \<Rightarrow> parity_t \<Rightarrow> termios \<Rightarrow> bool" where
  "line_set cs par opts \<longleftrightarrow>
     c_cflag opts AND CSIZE = charsize_flag cs \<and> c_cflag opts AND CSTOPB = 0 \<and>
     c_cflag opts AND (CLOCAL OR CREAD) = CLOCAL OR CREAD \<and>
     c_lflag opts AND (ICANON OR ECHO OR ECHOE OR ISIG) = 0 \<and> c_oflag opts AND OPOST = 0 \<and>
     (case par of
        P_NONE \<Rightarrow> c_cflag opts AND PARENB = 0
      | P_EVEN \<Rightarrow> c_cflag opts AND PARENB = PARENB \<and> c_cflag opts AND PARODD = 0
      | P_ODD \<Rightarrow> c_cflag opts AND PARENB = PARENB \<and> c_cflag opts AND PARODD = PARODD)"

lemmas term_flags = CLOCAL_def CREAD_def CSIZE_def PARENB_def PARODD_def CSTOPB_def ICANON_def ECHO_def ECHOE_def
  ISIG_def OPOST_def

lemma line_set_cflag:
  assumes "c AND (CLOCAL OR CREAD) = CLOCAL OR CREAD"
    and "c_lflag opts = l AND NOT (ICANON OR ECHO OR ECHOE OR ISIG)" "c_oflag opts = o1 AND NOT OPOST"
  shows "line_set cs par (opts\<lparr>c_cflag := parity_bits par (charsize_bits cs c) AND NOT CSTOPB\<rparr>)"
  using assms
  by (cases cs; cases par)
     (simp_all add: line_set_def charsize_bits_def term_flags bit.conj_disj_distrib2 and.assoc)

lemma close_unless_Inr: "close_unless ok S e w st = (Inr u, st') \<longleftrightarrow> ok \<and> st' = st"
  by (cases st) (auto simp: close_unless_def prog_defs t_throw_def term_close_def split: if_splits prod.splits sum.splits)

lemma need_device_Inr: "need_device (fd, k) = (Inr u, st') \<longleftrightarrow> 0 \<le> fd \<and> st' = (fd, k)"
  by (auto simp: need_device_def prog_defs)

lemma t_call_Inr: "t_call f (fd, k) = (Inr a, st') \<longleftrightarrow> (\<exists>k'. f fd k = (a, k') \<and> st' = (fd, k'))"
  by (auto simp: t_call_def split: prod.splits)

lemma stop_bits_Inr: "stop_bits S st c x = (Inr c', x') \<longleftrightarrow> st = S_1 \<and> c' = c AND NOT CSTOPB \<and> x' = x"
  by (cases st; cases x) (auto simp: stop_bits_def prog_defs term_close_def)

lemmas term_Inr = bnd_Inr sq_def close_unless_Inr need_device_Inr t_call_Inr stop_bits_Inr

lemma speed_onlyD:
  assumes "speed_only S" "t_setispeed S b opts k = ((r, opts'), k') \<or> t_setospeed S b opts k = ((r, opts'), k')"
  shows "c_lflag opts' = c_lflag opts" "c_oflag opts' = c_oflag opts"
    "c_cflag opts' AND (CLOCAL OR CREAD) = c_cflag opts AND (CLOCAL OR CREAD)"
  using assms unfolding speed_only_def by blast+

lemma configure_Inr:
  assumes "configure S baudrate cs par st (f, k0) = (Inr (), (fd, k))" "speed_only S"
  shows "fd = f \<and> 0 \<le> fd \<and> st = S_1 \<and> (\<exists>opts k1. t_setattr S fd opts k1 = (0, k) \<and> line_set cs par opts)"
proof -
  from assms(1) obtain opts k1 r1 opts1 k2 opts2 k3 where
    f: "fd = f" "0 \<le> f" "st = S_1"
    and i: "t_setispeed S baudrate (raw_flags opts) k1 = ((r1, opts1), k2)"
    and o: "t_setospeed S baudrate opts1 k2 = ((0, opts2), k3)"
    and a: "t_setattr S f (opts2\<lparr>c_cflag := parity_bits par (charsize_bits cs (c_cflag opts2)) AND NOT CSTOPB\<rparr>) k3 = (0, k)"
    unfolding configure_def term_options_def set_options_def
    by (auto simp: term_Inr ret_def)
  have "c_lflag opts2 = c_lflag opts AND NOT (ICANON OR ECHO OR ECHOE OR ISIG)" "c_oflag opts2 = c_oflag opts AND NOT OPOST"
    "c_cflag opts2 AND (CLOCAL OR CREAD) = c_cflag (raw_flags opts) AND (CLOCAL OR CREAD)"
    using speed_onlyD [OF assms(2) disjI1 [OF i]] speed_onlyD [OF assms(2) disjI2 [OF o]]
    by (simp_all add: raw_flags_def)
  moreover have "c_cflag (raw_flags opts) AND (CLOCAL OR CREAD) = CLOCAL OR CREAD"
    by (simp add: raw_flags_def term_flags bit.conj_disj_distrib2)
  ultimately have "line_set cs par (opts2\<lparr>c_cflag := parity_bits par (charsize_bits cs (c_cflag opts2)) AND NOT CSTOPB\<rparr>)"
    by (intro line_set_cflag) simp_all
  with f a show ?thesis by auto
qed

text \<open>
  What a successful \<^verbatim>\<open>term::open\<close> has given to \<^verbatim>\<open>tcsetattr\<close>: the character size and the parity
  that were asked for, one stop bit, a raw line with the receiver on. One stop bit is also the only
  number that can be asked for: with two the \<^verbatim>\<open>switch\<close> runs into its default, and \<^verbatim>\<open>open\<close> throws
  whatever the device is.
\<close>

theorem term_open_settings:
  assumes "term_open S port baudrate cs par st (fd0, k0) = (Inr (), (fd, k))" and "speed_only S"
  shows "0 \<le> fd \<and> st = S_1 \<and> (\<exists>opts k1. t_setattr S fd opts k1 = (0, k) \<and> line_set cs par opts)"
proof -
  obtain f k1 where o: "t_open S port k0 = (f, k1)" by fastforce
  then have "\<not> f < 0" "configure S baudrate cs par st (f, k1) = (Inr (), (fd, k))"
    using assms(1) by (auto simp: term_open_def sq_def bnd_def gets_def t_throw_def split: if_splits)
  with configure_Inr [OF this(2) assms(2)] show ?thesis by blast
qed

theorem term_open_settings_witness:
  "\<exists>opts. t_setattr (demo_term 9) 5 opts () = (0, ()) \<and> line_set CS_7 P_EVEN opts"
proof -
  have "term_open (demo_term 9) ''tty'' 9600 CS_7 P_EVEN S_1 (-1, ()) = (Inr (), (5, ()))"
    by (simp add: term_open_def configure_def term_options_def set_options_def need_device_def close_unless_def prog_defs
        t_call_def stop_bits_def demo_term_def)
  moreover have "speed_only (demo_term 9)" by (auto simp: speed_only_def demo_term_def)
  ultimately show ?thesis using term_open_settings [of "demo_term 9"] by fastforce
qed

end
