(* ===== verification/Two_Lock_Queue.thy ===== *)
theory Two_Lock_Queue
  imports Errors Labelled_Steps "HOL-Library.Sublist"
begin

text \<open>
  The two-lock queue (\<^verbatim>\<open>include/tasks/tools/queue.h\<close>) with its spin locks
  (\<^verbatim>\<open>include/tasks/tools/spinlock.h\<close>), on an explicit heap of nodes.

  \<^verbatim>\<open>m_first\<close> is only used under the pop lock, \<^verbatim>\<open>m_last\<close> only under the push lock; the \<^verbatim>\<open>next\<close>
  field of a node is the one thing both sides touch. A thread in \<^verbatim>\<open>push\<close> takes these steps: it makes
  the node, takes the lock, stores the node in the last node's \<^verbatim>\<open>next\<close>, and advances \<^verbatim>\<open>m_last\<close> as it
  leaves the lock. A thread in \<^verbatim>\<open>pop\<close> takes its lock, looks whether there is a next node, reads it again
  to take its value as it leaves the lock, and deletes the old first node after that. \<open>q_pushed\<close> and \<open>q_popped\<close> record the values
  in the order they were linked and taken.
\<close>

section \<open>State\<close>

type_synonym addr = nat

record 'a node =
  nval :: 'a
  nnext :: "addr option"

text \<open>The holder of the push lock: none, one that has yet to link its node, one that has.\<close>

datatype pusher = No_pusher | Linking addr | Linked addr

text \<open>The holder of the pop lock: none, one that has yet to look for a node, one that has seen one.\<close>

datatype popper = No_popper | Looking | Taking

record 'a queue =
  q_heap :: "addr \<rightharpoonup> 'a node"
  q_first :: addr
  q_last :: addr
  q_push_lock :: bool
  q_pusher :: pusher
  q_pop_lock :: bool
  q_popper :: popper
  q_fresh :: addr              \<comment> \<open>the next address an allocation returns\<close>
  q_made :: "addr list"        \<comment> \<open>nodes of threads that wait for the push lock\<close>
  q_old :: "addr list"         \<comment> \<open>nodes that threads in \<^verbatim>\<open>pop\<close> are about to delete\<close>
  q_pushed :: "'a list"
  q_popped :: "'a list"

text \<open>The constructor: one node with a default value, which is first and last.\<close>

definition queue_new :: "'a \<Rightarrow> 'a queue" where
  "queue_new dflt = \<lparr>q_heap = [0 \<mapsto> \<lparr>nval = dflt, nnext = None\<rparr>], q_first = 0, q_last = 0, q_push_lock = False,
     q_pusher = No_pusher, q_pop_lock = False, q_popper = No_popper, q_fresh = 1, q_made = [], q_old = [], q_pushed = [], q_popped = []\<rparr>"

section \<open>Operations\<close>

text \<open>
  \<^verbatim>\<open>spinlock::lock\<close> exchanges the flag with true until it gets false: the round that ends it, if there
  is one now.
\<close>

definition spin_exchange :: "bool \<Rightarrow> bool \<times> bool" where
  "spin_exchange l = (l, True)"

definition spin_unlock :: "bool \<Rightarrow> bool" where
  "spin_unlock l = False"

definition node_of :: "'a queue \<Rightarrow> addr \<Rightarrow> 'a node result" where
  "node_of q a = (case q_heap q a of None \<Rightarrow> Inl Memory | Some n \<Rightarrow> Inr n)"

definition push_new :: "'a \<Rightarrow> 'a queue \<Rightarrow> 'a queue" where
  "push_new v q = q\<lparr>q_heap := (q_heap q)(q_fresh q \<mapsto> \<lparr>nval = v, nnext = None\<rparr>), q_fresh := q_fresh q + 1,
     q_made := q_made q @ [q_fresh q]\<rparr>"

definition push_lock :: "addr \<Rightarrow> 'a queue \<Rightarrow> 'a queue option" where
  "push_lock n q =
     (case spin_exchange (q_push_lock q) of
        (held, l) \<Rightarrow> if held then None
          else Some (q\<lparr>q_push_lock := l, q_pusher := Linking n, q_made := remove1 n (q_made q)\<rparr>))"

definition push_link :: "addr \<Rightarrow> 'a queue \<Rightarrow> 'a queue result" where
  "push_link n q =
     rbind (node_of q (q_last q)) (\<lambda>l.
     rbind (node_of q n) (\<lambda>x.
       Inr (q\<lparr>q_heap := (q_heap q)(q_last q \<mapsto> l\<lparr>nnext := Some n\<rparr>), q_pusher := Linked n,
              q_pushed := q_pushed q @ [nval x]\<rparr>)))"

definition push_leave :: "addr \<Rightarrow> 'a queue \<Rightarrow> 'a queue" where
  "push_leave n q = q\<lparr>q_last := n, q_push_lock := spin_unlock (q_push_lock q), q_pusher := No_pusher\<rparr>"

definition pop_lock :: "'a queue \<Rightarrow> 'a queue option" where
  "pop_lock q =
     (case spin_exchange (q_pop_lock q) of
        (held, l) \<Rightarrow> if held then None else Some (q\<lparr>q_pop_lock := l, q_popper := Looking\<rparr>))"

text \<open>The test of \<^verbatim>\<open>pop\<close>; if there is no next node it leaves the lock and returns false.\<close>

definition pop_look :: "'a queue \<Rightarrow> (bool \<times> 'a queue) result" where
  "pop_look q =
     rbind (node_of q (q_first q)) (\<lambda>f.
       case nnext f of
         None \<Rightarrow> Inr (False, q\<lparr>q_pop_lock := spin_unlock (q_pop_lock q), q_popper := No_popper\<rparr>)
       | Some _ \<Rightarrow> Inr (True, q\<lparr>q_popper := Taking\<rparr>))"

definition pop_take :: "'a queue \<Rightarrow> ('a \<times> 'a queue) result" where
  "pop_take q =
     rbind (node_of q (q_first q)) (\<lambda>f.
       case nnext f of
         None \<Rightarrow> Inl Memory
       | Some n \<Rightarrow>
           rbind (node_of q n) (\<lambda>x.
             Inr (nval x, q\<lparr>q_first := n, q_old := q_old q @ [q_first q], q_popped := q_popped q @ [nval x],
                q_pop_lock := spin_unlock (q_pop_lock q), q_popper := No_popper\<rparr>)))"

definition pop_delete :: "addr \<Rightarrow> 'a queue \<Rightarrow> 'a queue result" where
  "pop_delete a q =
     rbind (node_of q a) (\<lambda>_. Inr (q\<lparr>q_heap := (q_heap q)(a := None), q_old := remove1 a (q_old q)\<rparr>))"

section \<open>Steps\<close>

datatype 'a qlabel = New 'a | Lock addr | Link | Leave | Pop | Look | Take | Delete addr

text \<open>A step that cannot be taken is \<^verbatim>\<open>None\<close>, one that touches memory that is not there an error.\<close>

fun qtry :: "'a qlabel \<Rightarrow> 'a queue \<Rightarrow> 'a queue result option" where
  "qtry (New v) q = Some (Inr (push_new v q))"
| "qtry (Lock n) q = (if n \<in> set (q_made q) then map_option Inr (push_lock n q) else None)"
| "qtry Link q = (case q_pusher q of Linking n \<Rightarrow> Some (push_link n q) | _ \<Rightarrow> None)"
| "qtry Leave q = (case q_pusher q of Linked n \<Rightarrow> Some (Inr (push_leave n q)) | _ \<Rightarrow> None)"
| "qtry Pop q = map_option Inr (pop_lock q)"
| "qtry Look q = (if q_popper q = Looking then Some (map_sum id snd (pop_look q)) else None)"
| "qtry Take q = (if q_popper q = Taking then Some (map_sum id snd (pop_take q)) else None)"
| "qtry (Delete a) q = (if a \<in> set (q_old q) then Some (pop_delete a q) else None)"

definition qdo :: "'a qlabel \<Rightarrow> 'a queue \<Rightarrow> 'a queue option" where
  "qdo l q = (case qtry l q of Some (Inr q') \<Rightarrow> Some q' | _ \<Rightarrow> None)"

definition q_reach :: "'a queue \<Rightarrow> bool" where
  "q_reach q \<longleftrightarrow> (\<exists>dflt. lsteps qdo (queue_new dflt) q)"

section \<open>The invariant\<close>

primrec chain :: "(addr \<rightharpoonup> 'a node) \<Rightarrow> addr \<Rightarrow> addr list \<Rightarrow> bool" where
  "chain h a [] \<longleftrightarrow> (\<exists>v. h a = Some \<lparr>nval = v, nnext = None\<rparr>)"
| "chain h a (b # bs) \<longleftrightarrow> (\<exists>v. h a = Some \<lparr>nval = v, nnext = Some b\<rparr>) \<and> chain h b bs"

definition vals :: "(addr \<rightharpoonup> 'a node) \<Rightarrow> addr list \<Rightarrow> 'a list" where
  "vals h as = map (\<lambda>a. nval (the (h a))) as"

text \<open>A node that is not linked yet.\<close>

definition single :: "(addr \<rightharpoonup> 'a node) \<Rightarrow> addr \<Rightarrow> bool" where
  "single h a \<longleftrightarrow> (\<exists>v. h a = Some \<lparr>nval = v, nnext = None\<rparr>)"

text \<open>A pusher fits the lock, the last pointer and the end of the chain; a popper its lock and whether there is a node.\<close>

fun pusher_ok :: "pusher \<Rightarrow> bool \<Rightarrow> addr \<Rightarrow> addr \<Rightarrow> bool" where
  "pusher_ok No_pusher l a e \<longleftrightarrow> \<not> l \<and> a = e"
| "pusher_ok (Linking n) l a e \<longleftrightarrow> l \<and> a = e"
| "pusher_ok (Linked n) l a e \<longleftrightarrow> l \<and> n = e"

fun popper_ok :: "popper \<Rightarrow> bool \<Rightarrow> bool \<Rightarrow> bool" where
  "popper_ok No_popper l b \<longleftrightarrow> \<not> l"
| "popper_ok Looking l b \<longleftrightarrow> l"
| "popper_ok Taking l b \<longleftrightarrow> l \<and> b"

lemma pusher_ok_free [simp]: "pusher_ok p False a e \<longleftrightarrow> p = No_pusher \<and> a = e"
  by (cases p) auto

lemma popper_ok_more: "popper_ok p l b \<Longrightarrow> popper_ok p l True"
  by (cases p) auto

lemma popper_ok_free [simp]: "popper_ok p False b \<longleftrightarrow> p = No_popper"
  by (cases p) auto

fun waiting :: "pusher \<Rightarrow> addr list" where
  "waiting (Linking n) = [n]"
| "waiting _ = []"

definition q_inv_at :: "'a queue \<Rightarrow> addr list \<Rightarrow> bool" where
  "q_inv_at q as \<longleftrightarrow>
     chain (q_heap q) (q_first q) as \<and>
     distinct (q_first q # as @ waiting (q_pusher q) @ q_made q @ q_old q) \<and>
     (\<forall>a \<in> set (waiting (q_pusher q) @ q_made q). single (q_heap q) a) \<and>
     (\<forall>a \<in> set (q_old q). q_heap q a \<noteq> None) \<and>
     (\<forall>a. q_heap q a \<noteq> None \<longrightarrow> a < q_fresh q) \<and>
     pusher_ok (q_pusher q) (q_push_lock q) (q_last q) (last (q_first q # as)) \<and>
     popper_ok (q_popper q) (q_pop_lock q) (as \<noteq> []) \<and> q_pushed q = q_popped q @ vals (q_heap q) as"

definition q_inv :: "'a queue \<Rightarrow> bool" where
  "q_inv q \<longleftrightarrow> (\<exists>as. q_inv_at q as)"

lemma chain_upd [simp]: "b \<notin> set (a # as) \<Longrightarrow> chain (h(b := x)) a as = chain h a as"
  by (induction as arbitrary: a) auto

lemma chain_dom: "chain h a as \<Longrightarrow> b \<in> set (a # as) \<Longrightarrow> h b \<noteq> None"
  by (induction as arbitrary: a) auto

lemma vals_upd [simp]: "b \<notin> set as \<Longrightarrow> vals (h(b := x)) as = vals h as"
  by (auto simp: vals_def)

text \<open>Linking a node behind the last one.\<close>

lemma chain_link:
  "chain h a as \<Longrightarrow> distinct (a # as) \<Longrightarrow> single h n \<Longrightarrow> n \<notin> set (a # as) \<Longrightarrow> h (last (a # as)) = Some l \<Longrightarrow>
   chain (h(last (a # as) \<mapsto> l\<lparr>nnext := Some n\<rparr>)) a (as @ [n])"
proof (induction as arbitrary: a)
  case (Cons b bs)
  have "last (b # bs) \<noteq> a" using Cons.prems(2) last_in_set [of "b # bs"] by fastforce
  with Cons show ?case by auto
qed (auto simp: single_def)

lemma vals_link:
  "h a = Some l \<Longrightarrow> vals (h(a \<mapsto> l\<lparr>nnext := x\<rparr>)) as = vals h as"
  by (auto simp: vals_def)

text \<open>The steps one by one: none fails, and each keeps the invariant.\<close>

lemma new_inv: "q_inv_at q as \<Longrightarrow> q_inv_at (push_new v q) as"
proof -
  assume q: "q_inv_at q as"
  have f: "q_heap q a \<noteq> None \<Longrightarrow> a \<noteq> q_fresh q" for a using q by (auto simp: q_inv_at_def)
  have d: "a \<noteq> q_fresh q" if "a \<in> set (q_first q # as @ waiting (q_pusher q) @ q_made q @ q_old q)" for a
    using that q chain_dom [of "q_heap q" "q_first q" as a] by (intro f) (auto simp: q_inv_at_def single_def)
  then have "q_fresh q \<notin> set (q_first q # as)" by auto
  moreover have "q_fresh q \<notin> set (q_first q # as @ waiting (q_pusher q) @ q_made q @ q_old q)" using d by blast
  ultimately show ?thesis
    using q by (auto simp: q_inv_at_def push_new_def single_def less_Suc_eq)
qed

lemma lock_inv: "q_inv_at q as \<Longrightarrow> n \<in> set (q_made q) \<Longrightarrow> push_lock n q = Some q' \<Longrightarrow> q_inv_at q' as"
  by (auto simp: q_inv_at_def push_lock_def spin_exchange_def split: if_splits dest: in_set_remove1)

lemma link_inv:
  assumes q: "q_inv_at q as" and n: "q_pusher q = Linking n"
  shows "\<exists>q'. push_link n q = Inr q' \<and> q_inv_at q' (as @ [n])"
proof -
  let ?h = "q_heap q" and ?f = "q_first q"
  have c: "chain ?h ?f as" "single ?h n" "q_last q = last (?f # as)" "n \<notin> set (?f # as)" "distinct (?f # as)"
    using q n by (auto simp: q_inv_at_def)
  obtain l where l: "?h (last (?f # as)) = Some l"
    using chain_dom [OF c(1) last_in_set [of "?f # as"]] by blast
  obtain v where v: "?h n = Some \<lparr>nval = v, nnext = None\<rparr>" using c(2) by (auto simp: single_def)
  let ?h' = "?h(last (?f # as) \<mapsto> l\<lparr>nnext := Some n\<rparr>)"
  have nl: "n \<noteq> last (?f # as)" using c(4) last_in_set [of "?f # as"] by (metis list.discI)
  have "chain ?h' ?f (as @ [n])" by (rule chain_link [OF c(1,5,2,4) l])
  moreover have "vals ?h' (as @ [n]) = vals ?h as @ [v]"
    using l v nl by (simp add: vals_link) (simp add: vals_def)
  moreover have "push_link n q = Inr (q\<lparr>q_heap := ?h', q_pusher := Linked n, q_pushed := q_pushed q @ [v]\<rparr>)"
    using l v c(3) by (simp add: push_link_def node_of_def)
  moreover have "single ?h' a" if "a \<in> set (q_made q)" for a
  proof -
    have "a \<notin> set (?f # as)" using that q by (auto simp: q_inv_at_def)
    then have "a \<noteq> last (?f # as)" using last_in_set [of "?f # as"] by (metis list.discI)
    with that q show ?thesis by (auto simp: q_inv_at_def single_def)
  qed
  moreover have "a < q_fresh q" if "?h' a \<noteq> None" for a
    using that q l by (auto simp: q_inv_at_def split: if_splits)
  ultimately show ?thesis using q n by (auto simp: q_inv_at_def intro: popper_ok_more)
qed

lemma leave_inv: "q_inv_at q as \<Longrightarrow> q_pusher q = Linked n \<Longrightarrow> q_inv_at (push_leave n q) as"
  by (auto simp: q_inv_at_def push_leave_def spin_unlock_def)

lemma pop_inv: "q_inv_at q as \<Longrightarrow> pop_lock q = Some q' \<Longrightarrow> q_inv_at q' as"
  by (auto simp: q_inv_at_def pop_lock_def spin_exchange_def split: if_splits)

lemma look_inv:
  assumes q: "q_inv_at q as" and l: "q_popper q = Looking"
  shows "\<exists>q'. pop_look q = Inr (as \<noteq> [], q') \<and> q_inv_at q' as"
proof -
  let ?q = "if as = [] then q\<lparr>q_pop_lock := False, q_popper := No_popper\<rparr> else q\<lparr>q_popper := Taking\<rparr>"
  have "chain (q_heap q) (q_first q) as" using q by (simp add: q_inv_at_def)
  then have "pop_look q = Inr (as \<noteq> [], ?q)"
    by (cases as) (auto simp: pop_look_def node_of_def spin_unlock_def)
  moreover have "q_inv_at ?q as" using q l by (auto simp: q_inv_at_def)
  ultimately show ?thesis by blast
qed

lemma take_inv:
  assumes q: "q_inv_at q as" and t: "q_popper q = Taking"
  shows "\<exists>v a as' q'. as = a # as' \<and> pop_take q = Inr (v, q') \<and> vals (q_heap q) as = v # vals (q_heap q) as' \<and>
    q_popped q' = q_popped q @ [v] \<and> q_inv_at q' as'"
proof -
  obtain a as' where as: "as = a # as'" using q t by (cases as) (auto simp: q_inv_at_def)
  have c: "chain (q_heap q) (q_first q) (a # as')" using q as by (simp add: q_inv_at_def)
  then obtain v where f: "q_heap q (q_first q) = Some \<lparr>nval = v, nnext = Some a\<rparr>" by auto
  obtain x where x: "q_heap q a = Some x" using chain_dom [OF c, of a] by auto
  let ?q = "q\<lparr>q_first := a, q_old := q_old q @ [q_first q], q_popped := q_popped q @ [nval x],
    q_pop_lock := False, q_popper := No_popper\<rparr>"
  have "pop_take q = Inr (nval x, ?q)" using f x by (simp add: pop_take_def node_of_def spin_unlock_def)
  moreover have "vals (q_heap q) as = nval x # vals (q_heap q) as'" using x as by (simp add: vals_def)
  moreover have "q_inv_at ?q as'"
    using q c f x as t by (auto simp: q_inv_at_def vals_def split: if_splits)
  ultimately show ?thesis using as by auto
qed

lemma delete_inv:
  assumes q: "q_inv_at q as" and a: "a \<in> set (q_old q)"
  shows "\<exists>q'. pop_delete a q = Inr q' \<and> q_inv_at q' as"
proof -
  obtain x where x: "q_heap q a = Some x" using q a by (auto simp: q_inv_at_def)
  let ?q = "q\<lparr>q_heap := (q_heap q)(a := None), q_old := remove1 a (q_old q)\<rparr>"
  have "a \<notin> set (q_first q # as)" "a \<notin> set (waiting (q_pusher q) @ q_made q)" "distinct (q_old q)"
    using q a by (auto simp: q_inv_at_def)
  then have "q_inv_at ?q as" using q by (auto simp: q_inv_at_def single_def dest: in_set_remove1)
  with x show ?thesis by (auto simp: pop_delete_def node_of_def)
qed

lemma qtry_ok:
  assumes "q_inv q" "qtry l q = Some r"
  shows "\<exists>q'. r = Inr q' \<and> q_inv q'"
proof -
  obtain as where q: "q_inv_at q as" using assms(1) by (auto simp: q_inv_def)
  show ?thesis
  proof (cases l)
    case (New v)
    with assms(2) new_inv [OF q] show ?thesis by (auto simp: q_inv_def)
  next
    case (Lock n)
    with assms(2) lock_inv [OF q] show ?thesis by (auto simp: q_inv_def split: if_splits)
  next
    case Link
    with assms(2) link_inv [OF q] show ?thesis by (fastforce simp: q_inv_def split: pusher.splits)
  next
    case Leave
    with assms(2) leave_inv [OF q] show ?thesis by (auto simp: q_inv_def split: pusher.splits)
  next
    case Pop
    with assms(2) pop_inv [OF q] show ?thesis by (auto simp: q_inv_def)
  next
    case Look
    with assms(2) look_inv [OF q] show ?thesis by (fastforce simp: q_inv_def split: if_splits)
  next
    case Take
    with assms(2) take_inv [OF q] show ?thesis by (fastforce simp: q_inv_def split: if_splits)
  next
    case (Delete a)
    with assms(2) delete_inv [OF q] show ?thesis by (fastforce simp: q_inv_def split: if_splits)
  qed
qed

interpretation ql: labelled_invariant qdo q_inv
  by unfold_locales (auto simp: qdo_def split: option.splits sum.splits dest: qtry_ok)

lemma q_reach_inv: "q_reach q \<Longrightarrow> q_inv q"
proof -
  have "q_inv_at (queue_new dflt) []" for dflt :: 'a
    by (simp add: q_inv_at_def queue_new_def vals_def)
  then have "q_inv (queue_new dflt)" for dflt :: 'a by (auto simp: q_inv_def)
  then show "q_reach q \<Longrightarrow> q_inv q" by (auto simp: q_reach_def intro: ql.steps_inv)
qed

section \<open>The destructor\<close>

text \<open>The loop of the destructor, which follows \<^verbatim>\<open>next\<close> to its end; the fuel bounds the rounds.\<close>

fun delete_from :: "nat \<Rightarrow> addr option \<Rightarrow> (addr \<rightharpoonup> 'a node) \<Rightarrow> (addr \<rightharpoonup> 'a node) result option" where
  "delete_from fuel None h = Some (Inr h)"
| "delete_from 0 (Some a) h = None"
| "delete_from (Suc fuel) (Some a) h =
     (case h a of None \<Rightarrow> Some (Inl Memory) | Some n \<Rightarrow> delete_from fuel (nnext n) (h(a := None)))"

lemma delete_from_chain:
  "chain h a as \<Longrightarrow> distinct (a # as) \<Longrightarrow> length as < fuel \<Longrightarrow>
   delete_from fuel (Some a) h = Some (Inr (\<lambda>b. if b \<in> set (a # as) then None else h b))"
proof (induction as arbitrary: a h fuel)
  case Nil
  then obtain n where "fuel = Suc n" by (cases fuel) auto
  with Nil show ?case by (auto simp: fun_eq_iff)
next
  case (Cons b bs)
  then obtain n where n: "fuel = Suc n" by (cases fuel) auto
  from Cons.prems obtain v where a: "h a = Some \<lparr>nval = v, nnext = Some b\<rparr>" by auto
  have "delete_from n (Some b) (h(a := None)) = Some (Inr (\<lambda>c. if c \<in> set (b # bs) then None else (h(a := None)) c))"
  proof (rule Cons.IH)
    show "chain (h(a := None)) b bs" using Cons.prems by simp
  qed (use Cons.prems n in auto)
  with n a show ?case by (auto simp: fun_eq_iff)
qed

section \<open>Properties\<close>

text \<open>
  C20: the queue is first in, first out under every interleaving of threads: the values taken so far are
  a prefix of the values linked so far, in the same order; the test of \<^verbatim>\<open>pop\<close> sees a next node exactly
  when a linked value has not been taken (and otherwise \<^verbatim>\<open>pop\<close> returns false); and once it has seen one,
  \<^verbatim>\<open>pop\<close> returns the oldest value that has not been taken.
\<close>

theorem queue_is_fifo:
  assumes "q_reach q"
  shows "\<exists>rest. q_pushed q = q_popped q @ rest \<and>
    (q_popper q = Looking \<longrightarrow> (\<exists>q'. pop_look q = Inr (rest \<noteq> [], q') \<and> q_popped q' = q_popped q)) \<and>
    (q_popper q = Taking \<longrightarrow> (\<exists>q'. rest \<noteq> [] \<and> pop_take q = Inr (hd rest, q') \<and> q_popped q' = q_popped q @ [hd rest]))"
proof -
  obtain as where q: "q_inv_at q as" using q_reach_inv [OF assms] by (auto simp: q_inv_def)
  have look: "pop_look q = Inr (b, q') \<Longrightarrow> q_popped q' = q_popped q" for b q'
    by (auto simp: pop_look_def rbind_def split: option.splits sum.splits)
  have "q_pushed q = q_popped q @ vals (q_heap q) as" using q by (simp add: q_inv_at_def)
  moreover have "\<exists>q'. pop_look q = Inr (vals (q_heap q) as \<noteq> [], q') \<and> q_popped q' = q_popped q"
    if "q_popper q = Looking"
    using look_inv [OF q that] look by (auto simp: vals_def)
  moreover have "\<exists>q'. vals (q_heap q) as \<noteq> [] \<and> pop_take q = Inr (hd (vals (q_heap q) as), q') \<and>
      q_popped q' = q_popped q @ [hd (vals (q_heap q) as)]" if "q_popper q = Taking"
    using take_inv [OF q that] by auto
  ultimately show ?thesis by blast
qed

definition run_queue :: "nat qlabel list \<Rightarrow> nat queue" where
  "run_queue ls = the (lrun qdo ls (queue_new 0))"

lemma run_queue_reach: "lrun qdo ls (queue_new 0) \<noteq> None \<Longrightarrow> q_reach (run_queue ls)"
  unfolding q_reach_def run_queue_def by (rule exI, rule lsteps_the_lrun)

definition demo_queue :: "nat queue" where
  "demo_queue = run_queue [Pop, New 7, New 8, Lock 2, Link, Look, Take, Leave, Pop, Lock 1, Link, Look]"

theorem queue_is_fifo_witness:
  "q_popped demo_queue = [8] \<and> (\<exists>q'. pop_take demo_queue = Inr (7, q'))"
proof -
  have "lrun qdo [Pop, New 7, New 8, Lock 2, Link, Look, Take, Leave, Pop, Lock 1, Link, Look]
    (queue_new (0 :: nat)) \<noteq> None" by code_simp
  then have r: "q_reach demo_queue" unfolding demo_queue_def by (rule run_queue_reach)
  have p: "q_pushed demo_queue = [8, 7]" "q_popped demo_queue = [8]" "q_popper demo_queue = Taking" by code_simp+
  then show ?thesis using queue_is_fifo [OF r] by auto
qed

text \<open>
  C37: no thread in the queue touches memory that has been freed: a step that can be taken succeeds, in
  every reachable state. In particular the node that \<^verbatim>\<open>pop\<close> deletes may still be the one \<^verbatim>\<open>m_last\<close>
  points to, between the two stores of \<^verbatim>\<open>push\<close>, but it is not followed then.
\<close>

theorem queue_is_memory_safe:
  assumes "q_reach q" "qtry l q = Some r"
  shows "\<exists>q'. r = Inr q'"
  using qtry_ok [OF q_reach_inv [OF assms(1)] assms(2)] by blast

text \<open>The node that is deleted here is the one \<^verbatim>\<open>m_last\<close> points to.\<close>

definition dangling_queue :: "nat queue" where
  "dangling_queue = run_queue [New 7, Lock 1, Link, Pop, Look, Take]"

theorem queue_is_memory_safe_witness:
  "q_last dangling_queue = 0 \<and> (\<exists>q'. qtry (Delete 0) dangling_queue = Some (Inr q'))"
proof -
  have "lrun qdo [New 7, Lock 1, Link, Pop, Look, Take] (queue_new (0 :: nat)) \<noteq> None" by code_simp
  then have r: "q_reach dangling_queue" unfolding dangling_queue_def by (rule run_queue_reach)
  have "0 \<in> set (q_old dangling_queue)" "q_last dangling_queue = 0" by code_simp+
  then show ?thesis using queue_is_memory_safe [OF r, of "Delete 0"] by auto
qed

end
