(* ===== verification/Net_Tasks.thy ===== *)
theory Net_Tasks
  imports Task_Properties Uwsgi_Properties Http_Round_Trip
begin

unbundle bit_operations_syntax

text \<open>
  The tasks that drive the protocol objects: the uwsgi server task (\<^verbatim>\<open>include/tasks/net/uwsgi_task.h\<close>,
  \<^verbatim>\<open>tasks/net/uwsgi_task.cpp\<close>), the HTTP client (\<^verbatim>\<open>include/tasks/net/http_sender.h\<close>) and the acceptor
  (\<^verbatim>\<open>include/tasks/net/acceptor.h\<close>).

  Each \<^verbatim>\<open>handle_event\<close> works on the objects of the task, its socket and the kernel; what it asks of the
  task system is the list of \<open>h_action\<close>s that \<open>perform_all\<close> carries out on the worker. A tasks exception
  is caught, recorded in the task and ends it; every other failure (an assertion, a bad access) goes
  through. \<^verbatim>\<open>None\<close> is a call that does not return.
\<close>

section \<open>Events\<close>

lemma ev_masks [simp]:
  "EV_READ AND EV_READ = EV_READ" "EV_READ AND EV_WRITE = 0" "EV_WRITE AND EV_WRITE = EV_WRITE"
  "EV_READ \<noteq> 0" "EV_WRITE \<noteq> 0" "EV_READ \<noteq> EV_WRITE"
  by (simp_all add: EV_READ_def EV_WRITE_def)

type_synonym outcome = "(h_action list \<times> bool) result"

text \<open>The \<^verbatim>\<open>catch\<close> clause of the handlers, after the actions that were performed before the throw.\<close>

fun caught :: "h_action list \<Rightarrow> failure \<Rightarrow> outcome" where
  "caught acts (Thrown x) = Inr (acts @ [Set_exception x], False)"
| "caught acts e = Inl e"

text \<open>
  A task's handler called for one event after the other, as the worker does while the handler returns
  true: the actions of all calls and the last result.
\<close>

fun handle_events :: "(int \<Rightarrow> 's \<Rightarrow> (outcome \<times> 's) option) \<Rightarrow> int list \<Rightarrow> 's \<Rightarrow> (outcome \<times> 's) option" where
  "handle_events f [] st = Some (Inr ([], True), st)"
| "handle_events f (ev # evs) st =
     (case f ev st of
        Some (Inr (acts, True), st) \<Rightarrow>
          map_option (\<lambda>(r, st). (rbind r (\<lambda>(more, cont). Inr (acts @ more, cont)), st)) (handle_events f evs st)
      | r \<Rightarrow> r)"

section \<open>The uwsgi task\<close>

record uwsgi_task =
  tm_request :: uwsgi_request
  tm_response :: http_response
  tm_socket :: sock

text \<open>\<open>garbage\<close> is what the uninitialised status code of the response holds.\<close>

definition uwsgi_task_new :: "int \<Rightarrow> sock \<Rightarrow> uwsgi_task" where
  "uwsgi_task_new garbage s = \<lparr>tm_request = uwsgi_request_new, tm_response = http_response_new garbage, tm_socket = s\<rparr>"

definition send_response :: "h_action list" where
  "send_response = [Set_events EV_WRITE, Update_watcher]"

definition finish_request :: "'z uwsgi_task_scheme \<Rightarrow> 'z uwsgi_task_scheme" where
  "finish_request t = t\<lparr>tm_response := response_clear (tm_response t)\<rparr>"

text \<open>The virtual \<^verbatim>\<open>handle_request\<close>: its actions, its result, and the task with the objects it worked on.\<close>

type_synonym 'z request_handler = "'z uwsgi_task_scheme \<Rightarrow> h_action list \<times> bool result \<times> 'z uwsgi_task_scheme"

definition unsupported_packet :: "uwsgi_packet_header \<Rightarrow> tasks_exception" where
  "unsupported_packet p = tasks_exception_msg UWSGI_NOT_IMPL
     (''uwsgi_task: unsupported uwsgi packet: modifier1='' @ to_string (unat (modifier1 p)) @
      '' datasize='' @ to_string (unat (datasize p)) @ '' modifier2='' @ to_string (unat (modifier2 p)))"

definition uwsgi_read_event ::
  "(string \<Rightarrow> string \<Rightarrow> bool) \<Rightarrow> 'k kernel \<Rightarrow> 'z request_handler \<Rightarrow>
   'z uwsgi_task_scheme \<times> 'k \<Rightarrow> (outcome \<times> 'z uwsgi_task_scheme \<times> 'k) option" where
  "uwsgi_read_event iequals K R st =
     (case uwsgi_read_data iequals K (tm_request (fst st), tm_socket (fst st), snd st) of
        None \<Rightarrow> None
      | Some (r, (q, (s, k))) \<Rightarrow>
          let t = (fst st)\<lparr>tm_request := q, tm_socket := s\<rparr> in
          (case r of
             Inl e \<Rightarrow> Some (caught [] e, (t, k))
           | Inr _ \<Rightarrow>
               if is_done q
               then if modifier1 (um_header q) = UWSGI_VARS
                    then (case R t of
                            (acts, Inl e, t) \<Rightarrow> Some (caught acts e, (t, k))
                          | (acts, Inr success, t) \<Rightarrow>
                              Some (Inr (acts, success), (t\<lparr>tm_request := uwsgi_clear (tm_request t)\<rparr>, k)))
                    else Some (Inr ([Set_exception (unsupported_packet (um_header q))], False), (t, k))
               else Some (Inr ([], True), (t, k))))"

definition uwsgi_write_event ::
  "(headers_t \<Rightarrow> headers_t) \<Rightarrow> 'k kernel \<Rightarrow> 'z uwsgi_task_scheme \<times> 'k \<Rightarrow> (outcome \<times> 'z uwsgi_task_scheme \<times> 'k) option" where
  "uwsgi_write_event order K st =
     (case write_data K (response_prepare order) (tm_response (fst st), tm_socket (fst st), snd st) of
        (r, (p, (s, k))) \<Rightarrow>
          let t = (fst st)\<lparr>tm_response := p, tm_socket := s\<rparr> in
          (case r of
             Inl e \<Rightarrow> Some (caught [] e, (t, k))
           | Inr _ \<Rightarrow> if is_done p then Some (Inr ([], False), (finish_request t, k)) else Some (Inr ([], True), (t, k))))"

definition uwsgi_handle_event ::
  "(string \<Rightarrow> string \<Rightarrow> bool) \<Rightarrow> (headers_t \<Rightarrow> headers_t) \<Rightarrow> 'k kernel \<Rightarrow> 'z request_handler \<Rightarrow> int \<Rightarrow>
   'z uwsgi_task_scheme \<times> 'k \<Rightarrow> (outcome \<times> 'z uwsgi_task_scheme \<times> 'k) option" where
  "uwsgi_handle_event iequals order K R revents st =
     (if EV_READ AND revents \<noteq> 0 then uwsgi_read_event iequals K R st
      else if EV_WRITE AND revents \<noteq> 0 then uwsgi_write_event order K st
      else Some (Inr ([], True), st))"

section \<open>The HTTP client\<close>

text \<open>
  \<^verbatim>\<open>m_request\<close> is a \<^verbatim>\<open>shared_ptr<http_base>\<close>: \<open>request_class\<close> holds the virtual methods the sender calls,
  with the instances for an HTTP and for a uwsgi request. The response handler gets the response and may
  change it.
\<close>

record 'z request_class =
  rc_prepare_data_buffer :: "'z http_base_scheme \<Rightarrow> 'z http_base_scheme result"
  rc_clear :: "'z http_base_scheme \<Rightarrow> 'z http_base_scheme"
  rc_host :: "'z http_base_scheme \<Rightarrow> string"
  rc_path :: "'z http_base_scheme \<Rightarrow> string"
  rc_port :: "'z http_base_scheme \<Rightarrow> int"

definition NO_VAL :: string where
  "NO_VAL = []"

definition http_class :: "(headers_t \<Rightarrow> headers_t) \<Rightarrow> unit http_request_ext request_class" where
  "http_class order = \<lparr>rc_prepare_data_buffer = request_prepare order, rc_clear = request_clear,
     rc_host = rm_host, rc_path = (\<lambda>_. NO_VAL), rc_port = rm_port\<rparr>"

definition uwsgi_class ::
  "(string \<Rightarrow> string \<Rightarrow> bool) \<Rightarrow> (headers_t \<Rightarrow> headers_t) \<Rightarrow> unit uwsgi_request_ext request_class" where
  "uwsgi_class iequals order = \<lparr>rc_prepare_data_buffer = uwsgi_prepare iequals order, rc_clear = uwsgi_clear,
     rc_host = um_host, rc_path = um_path, rc_port = um_port\<rparr>"

record 'z http_sender =
  nm_request :: "'z http_base_scheme"
  nm_response :: http_response
  nm_socket :: sock
  nm_remote :: string

type_synonym response_handler = "http_response \<Rightarrow> bool result \<times> http_response"

definition sender_read_event ::
  "(string \<Rightarrow> string \<Rightarrow> bool) \<Rightarrow> 'k kernel \<Rightarrow> response_handler \<Rightarrow>
   'z http_sender \<times> 'k \<Rightarrow> (outcome \<times> 'z http_sender \<times> 'k) option" where
  "sender_read_event iequals K R st =
     (case response_read_data iequals K (nm_response (fst st), nm_socket (fst st), snd st) of
        None \<Rightarrow> None
      | Some (r, (p, (s, k))) \<Rightarrow>
          let t = (fst st)\<lparr>nm_response := p, nm_socket := s\<rparr> in
          (case r of
             Inl e \<Rightarrow> Some (caught [] e, (t, k))
           | Inr _ \<Rightarrow>
               if is_done p
               then (case R p of
                       (Inl e, p) \<Rightarrow> Some (caught [] e, (t\<lparr>nm_response := p\<rparr>, k))
                     | (Inr success, p) \<Rightarrow> Some (Inr ([], success), (t\<lparr>nm_response := response_clear p\<rparr>, k)))
               else Some (Inr ([], True), (t, k))))"

definition sender_write_event ::
  "'z request_class \<Rightarrow> 'k kernel \<Rightarrow> 'z http_sender \<times> 'k \<Rightarrow> (outcome \<times> 'z http_sender \<times> 'k) option" where
  "sender_write_event C K st =
     (case write_data K (rc_prepare_data_buffer C) (nm_request (fst st), nm_socket (fst st), snd st) of
        (r, (q, (s, k))) \<Rightarrow>
          let t = (fst st)\<lparr>nm_request := q, nm_socket := s\<rparr> in
          (case r of
             Inl e \<Rightarrow> Some (caught [] e, (t, k))
           | Inr _ \<Rightarrow>
               if is_done q
               then Some (Inr ([Set_events EV_READ, Update_watcher], True), (t\<lparr>nm_request := rc_clear C q\<rparr>, k))
               else Some (Inr ([], True), (t, k))))"

definition sender_handle_event ::
  "(string \<Rightarrow> string \<Rightarrow> bool) \<Rightarrow> 'z request_class \<Rightarrow> 'k kernel \<Rightarrow> response_handler \<Rightarrow> int \<Rightarrow>
   'z http_sender \<times> 'k \<Rightarrow> (outcome \<times> 'z http_sender \<times> 'k) option" where
  "sender_handle_event iequals C K R events st =
     (if EV_READ AND events \<noteq> 0 then sender_read_event iequals K R st
      else if EV_WRITE AND events \<noteq> 0 then sender_write_event C K st
      else Some (Inr ([], True), st))"

text \<open>
  \<^verbatim>\<open>send\<close>, in the state of the task system, the sender and the kernel. The watcher reads the descriptor
  from the socket (\<^verbatim>\<open>iob().fd()\<close>), so every change of the socket shows in \<open>em_fd\<close> of the task.
\<close>

type_synonym ('z, 'k, 'a) send_prog = "(sys \<times> 'z http_sender \<times> 'k, 'a) prog"

definition connected :: "'z http_sender \<Rightarrow> bool" where
  "connected n \<longleftrightarrow> sm_fd (nm_socket n) \<noteq> -1"

definition on_sys :: "(sys \<Rightarrow> sys result) \<Rightarrow> ('z, 'k, unit) send_prog" where
  "on_sys f = (\<lambda>(s, n, k). case f s of Inl e \<Rightarrow> (Inl e, (s, n, k)) | Inr s' \<Rightarrow> (Inr (), (s', n, k)))"

definition on_socket :: "tid \<Rightarrow> ('k, unit) sock_prog \<Rightarrow> ('z, 'k, unit) send_prog" where
  "on_socket t m = (\<lambda>(s, n, k). case m (nm_socket n, k) of
     (r, (sk, k)) \<Rightarrow>
       (case upd_task t (\<lambda>e. e\<lparr>em_fd := sm_fd sk\<rparr>) s of
          Inl e \<Rightarrow> (Inl e, (s, n\<lparr>nm_socket := sk\<rparr>, k))
        | Inr s \<Rightarrow> (r, (s, n\<lparr>nm_socket := sk\<rparr>, k))))"

definition the_worker :: "wid option \<Rightarrow> tid \<Rightarrow> ('z, 'k, wid) send_prog" where
  "the_worker cur t = (\<lambda>(s, n, k). case get_worker_by_task cur t s of
     Inl e \<Rightarrow> (Inl e, (s, n, k)) | Inr (w, s) \<Rightarrow> (Inr w, (s, n, k)))"

definition remote_of :: "'z request_class \<Rightarrow> 'z http_base_scheme \<Rightarrow> (string \<times> bool) result" where
  "remote_of C request =
     (if rc_host C request \<noteq> NO_VAL then Inr (rc_host C request, True)
      else if rc_path C request \<noteq> NO_VAL then Inr (rc_path C request, False)
      else Inl (Thrown (tasks_exception_msg HTTP_SENDER_INVALID_REMOTE ''No host or path given'')))"

definition sender_send ::
  "handler \<Rightarrow> 'z request_class \<Rightarrow> 'k kernel \<Rightarrow> wid option \<Rightarrow> tid \<Rightarrow> 'z http_base_scheme \<Rightarrow> ('z, 'k, unit) send_prog" where
  "sender_send H C K cur t request =
     sq (modify (\<lambda>(s, n, k). (s, n\<lparr>nm_request := request\<rparr>, k)))
       (case remote_of C request of
          Inl e \<Rightarrow> fails e
        | Inr (remote, tcp) \<Rightarrow>
            bnd (the_worker cur t) (\<lambda>w.
            bnd (gets (\<lambda>(s, n, k). connected n \<and> nm_remote n \<noteq> remote)) (\<lambda>other.
            sq (if other then sq (on_sys (stop_watcher cur w t)) (on_socket t (io_close K)) else ret ())
           (sq (modify (\<lambda>(s, n, k). (s, n\<lparr>nm_remote := remote\<rparr>, k)))
           (sq (on_sys (set_events EV_WRITE t))
           (bnd (gets (\<lambda>(s, n, k). connected n)) (\<lambda>c.
              if c then on_sys (update_watcher cur w t)
              else sq (on_socket t (if tcp then connect_host K remote (rc_port C request) else connect_path K remote))
                      (on_sys (add_event_task H cur t)))))))))"

section \<open>The acceptor\<close>

text \<open>The constructors listen at once; an exception there, and one of \<^verbatim>\<open>accept\<close>, is an assertion.\<close>

definition or_die :: "('s, 'a) prog \<Rightarrow> ('s, 'a) prog" where
  "or_die m st = (case m st of (Inl (Thrown _), st') \<Rightarrow> (Inl Assertion, st') | r \<Rightarrow> r)"

definition acceptor_port :: "'k kernel \<Rightarrow> int \<Rightarrow> ('k, unit) sock_prog" where
  "acceptor_port K port = or_die (listen_port K port [] 128)"

definition acceptor_path :: "'k kernel \<Rightarrow> string \<Rightarrow> ('k, unit) sock_prog" where
  "acceptor_path K path = or_die (listen_path K path 128)"

text \<open>\<open>events\<close> is the mask the constructor of the client class \<^verbatim>\<open>T\<close> passes on.\<close>

definition acceptor_handle_event :: "'k kernel \<Rightarrow> int \<Rightarrow> ('k, h_action list \<times> bool) sock_prog" where
  "acceptor_handle_event K events =
     bnd (or_die (accept K)) (\<lambda>client. ret ([Spawn (sm_fd client) events], True))"

text \<open>\<^verbatim>\<open>net_io_task::~net_io_task\<close>.\<close>

definition net_io_task_delete :: "bool \<Rightarrow> 'k kernel \<Rightarrow> ('k, unit) sock_prog" where
  "net_io_task_delete auto_close K = (if auto_close then io_close K else ret ())"

definition acceptor_delete :: "'k kernel \<Rightarrow> ('k, unit) sock_prog" where
  "acceptor_delete K = sq (shutdown K) (net_io_task_delete True K)"

section \<open>Sequences of events\<close>

lemma handle_events_inv:
  assumes "\<And>ev st acts st'. I st \<Longrightarrow> f ev st = Some (Inr (acts, True), st') \<Longrightarrow> I st'"
  shows "I st \<Longrightarrow> handle_events f evs st = Some (Inr (acts, True), st') \<Longrightarrow> I st'"
proof (induction evs arbitrary: st acts)
  case (Cons ev evs)
  from Cons.prems(2) obtain a b st1 where f: "f ev st = Some (Inr (a, True), st1)"
    "handle_events f evs st1 = Some (Inr (b, True), st')"
    by (auto split: option.splits prod.splits sum.splits bool.splits)
  from Cons.IH [OF assms [OF Cons.prems(1) f(1)] f(2)] show ?case .
qed simp

lemma handle_events_first:
  "f ev st = Some (Inr (acts, True), st1) \<Longrightarrow> handle_events f evs st1 = Some (Inr (acts2, cont), st2) \<Longrightarrow>
   handle_events f (ev # evs) st = Some (Inr (acts @ acts2, cont), st2)"
  by simp

text \<open>Writable events until the response is out end the task.\<close>

lemma uwsgi_writes_until:
  "write_until K (response_prepare order) n (tm_response t, tm_socket t, k) = Some (Inr (), (p, s, k')) \<Longrightarrow>
   handle_events (uwsgi_handle_event iequals order K R) (replicate n EV_WRITE) (t, k) =
     Some (Inr ([], False), (finish_request (t\<lparr>tm_response := p, tm_socket := s\<rparr>), k'))"
proof (induction n arbitrary: t k)
  case (Suc n)
  obtain r p1 s1 k1 where w: "write_data K (response_prepare order) (tm_response t, tm_socket t, k) = (r, p1, s1, k1)"
    by (metis prod_cases4)
  with Suc.prems obtain u where r: "r = Inr u" by (cases r) auto
  show ?case
  proof (cases "is_done p1")
    case True
    with Suc.prems w r show ?thesis by (simp add: uwsgi_handle_event_def uwsgi_write_event_def)
  next
    case False
    let ?t = "t\<lparr>tm_response := p1, tm_socket := s1\<rparr>"
    have "write_until K (response_prepare order) n (tm_response ?t, tm_socket ?t, k1) = Some (Inr (), (p, s, k'))"
      using Suc.prems w r False by simp
    from Suc.IH [OF this] w r False show ?thesis
      by (simp add: uwsgi_handle_event_def uwsgi_write_event_def)
  qed
qed simp

section \<open>Unsupported packets\<close>

text \<open>Once a request is past its variables, it is a packet of variables.\<close>

definition vars_inv :: "uwsgi_request \<Rightarrow> bool" where
  "vars_inv q \<longleftrightarrow> (hm_state q \<in> {READ_CONTENT, DONE} \<longrightarrow> modifier1 (um_header q) = UWSGI_VARS)"

lemma parse_var_keeps:
  "parse_var iequals pos h = Inr (pos', h') \<Longrightarrow> um_header h' = um_header h \<and> hm_state h' = hm_state h"
  by (auto simp: parse_var_def Let_def set_header_def split: if_splits)

lemma parse_vars_keeps:
  assumes "parse_vars_from iequals pos h = Some r"
  shows "\<forall>h'. r = Inr h' \<longrightarrow> um_header h' = um_header h \<and> hm_state h' = hm_state h"
proof (rule parse_vars_from.raw_induct [OF _ assms, where
      P = "\<lambda>iequals pos h r. \<forall>h'. r = Inr h' \<longrightarrow> um_header h' = um_header h \<and> hm_state h' = hm_state h"])
  fix f iequals pos h r
  assume ih: "\<And>iequals pos h r. f iequals pos h = Some r \<Longrightarrow>
      \<forall>h'. r = Inr h' \<longrightarrow> um_header h' = um_header h \<and> hm_state h' = hm_state h"
    and s: "(if pos < m_size (hm_data_buffer h)
      then case parse_var iequals pos h of Inl e \<Rightarrow> Some (Inl e) | Inr (pos', h') \<Rightarrow> f iequals pos' h' else Some (Inr h)) = Some r"
  show "\<forall>h'. r = Inr h' \<longrightarrow> um_header h' = um_header h \<and> hm_state h' = hm_state h"
  proof (cases "parse_var iequals pos h")
    case (Inr x)
    obtain pos1 h1 where x: "x = (pos1, h1)" by fastforce
    with s Inr ih [of iequals pos1 h1 r] parse_var_keeps [of iequals pos h pos1 h1] show ?thesis
      by (auto split: if_splits)
  qed (use s in \<open>auto split: if_splits\<close>)
qed

lemma start_read_vars: "start_read K (q, sk) = (r, (q', sk')) \<Longrightarrow> vars_inv q \<Longrightarrow> vars_inv q'"
  by (auto simp: start_read_def read_header_def prog_defs http_prog_defs vars_inv_def split: sum.splits prod.splits if_splits)

lemma read_into_keeps:
  assumes "read_into K buf put (q, sk) = (r, (q', sk'))"
    and "\<And>b h. um_header (put b h) = um_header h" "\<And>b h. hm_state (put b h) = hm_state h"
  shows "um_header q' = um_header q \<and> hm_state q' = hm_state q"
  using assms by (auto simp: read_into_def prog_defs http_prog_defs split: sum.splits prod.splits if_splits)

lemma read_vars_inv:
  assumes "read_vars iequals K (q, sk) = Some (r, (q', sk'))" "vars_inv q"
  shows "vars_inv q'"
proof -
  let ?put = "\<lambda>b h :: uwsgi_request. h\<lparr>hm_data_buffer := b\<rparr>"
  obtain r1 q1 sk1 where i: "read_into K hm_data_buffer ?put (q, sk) = (r1, (q1, sk1))" by (metis prod_cases3)
  have q1: "vars_inv q1" using read_into_keeps [OF i] assms(2) by (simp add: vars_inv_def)
  show ?thesis
  proof (cases "\<exists>u. r1 = Inr u \<and> to_write (hm_data_buffer q1) = 0 \<and> modifier1 (um_header q1) = UWSGI_VARS")
    case True
    then obtain p where p: "parse_vars iequals q1 = Some p" and r1: "r1 = Inr ()" using assms(1) i
      by (auto simp: read_vars_def split: option.splits)
    show ?thesis
    proof (cases p)
      case (Inl e)
      with True p r1 assms(1) i q1 show ?thesis by (simp add: read_vars_def)
    next
      case (Inr h)
      have "modifier1 (um_header h) = UWSGI_VARS"
        using parse_vars_keeps [OF p [unfolded parse_vars_def]] Inr True by simp
      with True p Inr r1 assms(1) i show ?thesis
        by (auto simp: read_vars_def Let_def try_http_def vars_inv_def split: if_splits sum.splits)
    qed
  next
    case False
    with assms(1) i q1 show ?thesis by (auto simp: read_vars_def split: sum.splits)
  qed
qed

lemma read_content_inv: "read_content K (q, sk) = (r, (q', sk')) \<Longrightarrow> vars_inv q \<Longrightarrow> hm_state q = READ_CONTENT \<Longrightarrow> vars_inv q'"
proof -
  assume c: "read_content K (q, sk) = (r, (q', sk'))" and q: "vars_inv q" "hm_state q = READ_CONTENT"
  let ?put = "\<lambda>b h :: uwsgi_request. h\<lparr>hm_content_buffer := b\<rparr>"
  obtain r1 q1 sk1 where i: "read_into K hm_content_buffer ?put (q, sk) = (r1, (q1, sk1))" by (metis prod_cases3)
  have "um_header q1 = um_header q" using read_into_keeps [OF i] by simp
  with c i q show ?thesis
    by (auto simp: read_content_def sq_def bnd_def on_http_def modify_def vars_inv_def split: sum.splits if_splits)
qed

lemma uwsgi_read_data_inv:
  assumes "uwsgi_read_data iequals K (q, sk) = Some (r, (q', sk'))" "vars_inv q"
  shows "vars_inv q'"
proof -
  obtain r1 q1 sk1 where s: "start_read K (q, sk) = (r1, (q1, sk1))" by (metis prod_cases3)
  have q1: "vars_inv q1" by (rule start_read_vars [OF s assms(2)])
  show ?thesis
  proof (cases r1)
    case (Inl e)
    with s assms(1) q1 show ?thesis by (simp add: uwsgi_read_data_def)
  next
    case (Inr u)
    with s assms(1) obtain r2 q2 sk2 where
      v: "(if hm_state q1 = READ_DATA then read_vars iequals K (q1, sk1) else Some (Inr (), (q1, sk1))) = Some (r2, (q2, sk2))"
      by (auto simp: uwsgi_read_data_def split: option.splits)
    have q2: "vars_inv q2" using v q1 read_vars_inv [of iequals K q1 sk1 r2 q2 sk2] by (auto split: if_splits)
    from s assms(1) Inr v have "(case r2 of Inl e \<Rightarrow> (Inl e, (q2, sk2))
        | Inr _ \<Rightarrow> if hm_state q2 = READ_CONTENT then read_content K (q2, sk2) else (Inr (), (q2, sk2))) = (r, (q', sk'))"
      by (auto simp: uwsgi_read_data_def split: sum.splits)
    then show ?thesis using q2 read_content_inv [of K q2 sk2 r q' sk'] by (auto split: sum.splits if_splits)
  qed
qed

lemma uwsgi_event_inv:
  assumes "uwsgi_handle_event iequals order K R ev (t, k) = Some (Inr (acts, True), (t', k'))" "vars_inv (tm_request t)"
  shows "vars_inv (tm_request t')"
proof -
  have c: "caught a e \<noteq> Inr (acts, True)" for a e by (cases e) auto
  have clear: "vars_inv (uwsgi_clear q)" for q by (simp add: vars_inv_def uwsgi_clear_def http_clear_def)
  have r: "vars_inv (tm_request t')" if ev: "uwsgi_read_event iequals K R (t, k) = Some (Inr (acts, True), (t', k'))"
  proof -
    from ev obtain u q s1 k1 where d: "uwsgi_read_data iequals K (tm_request t, tm_socket t, k) = Some (u, (q, (s1, k1)))"
      by (auto simp: uwsgi_read_event_def split: option.splits)
    from uwsgi_read_data_inv [OF d assms(2)] ev d c clear show ?thesis
      by (auto simp: uwsgi_read_event_def Let_def split: sum.splits if_splits prod.splits)
  qed
  have w: "tm_request t' = tm_request t" if "uwsgi_write_event order K (t, k) = Some (Inr (acts, True), (t', k'))"
    using that c by (auto simp: uwsgi_write_event_def Let_def finish_request_def split: sum.splits if_splits prod.splits)
  show ?thesis using assms r w by (auto simp: uwsgi_handle_event_def split: if_splits)
qed

text \<open>
  A task that gets a packet another object made, calls its \<^verbatim>\<open>handle_request\<close> and sends what that has
  filled into the response. \<open>t\<close> is any task, of a class derived from \<^verbatim>\<open>uwsgi_task\<close>, with a new request.
\<close>

lemma uwsgi_serves:
  assumes h: "hm_data_buffer h = buffer_new" "append_ok (hm_content_buffer h)" "gptr (hm_content_buffer h) = 0"
      "modifier1 (um_header h) = UWSGI_VARS"
    and body: "body = unread (hm_content_buffer h)" "length body < 2 ^ 31"
      "body = [] \<longrightarrow> map_of (hm_headers h) ''CONTENT_LENGTH'' = None"
    and kvs: "kvs = order (hm_headers (wire_vars iequals h))" "set kvs = set (hm_headers (wire_vars iequals h))"
      "distinct (map fst kvs)" "\<forall>kv \<in> set kvs. var_ok kv" "length (concat (map encode_var kvs)) \<le> 65529"
    and p: "uwsgi_prepare iequals order h = Inr h1" "d = unread (hm_data_buffer h1)"
    and rx: "sm_type s = TCP" "k_recvfrom K (sm_fd s) 4 False k = ((4, take 4 d, a1), k1)"
      "k_recvfrom K (sm_fd s) (length d - 4) False k1 = ((int (length d - 4), drop 4 d, a2), k2)"
      "if body = [] then k3 = k2 else k_recvfrom K (sm_fd s) (length body) False k2 = ((int (length body), body, a3), k3)"
    and t: "tm_request t = uwsgi_request_new" "tm_socket t = s"
    and R: "\<And>q. hm_headers q = kvs \<Longrightarrow> unread (hm_content_buffer q) = body \<Longrightarrow> buffer_ok (hm_content_buffer q) \<Longrightarrow>
        \<exists>t'. R (t\<lparr>tm_request := q\<rparr>) = (acts, Inr True, t') \<and> tm_socket t' = s \<and> response_fit (tm_response t') \<and>
          hm_state (tm_response t') = READY \<and>
          response_head order' (tm_response t') @ unread (hm_content_buffer (tm_response t')) = wire"
    and tx: "sends_in_order K sent" "always_accepts K"
  shows "\<exists>n t' k'. handle_events (uwsgi_handle_event iequals order' K R) (EV_READ # replicate n EV_WRITE) (t, k) =
        Some (Inr (acts, False), (t', k')) \<and>
      sent k' (sm_fd s) = sent k3 (sm_fd s) @ wire"
proof -
  obtain q where q: "uwsgi_read_data iequals K (uwsgi_request_new, (s, k)) = Some (Inr (), (q, (s, k3)))"
    "is_done q" "hm_headers q = kvs" "unread (hm_content_buffer q) = body" "um_header q = um_header h1"
    "buffer_ok (hm_content_buffer q)"
    using uwsgi_arrives [OF h body kvs p rx] by blast
  have m: "modifier1 (um_header q) = UWSGI_VARS"
    using q(2) uwsgi_read_data_inv [OF q(1)]
    by (auto simp: vars_inv_def is_done_def uwsgi_request_new_def uwsgi_with_def)
  obtain t' where R': "R (t\<lparr>tm_request := q\<rparr>) = (acts, Inr True, t')" "tm_socket t' = s" "response_fit (tm_response t')"
    "hm_state (tm_response t') = READY" "response_head order' (tm_response t') @ unread (hm_content_buffer (tm_response t')) = wire"
    using R [OF q(3,4,6)] by blast
  let ?t1 = "t'\<lparr>tm_request := uwsgi_clear (tm_request t')\<rparr>"
  have "t\<lparr>tm_request := q, tm_socket := s\<rparr> = t\<lparr>tm_request := q\<rparr>" using t(2) by (cases t) simp
  then have "R (t\<lparr>tm_request := q, tm_socket := s\<rparr>) = (acts, Inr True, t')" using R'(1) by (simp only:)
  then have "uwsgi_handle_event iequals order' K R EV_READ (t, k) = Some (Inr (acts, True), (?t1, k3))"
    using q(1,2) m t by (simp add: uwsgi_handle_event_def uwsgi_read_event_def)
  moreover obtain n p' k' where "write_until K (response_prepare order') n (tm_response ?t1, tm_socket ?t1, k3) =
      Some (Inr (), (p', s, k'))"
    "sent k' (sm_fd s) = sent k3 (sm_fd s) @ wire"
    using rp.goes_out_until_done [OF R'(3,4) tx rx(1), of order' k3] R'(2,5) by auto
  ultimately show ?thesis
    using handle_events_first [OF _ uwsgi_writes_until [of K order' n ?t1 k3 p' s k' iequals R]] by fastforce
qed

section \<open>Properties\<close>


text \<open>A server that sends the body back, over a kernel that delivers the packet and takes every answer.\<close>

definition echo_answer :: "headers_t \<Rightarrow> bytes \<Rightarrow> http_response" where
  "echo_answer kvs body = (http_response_new 0)\<lparr>pm_status := ''200 OK'',
     hm_content_buffer := \<lparr>m_buffer = body, m_size = length body, gptr = 0, pptr = length body\<rparr>\<rparr>"

definition echo_request :: "unit request_handler" where
  "echo_request t = (send_response, Inr True, t\<lparr>tm_response :=
     echo_answer (hm_headers (tm_request t)) (unread (hm_content_buffer (tm_request t)))\<rparr>)"


text \<open>
  The branch of \<^verbatim>\<open>handle_event\<close> that reports a packet other than a block of variables as
  \<^verbatim>\<open>UWSGI_NOT_IMPL\<close> is dead: in every state a task can come to, a request that is done has
  \<^verbatim>\<open>modifier1\<close> = \<^verbatim>\<open>UWSGI_VARS\<close>, whatever the peer sends. A packet of another kind never gets done.
\<close>

theorem unsupported_branch_dead:
  assumes "handle_events (uwsgi_handle_event iequals order K R) evs (uwsgi_task_new g s, k) = Some (Inr (acts, True), (t, k1))"
    and "uwsgi_read_data iequals K (tm_request t, tm_socket t, k1) = Some (r, (q, sk))" "is_done q"
  shows "modifier1 (um_header q) = UWSGI_VARS"
proof -
  have "vars_inv (tm_request (fst (t, k1)))"
  proof (rule handle_events_inv [where I = "\<lambda>st. vars_inv (tm_request (fst st))", OF _ _ assms(1)])
    show "vars_inv (tm_request (fst st'))" if "vars_inv (tm_request (fst st))"
      "uwsgi_handle_event iequals order K R ev st = Some (Inr (acts, True), st')" for ev st acts st'
      using that uwsgi_event_inv [of iequals order K R ev "fst st" "snd st" acts "fst st'" "snd st'"] by simp
    show "vars_inv (tm_request (fst (uwsgi_task_new g s, k)))"
      by (simp add: vars_inv_def uwsgi_task_new_def uwsgi_request_new_def uwsgi_with_def)
  qed
  then have "vars_inv q" using uwsgi_read_data_inv [OF assms(2)] by simp
  then show ?thesis using assms(3) by (simp add: vars_inv_def is_done_def)
qed

theorem unsupported_branch_dead_witness:
  "\<exists>h1 q k'. uwsgi_prepare ascii_iequals id posted_request = Inr h1 \<and>
     uwsgi_read_data ascii_iequals eager_kernel (uwsgi_request_new, (socket_of_fd 3,
       script_start [] [99, 99, 99] (unread (hm_data_buffer h1) @ ''xyz''))) = Some (Inr (), (q, (socket_of_fd 3, k'))) \<and>
     is_done q \<and> modifier1 (um_header q) = UWSGI_VARS"
proof -
  obtain h1 where h1: "uwsgi_prepare ascii_iequals id posted_request = Inr h1" "length (unread (hm_data_buffer h1)) = 33"
    using posted_packet by blast
  define d where "d = unread (hm_data_buffer h1)"
  let ?k = "script_start [] [99, 99, 99] (d @ ''xyz'')" and ?s = "socket_of_fd 3"
  obtain k3 q where q: "uwsgi_read_data ascii_iequals eager_kernel (uwsgi_request_new, (?s, ?k)) = Some (Inr (), (q, (?s, k3)))"
    "is_done q"
    using posted_arrives [of eager_kernel h1 d] h1 by (auto simp: d_def eager_kernel_def script_kernel_def)
  have "handle_events (uwsgi_handle_event ascii_iequals id eager_kernel echo_request) [] (uwsgi_task_new 0 ?s, ?k) =
      Some (Inr ([], True), (uwsgi_task_new 0 ?s, ?k))" by simp
  from unsupported_branch_dead [OF this] q have "modifier1 (um_header q) = UWSGI_VARS" by (simp add: uwsgi_task_new_def)
  with h1(1) q show ?thesis by (auto simp: d_def)
qed

text \<open>
  When a sender has written its request, the same event makes it wait for the response: the request
  is cleared, and the worker that handled the event sets the task's watcher to readable events and arms
  it again. A worker that has kept the lead does so at once; one that has passed it on queues the change
  of the mask and the start of the watcher, in this order, and wakes the loop.
\<close>

theorem sender_turns_to_reading:
  assumes "sender_handle_event iequals C K R EV_WRITE (n, k) = Some (Inr out, (n', k'))"
    and "write_data K (rc_prepare_data_buffer C) (nm_request n, nm_socket n, k) = (Inr (), (q, sk))" "is_done q"
    and "H t EV_WRITE (add_log (Handled w t EV_WRITE) s) = out"
    and "tasks s t = Some e" "em_kind e = Io_task" "em_watcher_initialized e" "em_events e = EV_WRITE" "\<not> error e"
      "em_active e = None"
    and "w < length (workers s)" "m_run_mode s = SINGLE_LOOP" "wm_leader (workers s ! w) \<longrightarrow> wm_loop (workers s ! w) = Some l"
  shows "nm_request n' = rc_clear C q \<and>
    (\<exists>s' e'. exec_event_handler H (Some w) w \<lparr>ev_task = t, ev_revents = EV_WRITE\<rparr> s = Inr s' \<and>
      tasks s' t = Some e' \<and> em_events e' = EV_READ \<and>
      (if wm_leader (workers s ! w)
       then em_watch e' = (em_fd e, EV_READ) \<and> em_active e' = Some l \<and> workers s' = workers s
       else em_active e' = None \<and> wm_tfq (workers s' ! w) = wm_tfq (workers s ! w) @ [Update_io t, Start_io t] \<and>
         wm_async_sent (workers s' ! w)))"
proof -
  have out: "out = ([Set_events EV_READ, Update_watcher], True)" "nm_request n' = rc_clear C q"
    using assms(1-3) by (auto simp: sender_handle_event_def sender_write_event_def split: prod.splits)
  note defs = exec_event_handler_def exec_handler_def handle_event_def task_of_def upd_task_def add_log_def set_events_def
    update_watcher_def in_ctx_def exec_in_worker_ctx_def worker_of_def start_watcher_def is_timer_def start_armed_def
    io_start_watcher_def ev_start_def error_def reset_error_def ev_masks(6) [symmetric]
  show ?thesis
  proof (cases "wm_leader (workers s ! w)")
    case True
    with assms(4-13) out show ?thesis by (auto simp: defs)
  next
    case False
    with assms(4-13) out show ?thesis by (auto simp: defs async_call_def loop_ptr_def upd_worker_def)
  qed
qed

definition demo_sender :: "unit http_request_ext http_sender" where
  "demo_sender = \<lparr>nm_request = (http_request_new ''h'' ''/'' 80)\<lparr>hm_state := WRITE_DATA,
       hm_data_buffer := \<lparr>m_buffer = ''x'', m_size = 1, gptr = 0, pptr = 1\<rparr>\<rparr>, nm_response = http_response_new 0,
     nm_socket = socket_of_fd 3, nm_remote = ''h''\<rparr>"

text \<open>A sender with one byte of its request left; the leader and, as the second case, a worker that is no longer one.\<close>

theorem sender_turns_to_reading_witness:
  "\<exists>s1 e1 s2. exec_event_handler (\<lambda>_ _ _. ([Set_events EV_READ, Update_watcher], True)) (Some 0) 0
       \<lparr>ev_task = 0, ev_revents = EV_WRITE\<rparr> (one_leader (net_io_task_new 3 EV_WRITE)) = Inr s1 \<and>
     tasks s1 0 = Some e1 \<and> em_watch e1 = (3, EV_READ) \<and> em_active e1 = Some 0 \<and>
     exec_event_handler (\<lambda>_ _ _. ([Set_events EV_READ, Update_watcher], True)) (Some 0) 0
       \<lparr>ev_task = 0, ev_revents = EV_WRITE\<rparr>
       ((one_leader (net_io_task_new 3 EV_WRITE))\<lparr>workers := [worker_new 0 None]\<rparr>) = Inr s2 \<and>
     wm_tfq (workers s2 ! 0) = [Update_io 0, Start_io 0]"
proof -
  let ?H = "\<lambda>_ _ _. ([Set_events EV_READ, Update_watcher], True)" and ?C = "http_class id"
  let ?k = "script_start [] [] []" and ?e = "net_io_task_new 3 EV_WRITE"
  let ?st = "(nm_request demo_sender, nm_socket demo_sender, ?k)"
  obtain q sk where w: "write_data eager_kernel (rc_prepare_data_buffer ?C) ?st = (Inr (), (q, sk))" "is_done q"
    by (simp add: write_data_def fill_data_def send_data_def send_content_def write_headers_def prog_defs http_prog_defs
        sock_defs socket_write_def udp_def demo_sender_def socket_of_fd_def http_request_new_def init_default_headers_def
        buffer_new_def readable_def fetch_def to_read_def move_ptr_read_def eager_kernel_def is_done_def)
  then obtain n' k' where n: "sender_handle_event ascii_iequals ?C eager_kernel (Pair (Inr True)) EV_WRITE (demo_sender, ?k) =
      Some (Inr ([Set_events EV_READ, Update_watcher], True), (n', k'))"
    by (cases sk) (simp add: sender_handle_event_def sender_write_event_def)
  note sels = one_leader_def dispatcher_new_def worker_new_def net_io_task_new_def io_task_base_new_def event_task_new_def
    error_def tasks_exception_default_def
  note t = sender_turns_to_reading [OF n w, where H = ?H and t = 0 and w = 0 and l = 0 and e = ?e, OF refl]
  have "\<exists>s1 e1. exec_event_handler ?H (Some 0) 0 \<lparr>ev_task = 0, ev_revents = EV_WRITE\<rparr> (one_leader ?e) = Inr s1 \<and>
      tasks s1 0 = Some e1 \<and> em_watch e1 = (3, EV_READ) \<and> em_active e1 = Some 0"
    using t [of "one_leader ?e"] by (simp add: sels) blast
  moreover have "\<exists>s2. exec_event_handler ?H (Some 0) 0 \<lparr>ev_task = 0, ev_revents = EV_WRITE\<rparr>
      ((one_leader ?e)\<lparr>workers := [worker_new 0 None]\<rparr>) = Inr s2 \<and> wm_tfq (workers s2 ! 0) = [Update_io 0, Start_io 0]"
    using t [of "(one_leader ?e)\<lparr>workers := [worker_new 0 None]\<rparr>"] by (simp add: sels) blast
  ultimately show ?thesis by blast
qed

end
