(* ===== verification/Disk_Io.thy ===== *)
theory Disk_Io
  imports Net_Tasks
begin

text \<open>
  Disk tasks (\<^verbatim>\<open>include/tasks/disk_io_task.h\<close>, \<^verbatim>\<open>tasks/disk_io_task.cpp\<close>): one blocking read or write on a
  descriptor, whose completion is posted to the last promoted worker as an event of the task. The
  operation runs in a \<^verbatim>\<open>std::async\<close> thread whose temporary future is destroyed at the end of the
  statement, which waits for the thread: \<^verbatim>\<open>op()\<close> returns after everything below has happened.
\<close>

section \<open>The task and its operation\<close>

text \<open>\<^verbatim>\<open>read(2)\<close> and \<^verbatim>\<open>write(2)\<close> are parameters.\<close>

record 'k disk_kernel =
  d_read :: "int \<Rightarrow> nat \<Rightarrow> 'k \<Rightarrow> (int \<times> bytes) \<times> 'k"
  d_write :: "int \<Rightarrow> bytes \<Rightarrow> 'k \<Rightarrow> int \<times> 'k"

record disk_io_task =
  dk_fd :: int
  dk_events :: int
  dk_buf :: "buffer option"  \<comment> \<open>\<^verbatim>\<open>m_buf\<close>, which may be null\<close>
  dk_bytes :: int

definition disk_io_task_new :: "int \<Rightarrow> int \<Rightarrow> buffer option \<Rightarrow> disk_io_task" where
  "disk_io_task_new fd events buf = \<lparr>dk_fd = fd, dk_events = events, dk_buf = buf, dk_bytes = -1\<rparr>"

definition disk_read :: "'k disk_kernel \<Rightarrow> disk_io_task \<Rightarrow> 'k \<Rightarrow> (disk_io_task \<times> 'k) result" where
  "disk_read D d k =
     (case dk_buf d of
        None \<Rightarrow> Inl Memory
      | Some b \<Rightarrow>
          (case d_read D (dk_fd d) (to_size (to_write b)) k of
             ((n, data), k) \<Rightarrow>
               rbind (store (pptr b) data b) (\<lambda>b.
               Inr (d\<lparr>dk_buf := Some (if n > 0 then move_ptr_write (nat n) b else b), dk_bytes := n\<rparr>, k))))"

definition disk_write :: "'k disk_kernel \<Rightarrow> disk_io_task \<Rightarrow> 'k \<Rightarrow> (disk_io_task \<times> 'k) result" where
  "disk_write D d k =
     (case dk_buf d of
        None \<Rightarrow> Inl Memory
      | Some b \<Rightarrow>
          rbind (readable b) (\<lambda>data.
            case d_write D (dk_fd d) data k of (n, k) \<Rightarrow> Inr (d\<lparr>dk_bytes := n\<rparr>, k)))"

definition invalid_event :: "string \<Rightarrow> tasks_exception" where
  "invalid_event get_string = tasks_exception_msg DISKIO_INVALID_EVENT
     (get_string @ '': events has to be either EV_READ or EV_WRITE'')"

text \<open>
  \<^verbatim>\<open>op()\<close> on the task system, the task and the kernel; the result is the value of the future. \<open>name\<close> is
  \<^verbatim>\<open>get_string()\<close>.
\<close>

definition disk_switch ::
  "'k disk_kernel \<Rightarrow> string \<Rightarrow> tid \<Rightarrow> sys \<Rightarrow> disk_io_task \<Rightarrow> 'k \<Rightarrow> (sys \<times> disk_io_task \<times> 'k) result" where
  "disk_switch D name t s d k =
     (if dk_events d = EV_READ then rbind (disk_read D d k) (\<lambda>(d, k). Inr (s, d, k))
      else if dk_events d = EV_WRITE then rbind (disk_write D d k) (\<lambda>(d, k). Inr (s, d, k))
      else rbind (upd_task t (set_exception (invalid_event name)) s) (\<lambda>s. Inr (s, d\<lparr>dk_bytes := -1\<rparr>, k)))"

definition disk_op ::
  "'k disk_kernel \<Rightarrow> string \<Rightarrow> tid \<Rightarrow> sys \<Rightarrow> disk_io_task \<Rightarrow> 'k \<Rightarrow> (int \<times> sys \<times> disk_io_task \<times> 'k) result" where
  "disk_op D name t s d k =
     rbind (disk_switch D name t s d k) (\<lambda>(s, d, k).
     rbind (add_async_event \<lparr>ev_task = t, ev_revents = dk_events d\<rparr> s) (\<lambda>s.
     Inr (dk_bytes d, s, d, k)))"

definition disk_add_task ::
  "'k disk_kernel \<Rightarrow> string \<Rightarrow> tid option \<Rightarrow> sys \<Rightarrow> disk_io_task \<Rightarrow> 'k \<Rightarrow> (int \<times> sys \<times> disk_io_task \<times> 'k) result" where
  "disk_add_task D name t s d k = (case t of None \<Rightarrow> Inl Assertion | Some t \<Rightarrow> disk_op D name t s d k)"

section \<open>Completion\<close>

text \<open>What \<^verbatim>\<open>read(2)\<close> documents: it delivers at most as many bytes as asked for, and none if it fails.\<close>

definition reads_at_most :: "'k disk_kernel \<Rightarrow> bool" where
  "reads_at_most D \<longleftrightarrow> (\<forall>fd n k r data k'. d_read D fd n k = ((r, data), k') \<longrightarrow>
     length data \<le> n \<and> length data = nat r)"

definition valid_events :: "int \<Rightarrow> bool" where
  "valid_events events \<longleftrightarrow> events = EV_READ \<or> events = EV_WRITE"

lemma disk_read_ok:
  assumes "reads_at_most D" "dk_buf d = Some b" "buffer_ok b" "m_size b < 2 ^ 64"
  shows "\<exists>n data k'. d_read D (dk_fd d) (m_size b - pptr b) k = ((n, data), k') \<and> disk_read D d k =
    Inr (d\<lparr>dk_buf := Some (b\<lparr>m_buffer := overwrite (pptr b) data (m_buffer b), pptr := pptr b + length data\<rparr>), dk_bytes := n\<rparr>, k')"
proof -
  have sz: "to_size (to_write b) = m_size b - pptr b"
    using assms(3,4) by (simp add: to_size_def to_write_def buffer_ok_def nat_diff_distrib)
  obtain n data k' where r: "d_read D (dk_fd d) (m_size b - pptr b) k = ((n, data), k')" by (metis prod.collapse)
  then have l: "length data \<le> m_size b - pptr b" "length data = nat n"
    using assms(1) unfolding reads_at_most_def by blast+
  then have "store (pptr b) data b = Inr (b\<lparr>m_buffer := overwrite (pptr b) data (m_buffer b)\<rparr>)"
    using assms(3) by (intro store_ok) (auto simp: buffer_ok_def)
  with r sz l assms(2) show ?thesis by (auto simp: disk_read_def move_ptr_write_def)
qed

text \<open>What the operation leaves in the task and the kernel, for each mask.\<close>

definition disk_outcome :: "'k disk_kernel \<Rightarrow> disk_io_task \<Rightarrow> buffer \<Rightarrow> 'k \<Rightarrow> int \<Rightarrow> disk_io_task \<Rightarrow> 'k \<Rightarrow> bool" where
  "disk_outcome D d b k n d' k' \<longleftrightarrow>
     (if dk_events d = EV_READ
      then \<exists>data. d_read D (dk_fd d) (m_size b - pptr b) k = ((n, data), k') \<and>
        dk_buf d' = Some (b\<lparr>m_buffer := overwrite (pptr b) data (m_buffer b), pptr := pptr b + length data\<rparr>)
      else dk_buf d' = Some b \<and>
        (if dk_events d = EV_WRITE then d_write D (dk_fd d) (unread b) k = (n, k') else n = -1 \<and> k' = k))"

lemma disk_switch_ok:
  assumes "tasks s t = Some e" "dk_buf d = Some b" "buffer_ok b" "m_size b < 2 ^ 64" "reads_at_most D"
  shows "\<exists>n s1 d' k'. disk_switch D name t s d k = Inr (s1, d', k') \<and> dk_bytes d' = n \<and> dk_events d' = dk_events d \<and>
    tasks s1 t = Some (if valid_events (dk_events d) then e else set_exception (invalid_event name) e) \<and>
    workers s1 = workers s \<and> dm_last_worker_id s1 = dm_last_worker_id s \<and> m_run_mode s1 = m_run_mode s \<and>
    disk_outcome D d b k n d' k'"
proof -
  consider "dk_events d = EV_READ" | "dk_events d = EV_WRITE" "dk_events d \<noteq> EV_READ" | "\<not> valid_events (dk_events d)"
    unfolding valid_events_def by blast
  then show ?thesis
  proof cases
    case 1
    with disk_read_ok [OF assms(5,2-4), of k] assms(1) show ?thesis
      by (auto simp: disk_switch_def disk_outcome_def valid_events_def)
  next
    case 2
    obtain n k' where "d_write D (dk_fd d) (unread b) k = (n, k')" by fastforce
    with 2 assms(1,2) readable_ok [OF assms(3)] show ?thesis
      by (auto simp: disk_switch_def disk_outcome_def valid_events_def disk_write_def)
  next
    case 3
    with assms(1,2) show ?thesis
      by (auto simp: disk_switch_def disk_outcome_def valid_events_def upd_task_def task_of_def)
  qed
qed

lemma post_event:
  assumes "dm_last_worker_id s < length (workers s)" "m_run_mode s = SINGLE_LOOP"
  shows "\<exists>s'. add_async_event ev s = Inr s' \<and> tasks s' = tasks s \<and>
    wm_tfq (workers s' ! dm_last_worker_id s) = wm_tfq (workers s ! dm_last_worker_id s) @ [Async_event ev] \<and>
    wm_async_sent (workers s' ! dm_last_worker_id s)"
  using assms by (simp add: add_async_event_def async_call_def last_worker_def worker_of_def loop_ptr_def)

lemma disk_event_deletes:
  assumes "tasks s t = Some e" "em_kind e = Disk_task" "em_auto_delete e"
  shows "\<exists>s'. exec_event_handler H cur w \<lparr>ev_task = t, ev_revents = r\<rparr> s = Inr s' \<and> tasks s' = (tasks s)(t := None) \<and>
    history s' = history s @ [Handled w t r] @
      (if error e then map (error_entry (Some w) (m_exception e)) (em_error_funcs e) else []) @
      map (finish_entry (Some w)) (em_finish_funcs e) @ [Deleted t]"
  using assms
  by (simp add: exec_event_handler_def exec_handler_def handle_event_def task_of_def add_log_def notify_error_def
      task_finish_def remove_event_task_def is_disposable_def delete_task_def history_run_error history_run_finish)

section \<open>Properties\<close>


text \<open>A read of three bytes into a buffer of eight.\<close>

definition demo_disk :: "unit disk_kernel" where
  "demo_disk = \<lparr>d_read = (\<lambda>fd n k. ((int (length (take n ''abc'')), take n ''abc''), k)),
     d_write = (\<lambda>fd data k. (int (length data), k))\<rparr>"


end
