(* ===== verification/Shutdown.thy ===== *)
theory Shutdown
  imports Leader_Properties
begin

text \<open>
  The end of the task system: \<^verbatim>\<open>dispatcher::terminate\<close>, \<^verbatim>\<open>join\<close> and \<^verbatim>\<open>run\<close> (\<^verbatim>\<open>tasks/dispatcher.cpp\<close>,
  \<^verbatim>\<open>include/tasks/dispatcher.h\<close>). The thread that called \<^verbatim>\<open>run\<close> waits for the end, then tells one worker
  after the other to terminate and joins its thread, while the other workers still run.
\<close>

section \<open>Operations\<close>

text \<open>
  The loop at the start of \<^verbatim>\<open>join\<close>: for every round what \<^verbatim>\<open>m_term\<close> was and whether the wait timed out.
  True if it is left.
\<close>

fun join_wait :: "(bool \<times> bool) list \<Rightarrow> bool" where
  "join_wait [] = False"
| "join_wait ((m_term, timeout) # rounds) = (if \<not> m_term \<and> timeout then join_wait rounds else True)"

text \<open>
  Where the joining thread stands in the loop over the workers: about to terminate one, or waiting for
  its thread. The other threads take their steps in between.
\<close>

datatype joiner = Terminating wid | Joining wid

inductive join_step :: "handler \<Rightarrow> joiner \<times> sys \<Rightarrow> joiner \<times> sys \<Rightarrow> bool" for H where
  others: "lf_step H s s' \<Longrightarrow> join_step H (j, s) (j, s')"
| terminate: "worker_terminate w s = Inr s' \<Longrightarrow> join_step H (Terminating w, s) (Joining w, s')"
| joined: "\<lbrakk>w < length (workers s); wm_pc (workers s ! w) = Exited\<rbrakk>
    \<Longrightarrow> join_step H (Joining w, s) (Terminating (w + 1), s)"

inductive join_reach :: "handler \<Rightarrow> mode \<Rightarrow> 8 word \<Rightarrow> joiner \<times> sys \<Rightarrow> bool" for H m n where
  waiting: "lf_reach H m n s \<Longrightarrow> join_reach H m n (Terminating 0, s)"
| moves: "join_reach H m n js \<Longrightarrow> join_step H js js' \<Longrightarrow> join_reach H m n js'"

section \<open>A thread that has gone stays gone\<close>

text \<open>Where the threads stand, and the steps that move at most one of them.\<close>

definition pcs :: "sys \<Rightarrow> pc list" where
  "pcs s = map wm_pc (workers s)"

lemma pcs_ctl: "ctl s' = ctl s \<Longrightarrow> pcs s' = pcs s"
  using ctl_eqD(7,8) [of s' s] by (auto simp: pcs_def core_def list_eq_iff_nth_eq)

lemma pcs_upd [simp]: "(\<And>k. wm_pc (f k) = wm_pc k) \<Longrightarrow> pcs (upd_worker w f s) = pcs s"
proof (rule nth_equalityI)
  fix i
  assume "\<And>k. wm_pc (f k) = wm_pc k" "i < length (pcs (upd_worker w f s))"
  then show "pcs (upd_worker w f s) ! i = pcs s ! i" by (simp add: pcs_def)
qed (simp add: pcs_def)

lemma pcs_keep [simp]:
  "pcs (s\<lparr>dm_workers_busy := b\<rparr>) = pcs s" "pcs (s\<lparr>dm_last_worker_id := i\<rparr>) = pcs s"
  "pcs (s\<lparr>userdata := u\<rparr>) = pcs s" "pcs (s\<lparr>dm_started := True\<rparr>) = pcs s"
  by (simp_all add: pcs_def)

lemma pcs_set_pc: "pcs (set_pc p w s) = (pcs s)[w := p]"
proof (rule nth_equalityI)
  show "length (pcs (set_pc p w s)) = length ((pcs s)[w := p])" by (simp add: pcs_def set_pc_def)
  fix i
  assume "i < length (pcs (set_pc p w s))"
  then show "pcs (set_pc p w s) ! i = (pcs s)[w := p] ! i"
    by (simp add: pcs_def set_pc_def nth_list_update)
qed

lemma pcs_add_event [simp]: "pcs (add_event e w s) = pcs s"
  by (simp add: add_event_def)

lemma pcs_set_event_loop [simp]: "pcs (set_event_loop l w s) = pcs s"
  by (simp add: set_event_loop_def)

lemma pcs_run_func: "run_func f l s = Inr s' \<Longrightarrow> pcs s' = pcs s"
proof (cases "\<exists>e. f = Async_event e")
  case False
  then show "run_func f l s = Inr s' \<Longrightarrow> pcs s' = pcs s" using pcs_ctl [OF ctl_run_func] by blast
qed auto

lemma pcs_run_queued: "run_queued ndebug w fs s = Inr s' \<Longrightarrow> pcs s' = pcs s"
proof (induction fs arbitrary: s)
  case (Cons f fs)
  have "pcs s1 = pcs s" if "exec_in_worker_ctx (Some w) w f s = Inr (d, s1)" for d s1
    using that pcs_ctl [OF ctl_async_call]
    by (auto simp: exec_in_worker_ctx_def dest: pcs_run_func split: if_splits option.splits)
  with Cons show ?case by (auto split: if_splits)
qed simp

lemma pcs_mark_free: "mark_free w s = Inr s' \<Longrightarrow> pcs s' = pcs s"
  by (auto simp: mark_free_def add_free_worker_def split: mode.splits)

lemma pcs_free_worker: "free_worker s = Inr (r, s') \<Longrightarrow> pcs s' = pcs s"
  by (auto simp: free_worker_def split: if_splits option.splits)

lemma pcs_advance:
  assumes "advance H w s = Inr s'"
  shows "\<exists>p. pcs s' = (pcs s)[w := p] \<and> (wm_pc (workers s ! w) = Exited \<longrightarrow> s' = s)"
proof -
  let ?k = "workers s ! w"
  have w: "w < length (workers s)" using assms by (auto simp: advance_def)
  have same: "pcs s = (pcs s)[w := wm_pc ?k]" using w by (metis list_update_id nth_map pcs_def)
  have front: "\<exists>p. pcs s' = (pcs s)[w := p]" if "handle_front H w s = Inr s'"
    using that pcs_ctl [OF ctl_exec_event_handler] same
    by (cases "wm_events_queue ?k") (auto simp: handle_front_def w pcs_set_pc)
  have claim: "\<exists>p. pcs s' = (pcs s)[w := p]" if "promote_claim w s = Inr s'"
    using that by (auto simp: promote_claim_def pcs_set_pc dest!: pcs_free_worker split: mode.splits option.splits) blast
  have pass: "\<exists>p. pcs s' = (pcs s)[w := p]" if "promote_pass w x s = Inr s'" for x
    using that by (auto simp: promote_pass_def pcs_set_pc split: option.splits)
  have set: "\<exists>p. pcs (set_pc q w s) = (pcs s)[w := p]" for q by (auto simp: pcs_set_pc)
  have mark: "\<exists>p. pcs (set_pc q w a) = (pcs s)[w := p]" if "mark_free w s = Inr a" for q a
    using pcs_mark_free [OF that] by (auto simp: pcs_set_pc)
  have "\<exists>p. pcs s' = (pcs s)[w := p]"
    using assms same set mark front claim pass
    by (cases "wm_pc ?k") (auto simp: advance_def w split: if_splits)
  moreover have "wm_pc ?k = Exited \<longrightarrow> s' = s" using assms w by (auto simp: advance_def)
  ultimately show ?thesis by blast
qed

definition gone :: "wid \<Rightarrow> sys \<Rightarrow> bool" where
  "gone w s \<longleftrightarrow> w < length (workers s) \<and> wm_pc (workers s ! w) = Exited"

lemma gone_pcs: "gone w s \<longleftrightarrow> w < length (pcs s) \<and> pcs s ! w = Exited"
  by (auto simp: gone_def pcs_def)

text \<open>A step moves one thread at most, and none that has gone.\<close>

lemma pcs_kept: "pcs s' = pcs s \<Longrightarrow> \<exists>w p. pcs s' = (pcs s)[w := p] \<and> (w < length (pcs s) \<and> pcs s ! w = Exited \<longrightarrow> p = Exited)"
  by (intro exI [of _ "length (pcs s)"] exI [of _ Exited]) (simp add: list_update_beyond)

lemma pcs_step:
  "lf_step H s s' \<Longrightarrow> \<exists>w p. pcs s' = (pcs s)[w := p] \<and> (w < length (pcs s) \<and> pcs s ! w = Exited \<longrightarrow> p = Exited)"
proof (induction rule: lf_step.induct)
  case (thread v s s')
  from pcs_advance [OF thread] obtain p where p: "pcs s' = (pcs s)[v := p]" "wm_pc (workers s ! v) = Exited \<longrightarrow> s' = s" by blast
  show ?case
  proof (cases "v < length (pcs s) \<and> pcs s ! v = Exited")
    case True
    with p(2) have "pcs s' = pcs s" by (auto simp: pcs_def)
    then show ?thesis by (rule pcs_kept)
  qed (use p(1) in blast)
next
  case (fire v s l t e r s')
  then show ?case
    using pcs_ctl [OF ctl_stop_watcher] by (intro pcs_kept) (auto simp: tasks_event_callback_def split: option.splits)
next
  case (async v s l u s')
  then show ?case by (intro pcs_kept) (auto simp: tasks_async_callback_def dest: pcs_run_queued split: option.splits)
next
  case (poll_return v s)
  then show ?case by (intro exI [of _ v] exI [of _ Polled]) (simp add: pcs_set_pc, simp add: pcs_def)
next
  case (start s s')
  then show ?case by (intro pcs_kept) (auto simp: start_promote_def split: mode.splits)
next
  case (add e s t s1 s')
  then show ?case using pcs_ctl [OF ctl_add_task] pcs_ctl [OF ctl_new_task] by (intro pcs_kept) auto
next
  case (post s ev e s')
  then show ?case using pcs_ctl [OF ctl_async_call] by (intro pcs_kept) (auto simp: add_async_event_def)
next
  case (finish s t e s')
  then show ?case using pcs_ctl [OF ctl_finish_response] by (intro pcs_kept) auto
next
  case (terminate v s s')
  then show ?case by (intro pcs_kept) (auto simp: worker_terminate_def Let_def split: if_splits)
next
  case (quit s)
  show ?case by (intro pcs_kept) (simp add: pcs_def dispatcher_terminate_def)
qed

lemma gone_step:
  assumes "lf_step H s s'" "gone w s"
  shows "gone w s'"
proof -
  from pcs_step [OF assms(1)] obtain v p where "pcs s' = (pcs s)[v := p]"
    "v < length (pcs s) \<and> pcs s ! v = Exited \<longrightarrow> p = Exited" by blast
  with assms(2) show ?thesis by (cases "v = w") (auto simp: gone_pcs)
qed

lemma lf_step_length: "lf_step H s s' \<Longrightarrow> length (workers s') = length (workers s)"
  by (drule pcs_step) (metis length_list_update length_map pcs_def)

text \<open>What the joining thread has behind it has gone.\<close>

fun joined_before :: "joiner \<Rightarrow> wid" where
  "joined_before (Terminating w) = w"
| "joined_before (Joining w) = w"

lemma join_step_gone:
  assumes "join_step H js js'" and "\<And>v. v < joined_before (fst js) \<Longrightarrow> gone v (snd js)" and "v < joined_before (fst js')"
  shows "gone v (snd js')"
  using assms(1)
proof (cases rule: join_step.cases)
  case (others s s' j)
  with assms(2,3) gone_step [of H s s' v] show ?thesis by simp
next
  case (terminate w s s')
  with assms(2,3) gone_step [of H s s' v] lf_step.terminate [of w s s' H] show ?thesis by simp
next
  case (joined w s)
  with assms(2,3) show ?thesis by (auto simp: gone_def less_Suc_eq)
qed

lemma join_step_length: "join_step H (j, s) (j', s') \<Longrightarrow> length (workers s') = length (workers s)"
  by (erule join_step.cases) (auto dest: lf_step_length [OF lf_step.terminate] lf_step_length)

lemma join_step_reach: "join_step H (j, s) (j', s') \<Longrightarrow> lf_reach H m n s \<Longrightarrow> lf_reach H m n s'"
  by (erule join_step.cases) (auto intro: lf_reach.step lf_step.terminate)

lemma join_reach_gone: "join_reach H m n js \<Longrightarrow> v < joined_before (fst js) \<Longrightarrow> gone v (snd js)"
proof (induction arbitrary: v rule: join_reach.induct)
  case (moves js js')
  from join_step_gone [OF moves(2,3,4)] show ?case .
qed simp

section \<open>A terminated worker leaves\<close>

fun run_worker :: "handler \<Rightarrow> wid \<Rightarrow> nat \<Rightarrow> sys \<Rightarrow> sys result" where
  "run_worker H w 0 s = Inr s"
| "run_worker H w (Suc n) s = rbind (advance H w s) (run_worker H w n)"

text \<open>How many steps a worker that was told to terminate has left at most.\<close>

definition steps_left :: "worker \<Rightarrow> nat" where
  "steps_left k = (case wm_pc k of Boot \<Rightarrow> 3 | Waiting \<Rightarrow> 2 | Running \<Rightarrow> 1 | Exited \<Rightarrow> 0
     | Handling \<Rightarrow> 2 + length (wm_events_queue k) | Handing x \<Rightarrow> 3 + length (wm_events_queue k)
     | Polled \<Rightarrow> 4 + length (wm_events_queue k) | Polling \<Rightarrow> 5 + length (wm_events_queue k))"

definition leaving :: "wid \<Rightarrow> sys \<Rightarrow> bool" where
  "leaving w s \<longleftrightarrow> lf_inv s \<and> w < length (workers s) \<and> wm_term (workers s ! w) \<and> wm_pc (workers s ! w) \<noteq> Polling"

lemma mark_free_workers: "mark_free w s = Inr s' \<Longrightarrow> workers s' = workers s"
  by (auto simp: mark_free_def add_free_worker_def split: mode.splits)

lemma free_worker_workers: "free_worker s = Inr (r, s') \<Longrightarrow> workers s' = workers s"
  by (auto simp: free_worker_def split: if_splits option.splits)

lemma leaving_step:
  assumes "leaving w s" "advance H w s = Inr s'" "wm_pc (workers s ! w) \<noteq> Exited"
  shows "leaving w s'" "steps_left (workers s' ! w) < steps_left (workers s ! w)"
proof -
  let ?k = "workers s ! w" and ?k' = "workers s' ! w"
  have w: "w < length (workers s)" "wm_term ?k" and inv: "lf_inv s" and np: "wm_pc ?k \<noteq> Polling"
    using assms(1) by (auto simp: leaving_def)
  have inv': "lf_inv s'" by (rule lf_inv_advance [OF inv assms(2)])
  have "length (workers s') = length (workers s)"
    using pcs_advance [OF assms(2)] by (metis length_list_update length_map pcs_def)
  moreover have "wm_term ?k' \<and> wm_pc ?k' \<noteq> Polling \<and> steps_left ?k' < steps_left ?k"
  proof (cases "wm_pc ?k")
    case Polled
    show ?thesis
    proof (cases "wm_events_queue ?k = []")
      case True
      with Polled assms(2) w show ?thesis by (auto simp: advance_def set_pc_def steps_left_def)
    next
      case False
      with Polled assms(2) w have "promote_claim w s = Inr s'" by (simp add: advance_def)
      moreover have "m_run_mode s = SINGLE_LOOP" using inv by (simp add: lf_inv_def)
      ultimately obtain x s1 where f: "free_worker s = Inr (x, s1)" and s': "s' = (case x of None \<Rightarrow> set_pc Handling w s1
          | Some x \<Rightarrow> set_pc (Handing x) w (upd_worker w (\<lambda>k. k\<lparr>wm_leader := False\<rparr>) s1))"
        by (auto simp: promote_claim_def split: option.splits)
      have "workers s1 = workers s" using f by (rule free_worker_workers)
      with s' Polled w show ?thesis by (cases x) (simp_all add: set_pc_def steps_left_def)
    qed
  next
    case (Handing x)
    with assms(2) w have "promote_pass w x s = Inr s'" by (simp add: advance_def)
    then show ?thesis using Handing w
      by (auto simp: promote_pass_def set_pc_def set_event_loop_def steps_left_def split: option.splits)
  next
    case Handling
    show ?thesis
    proof (cases "wm_events_queue ?k")
      case Nil
      with Handling assms(2) w show ?thesis by (auto simp: advance_def handle_front_def set_pc_def steps_left_def)
    next
      case (Cons ev evs)
      let ?s = "upd_worker w (\<lambda>k. k\<lparr>wm_events_count := wm_events_count k + 1\<rparr>) s"
      from Cons Handling assms(2) w obtain s1 where e: "exec_event_handler H (Some w) w ev ?s = Inr s1"
        and s': "s' = upd_worker w (\<lambda>k. k\<lparr>wm_events_queue := tl (wm_events_queue k)\<rparr>) s1"
        by (auto simp: advance_def handle_front_def)
      note c = ctl_exec_event_handler [OF e]
      have "core (workers s1 ! w) = core ?k" "w < length (workers s1)"
        using ctl_eqD(7,8) [OF c] w by (simp_all add: core_def)
      with s' Cons Handling w show ?thesis by (auto simp: core_def steps_left_def)
    qed
  qed (use assms w np in \<open>auto simp: advance_def set_pc_def steps_left_def dest: mark_free_workers split: if_splits\<close>)
  ultimately show "leaving w s'" "steps_left ?k' < steps_left ?k" using inv' w(1) by (auto simp: leaving_def)
qed

lemma leaving_fails:
  assumes "leaving w s" "advance H w s = Inl e"
  shows "\<exists>ev evs. wm_events_queue (workers s ! w) = ev # evs \<and> exec_event_handler H (Some w) w ev
    (upd_worker w (\<lambda>k. k\<lparr>wm_events_count := wm_events_count k + 1\<rparr>) s) = Inl e"
proof -
  have w: "w < length (workers s)" "lf_inv s" using assms(1) by (auto simp: leaving_def)
  from advance_succeeds [OF w(2,1)] assms(2) have h: "wm_pc (workers s ! w) = Handling" "wm_events_queue (workers s ! w) \<noteq> []"
    by (metis Inl_Inr_False)+
  then obtain ev evs where q: "wm_events_queue (workers s ! w) = ev # evs" by (cases "wm_events_queue (workers s ! w)") auto
  with h assms(2) w(1) show ?thesis
    by (cases "exec_event_handler H (Some w) w ev (upd_worker w (\<lambda>k. k\<lparr>wm_events_count := wm_events_count k + 1\<rparr>) s)")
       (auto simp: advance_def handle_front_def worker_of_def)
qed

lemma leaving_exits:
  "leaving w s \<Longrightarrow> \<exists>m s'. m \<le> steps_left (workers s ! w) \<and> run_worker H w m s = Inr s' \<and>
     (gone w s' \<or> (\<exists>ev evs e. wm_events_queue (workers s' ! w) = ev # evs \<and> exec_event_handler H (Some w) w ev
        (upd_worker w (\<lambda>k. k\<lparr>wm_events_count := wm_events_count k + 1\<rparr>) s') = Inl e))"
proof (induction "steps_left (workers s ! w)" arbitrary: s rule: less_induct)
  case less
  show ?case
  proof (cases "wm_pc (workers s ! w) = Exited")
    case True
    with less.prems show ?thesis by (intro exI [of _ 0] exI [of _ s]) (simp add: gone_def leaving_def)
  next
    case False
    show ?thesis
    proof (cases "advance H w s")
      case (Inl e)
      from leaving_fails [OF less.prems this] show ?thesis by (intro exI [of _ 0] exI [of _ s]) auto
    next
      case (Inr s1)
      note st = leaving_step [OF less.prems Inr False]
      from less.hyps [OF st(2,1)] obtain m s' where "m \<le> steps_left (workers s1 ! w)" "run_worker H w m s1 = Inr s'"
        "gone w s' \<or> (\<exists>ev evs e. wm_events_queue (workers s' ! w) = ev # evs \<and> exec_event_handler H (Some w) w ev
          (upd_worker w (\<lambda>k. k\<lparr>wm_events_count := wm_events_count k + 1\<rparr>) s') = Inl e)" by blast
      with st(2) Inr show ?thesis by (intro exI [of _ "Suc m"] exI [of _ s']) auto
    qed
  qed
qed

section \<open>Properties\<close>



text \<open>
  When \<^verbatim>\<open>join\<close> has been through all workers, the threads of all of them have ended, however their
  last steps were interleaved with it.
\<close>

theorem join_leaves_no_thread:
  assumes "join_reach H m n (Terminating (length (workers s)), s)"
  shows "\<forall>w < length (workers s). wm_pc (workers s ! w) = Exited"
  using join_reach_gone [OF assms] by (simp add: gone_def)

lemma join_labels: "\<lbrakk>do_labels H as s = Inr s'; join_reach H m n (j, s)\<rbrakk> \<Longrightarrow> join_reach H m n (j, s')"
proof (induction as arbitrary: s)
  case (Cons a as)
  from Cons.prems(1) obtain s1 where s1: "do_label H a s = Inr s1" "do_labels H as s1 = Inr s'" by auto
  show ?case
    by (rule Cons.IH [OF s1(2) join_reach.moves [OF Cons.prems(2) join_step.others [OF do_label_step [OF s1(1)]]]])
qed simp

lemma case_ok: "(case r of Inl _ \<Rightarrow> False | Inr x \<Rightarrow> P x) \<Longrightarrow> \<exists>x. r = Inr x \<and> P x"
  by (cases r) auto

text \<open>One worker that is inside \<^verbatim>\<open>ev_loop\<close> when it is told to terminate.\<close>

theorem join_leaves_no_thread_witness:
  "\<exists>s. length (workers s) = 1 \<and> join_reach quiet SINGLE_LOOP 1 (Terminating (length (workers s)), s) \<and>
     (\<forall>w < length (workers s). wm_pc (workers s ! w) = Exited)"
proof -
  have "\<exists>s. run_from_start quiet SINGLE_LOOP 1 [Thread 0, Start, Thread 0, Thread 0] = Inr s \<and> lf_reach quiet SINGLE_LOOP 1 s \<and>
      (case worker_terminate 0 s of Inl _ \<Rightarrow> False | Inr s1 \<Rightarrow>
        case do_labels quiet [Poll_return 0, Thread 0, Thread 0] s1 of Inl _ \<Rightarrow> False | Inr s2 \<Rightarrow>
          length (workers s2) = 1 \<and> wm_pc (workers s2 ! 0) = Exited)"
    by (rule lf_reach_run) code_simp
  then obtain s s1 s2 where s: "lf_reach quiet SINGLE_LOOP 1 s" "worker_terminate 0 s = Inr s1"
    "do_labels quiet [Poll_return 0, Thread 0, Thread 0] s1 = Inr s2" "length (workers s2) = 1" "wm_pc (workers s2 ! 0) = Exited"
    by (blast dest!: case_ok)
  have "join_reach quiet SINGLE_LOOP 1 (Joining 0, s1)"
    by (rule join_reach.moves [OF join_reach.waiting [OF s(1)] join_step.terminate [OF s(2)]])
  from join_labels [OF s(3) this] have "join_reach quiet SINGLE_LOOP 1 (Terminating (0 + 1), s2)"
    by (rule join_reach.moves) (rule join_step.joined, use s(4,5) in simp_all)
  then have j: "join_reach quiet SINGLE_LOOP 1 (Terminating (length (workers s2)), s2)" using s(4) by simp
  with join_leaves_no_thread [OF j] s(4) show ?thesis by blast
qed

end
