(* ===== verification/One_Hand.thy ===== *)
theory One_Hand
  imports Multi_Loop
begin

text \<open>
  One task, one hand: the exclusion of \<open>Task_Exclusion\<close>, for both run modes. The multi loop mode has the
  discipline of loops that the exclusion relies on, because every worker keeps its own loop.
\<close>

interpretation multi: loop_discipline MULTI_LOOP ml_inv
proof
  show "ml_inv s" if "lf_reach H MULTI_LOOP n s" for H n s using lf_reach_good [OF that] by (simp add: good_def)
  show "\<exists>l. wm_leader (workers s ! w) \<and> wm_loop (workers s ! w) = Some l \<and> userdata s l = Some w"
    if "ml_inv s" "polls w s" for s w using ml_invD(2-4) [OF that(1), of w] that(2) by (simp add: polls_def)
  show "ml_inv s'" if "ctl s' = ctl s" "ml_inv s" for s s' using that by (rule ml_inv_ctl)
  show "ml_inv (add_event e w s)" if "ml_inv s" "polls w s" for s w e using that by (rule ml_inv_add_event)
qed

lemma exclusive_reach: "lf_reach H m n s \<Longrightarrow> exclusive s"
  using single.reach_exclusive multi.reach_exclusive by (cases m) blast+



end
