(* ===== verification/Task_Lifetime.thy ===== *)
theory Task_Lifetime
  imports Leader_Properties
begin

text \<open>
  The life of a task object, in both run modes: its number is never given to another object, its class
  does not change, and it is deleted at most once. The operations of the task system are composed of a
  few primitive changes of the state; what these changes keep, every operation and every step keeps
  (\<open>task_relation\<close>).
\<close>

section \<open>Relations that all operations respect\<close>

text \<open>The laws are those of the primitive changes: a live task is written, deleted or made, something is logged, or the tasks are left alone.\<close>

locale task_relation =
  fixes R :: "sys \<Rightarrow> sys \<Rightarrow> bool"
  assumes refl: "R s s"
    and trans: "R s s1 \<Longrightarrow> R s1 s2 \<Longrightarrow> R s s2"
    and writes: "tasks s t = Some e \<Longrightarrow> em_kind e' = em_kind e \<Longrightarrow> R s (s\<lparr>tasks := (tasks s)(t \<mapsto> e')\<rparr>)"
    and deletes: "tasks s t \<noteq> None \<Longrightarrow> R s (delete_task t s)"
    and makes: "R s (snd (new_task e s))"
    and logs: "(\<And>t. x \<noteq> Deleted t) \<Longrightarrow> R s (add_log x s)"
    and others: "tasks s' = tasks s \<Longrightarrow> next_tid s' = next_tid s \<Longrightarrow> history s' = history s \<Longrightarrow> R s s'"
begin

lemma upd_task: "upd_task t f s = Inr s' \<Longrightarrow> (\<And>e. em_kind (f e) = em_kind e) \<Longrightarrow> R q s \<Longrightarrow> R q s'"
  by (auto simp: upd_task_def intro: trans [OF _ writes])

lemma fields:
  "upd_task t (\<lambda>e. e\<lparr>em_change_pending := b\<rparr>) s = Inr s' \<Longrightarrow> R q s \<Longrightarrow> R q s'"
  "upd_task t (\<lambda>e. e\<lparr>em_immediate := b\<rparr>) s = Inr s' \<Longrightarrow> R q s \<Longrightarrow> R q s'"
  "upd_task t enable_dispose s = Inr s' \<Longrightarrow> R q s \<Longrightarrow> R q s'"
  "upd_task t disable_dispose s = Inr s' \<Longrightarrow> R q s \<Longrightarrow> R q s'"
  "upd_task t disable_auto_delete s = Inr s' \<Longrightarrow> R q s \<Longrightarrow> R q s'"
  "upd_task t (on_finish f) s = Inr s' \<Longrightarrow> R q s \<Longrightarrow> R q s'"
  "upd_task t (on_error f) s = Inr s' \<Longrightarrow> R q s \<Longrightarrow> R q s'"
  "upd_task t (set_exception x) s = Inr s' \<Longrightarrow> R q s \<Longrightarrow> R q s'"
  "upd_task t reset_error s = Inr s' \<Longrightarrow> R q s \<Longrightarrow> R q s'"
  by (erule upd_task; simp add: enable_dispose_def disable_dispose_def disable_auto_delete_def on_finish_def on_error_def
      set_exception_def reset_error_def)+

lemma new_task: "new_task e s = (t, s') \<Longrightarrow> R q s \<Longrightarrow> R q s'"
  using makes [of s e] by (auto intro: trans)

lemma upd_worker: "R q s \<Longrightarrow> R q (upd_worker w f s)"
  by (rule trans [OF _ others]) simp_all

lemma add_event: "R q s \<Longrightarrow> R q (add_event e w s)"
  unfolding add_event_def by (rule upd_worker)

lemma ev_start: "ev_start t l s = Inr s' \<Longrightarrow> R q s \<Longrightarrow> R q s'"
  by (auto simp: ev_start_def intro: upd_task split: if_splits)

lemma ev_stop: "ev_stop t s = Inr s' \<Longrightarrow> R q s \<Longrightarrow> R q s'"
  by (auto simp: ev_stop_def intro: upd_task split: if_splits)

lemma init_watcher: "init_watcher t s = Inr s' \<Longrightarrow> R q s \<Longrightarrow> R q s'"
  by (auto simp: init_watcher_def intro: upd_task split: if_splits)

lemma assign_worker: "assign_worker w t s = Inr s' \<Longrightarrow> R q s \<Longrightarrow> R q s'"
  by (auto simp: assign_worker_def Let_def intro: trans [OF _ writes] split: mode.splits if_splits)

lemma set_events: "set_events n t s = Inr s' \<Longrightarrow> R q s \<Longrightarrow> R q s'"
  unfolding set_events_def by (erule upd_task) auto

lemma update_io: "update_io t l s = Inr s' \<Longrightarrow> R q s \<Longrightarrow> R q s'"
  unfolding update_io_def by (erule upd_task) auto

lemma dispose_now: "ev_stop t s = Inr s' \<Longrightarrow> R q s \<Longrightarrow> R q (delete_task t s')"
  by (rule trans [OF ev_stop deletes]) (auto simp: ev_stop_def upd_task_def split: if_splits)

lemma run_func: "run_func f l s = Inr s' \<Longrightarrow> R q s \<Longrightarrow> R q s'"
proof (cases f)
  case (Send_response t)
  assume "run_func f l s = Inr s'" "R q s"
  with Send_response show ?thesis
    by (clarsimp simp del: update_io_def split: if_splits) (blast intro: set_events update_io fields)+
next
  case (Add_net v t)
  assume "run_func f l s = Inr s'" "R q s"
  with Add_net show ?thesis by clarsimp (blast intro: init_watcher assign_worker ev_start)
qed (auto simp del: update_io_def intro: ev_start ev_stop update_io dispose_now add_event split: if_splits)

lemma async_call: "async_call w f s = Inr s' \<Longrightarrow> R q s \<Longrightarrow> R q s'"
  by (auto simp: async_call_def Let_def intro!: upd_worker)

lemma exec_in_ctx: "exec_in_worker_ctx cur w f s = Inr (b, s') \<Longrightarrow> R q s \<Longrightarrow> R q s'"
  by (auto simp: exec_in_worker_ctx_def intro: run_func async_call split: if_splits option.splits)

lemma in_ctx: "in_ctx cur w f s = Inr s' \<Longrightarrow> R q s \<Longrightarrow> R q s'"
  by (auto simp: in_ctx_def intro: exec_in_ctx)

lemma start_armed: "start_armed cur w t s = Inr s' \<Longrightarrow> R q s \<Longrightarrow> R q s'"
  by (clarsimp simp: start_armed_def) (auto simp: io_start_watcher_def intro: in_ctx split: task_kind.splits)

lemma stop_watcher: "stop_watcher cur w t s = Inr s' \<Longrightarrow> R q s \<Longrightarrow> R q s'"
  by (clarsimp simp: stop_watcher_def) (auto simp: io_stop_watcher_def intro: in_ctx split: task_kind.splits)

lemma update_watcher: "update_watcher cur w t s = Inr s' \<Longrightarrow> R q s \<Longrightarrow> R q s'"
  by (auto simp: update_watcher_def intro: in_ctx fields split: if_splits)

lemma get_worker: "get_worker_by_task cur t s = Inr (w, s') \<Longrightarrow> R q s \<Longrightarrow> R q s'"
  by (auto simp: get_worker_by_task_def Let_def intro: trans [OF _ others] split: option.splits mode.splits if_splits)

lemma callbacks: "R q s \<Longrightarrow> R q (fold (run_finish_cb w) fs s)" "R q s \<Longrightarrow> R q (fold (run_error_cb w x) fs s)"
proof -
  have 1: "R q s \<Longrightarrow> R q (run_finish_cb w f s)" "R q s \<Longrightarrow> R q (run_error_cb w x f s)" for f s
    by (cases f; auto intro: trans [OF _ logs])+
  show "R q s \<Longrightarrow> R q (fold (run_finish_cb w) fs s)" "R q s \<Longrightarrow> R q (fold (run_error_cb w x) fs s)"
    by (induction fs arbitrary: s) (auto intro: 1)
qed

lemma dispose_later: "dispose_later cur w t s = Inr s' \<Longrightarrow> R q s \<Longrightarrow> R q s'"
  by (clarsimp simp: dispose_later_def split: prod.splits) (blast intro: new_task init_watcher assign_worker start_armed)

lemma remove_event_task: "remove_event_task cur t s = Inr s' \<Longrightarrow> R q s \<Longrightarrow> R q s'"
  by (auto simp: remove_event_task_def io_dispose_def intro: get_worker in_ctx dispose_later trans [OF _ deletes] split: if_splits)

lemma task_finish: "task_finish cur w t s = Inr s' \<Longrightarrow> R q s \<Longrightarrow> R q s'"
  by (auto simp: task_finish_def intro: remove_event_task callbacks)

lemma notify: "notify_error w t s = Inr s' \<Longrightarrow> R q s \<Longrightarrow> R q s'"
  by (auto simp: notify_error_def intro: callbacks)

lemma finish_response: "finish_response cur t s = Inr s' \<Longrightarrow> R q s \<Longrightarrow> R q s'"
  by (clarsimp simp: finish_response_def split: if_splits) (blast intro: get_worker in_ctx fields)+

lemma perform: "perform cur w t a s = Inr s' \<Longrightarrow> R q s \<Longrightarrow> R q s'"
  by (cases a) (auto simp: net_add_task_def intro: fields set_events update_watcher finish_response new_task in_ctx split: prod.splits)

lemma perform_all: "perform_all cur w t as s = Inr s' \<Longrightarrow> R q s \<Longrightarrow> R q s'"
  by (induction as arbitrary: s) (auto intro: perform)

lemma handle_event: "handle_event H cur w t r s = Inr (c, s') \<Longrightarrow> R q s \<Longrightarrow> R q s'"
  by (clarsimp simp: handle_event_def Let_def)
     (auto simp: cleanup_handle_event_def io_dispose_def intro: in_ctx perform_all trans [OF _ logs]
      split: task_kind.splits prod.splits if_splits)

lemma exec_handler:
  assumes "\<And>q t s s'. start cur w t s = Inr s' \<Longrightarrow> R q s \<Longrightarrow> R q s'"
    and x: "exec_handler start H cur w ev s = Inr s'" and "R q s"
  shows "R q s'"
proof -
  from x obtain c s1 s2 and e :: etask where s1: "handle_event H cur w (ev_task ev) (ev_revents ev) s = Inr (c, s1)"
    and s2: "(if error e then notify_error (Some w) (ev_task ev) s1 else Inr s1) = Inr s2"
    and s': "(if c then rbind (upd_task (ev_task ev) reset_error s2) (start cur w (ev_task ev))
           else if em_auto_delete e then task_finish cur (Some w) (ev_task ev) s2 else Inr s2) = Inr s'"
    by (rule exec_handlerE)
  from handle_event [OF s1 \<open>R q s\<close>] s2 have "R q s2" by (auto intro: notify split: if_splits)
  with s' show ?thesis by (auto intro: assms(1) fields task_finish split: if_splits)
qed

lemma start_watcher: "start_watcher H cur w t s = Inr s' \<Longrightarrow> R q s \<Longrightarrow> R q s'"
  by (clarsimp simp: start_watcher_def split: if_splits)
     (auto intro: start_armed fields exec_handler [where start = start_armed, OF start_armed])

lemma add_task: "add_task H cur t s = Inr s' \<Longrightarrow> R q s \<Longrightarrow> R q s'"
  by (clarsimp simp: add_task_def add_event_task_def) (blast intro: get_worker init_watcher assign_worker start_watcher)

lemma exec_event_handler: "exec_event_handler H cur w ev s = Inr s' \<Longrightarrow> R q s \<Longrightarrow> R q s'"
  unfolding exec_event_handler_def by (rule exec_handler [OF start_watcher])

lemma same: "tasks s' = tasks s \<and> next_tid s' = next_tid s \<and> history s' = history s \<Longrightarrow> R q s \<Longrightarrow> R q s'"
  by (blast intro: trans others)

lemma mark_free: "mark_free w s = Inr s' \<Longrightarrow> R q s \<Longrightarrow> R q s'"
  by (rule same [where s = s]) (auto simp: mark_free_def add_free_worker_def split: mode.splits)

lemma free_worker: "free_worker s = Inr (r, s') \<Longrightarrow> R q s \<Longrightarrow> R q s'"
  by (rule same [where s = s]) (auto simp: free_worker_def split: if_splits option.splits)

lemma promote_claim: "promote_claim w s = Inr s' \<Longrightarrow> R q s \<Longrightarrow> R q s'"
  by (auto simp: promote_claim_def set_pc_def intro!: upd_worker intro: free_worker split: mode.splits option.splits)

lemma promote_pass: "promote_pass w x s = Inr s' \<Longrightarrow> R q s \<Longrightarrow> R q s'"
  by (rule same [where s = s]) (auto simp: promote_pass_def set_event_loop_def set_pc_def split: option.splits)

lemma handle_front: "handle_front H w s = Inr s' \<Longrightarrow> R q s \<Longrightarrow> R q s'"
  by (auto simp: handle_front_def set_pc_def intro: upd_worker exec_event_handler split: list.splits)

lemma advance: "advance H w s = Inr s' \<Longrightarrow> R q s \<Longrightarrow> R q s'"
  by (auto simp: advance_def set_pc_def intro: upd_worker mark_free promote_claim promote_pass handle_front split: pc.splits if_splits)

lemma run_queued: "run_queued b w fs s = Inr s' \<Longrightarrow> R q s \<Longrightarrow> R q s'"
  by (induction fs arbitrary: s) (auto intro: exec_in_ctx split: if_splits prod.splits)

theorem step: "lf_step H s s' \<Longrightarrow> R s s'"
proof (induction rule: lf_step.induct)
  case (thread w s s')
  from advance [OF this refl] show ?case .
next
  case (fire w s l t e r s')
  then show ?case by (auto simp: tasks_event_callback_def intro: add_event stop_watcher refl split: option.splits)
next
  case (async w s l v s')
  then show ?case by (auto simp: tasks_async_callback_def intro: run_queued upd_worker refl split: option.splits)
next
  case (start s s')
  then show ?case by (intro others) (auto simp: start_promote_def set_event_loop_def split: mode.splits)
next
  case (add e s t s1 s')
  from add_task [OF add(3) new_task [OF add(1) refl]] show ?case .
next
  case (post s ev e s')
  then show ?case by (auto simp: add_async_event_def intro: async_call refl)
next
  case (finish s t e s')
  from finish_response [OF finish(4) refl] show ?case .
next
  case (terminate w s s')
  then show ?case by (intro others) (auto simp: worker_terminate_def Let_def split: if_splits)
next
  case (quit s)
  show ?case by (rule others) (simp_all add: dispatcher_terminate_def)
qed (simp add: set_pc_def upd_worker refl)

lemma steps: "(lf_step H)\<^sup>*\<^sup>* s s' \<Longrightarrow> R s s'"
  by (induction rule: rtranclp_induct) (auto intro: refl trans step)

end

section \<open>One number, one object\<close>

definition deletions :: "sys \<Rightarrow> tid \<Rightarrow> nat" where
  "deletions s t = count_list (history s) (Deleted t)"

text \<open>
  \<open>lives s s'\<close>: numbers are handed out in order; an object that was there is the same or was deleted once, one
  that was gone stays so; a number that was free names a new object, or one that was deleted once meanwhile.
\<close>

definition lives :: "sys \<Rightarrow> sys \<Rightarrow> bool" where
  "lives s s' \<longleftrightarrow> next_tid s \<le> next_tid s' \<and>
     (\<forall>t. if tasks s t \<noteq> None
          then (if tasks s' t = None then deletions s' t = deletions s t + 1
                else deletions s' t = deletions s t \<and> kind_of s' t = kind_of s t)
          else if t < next_tid s \<or> next_tid s' \<le> t then tasks s' t = None \<and> deletions s' t = deletions s t
          else deletions s' t = deletions s t + (if tasks s' t = None then 1 else 0))"

definition unborn :: "sys \<Rightarrow> bool" where
  "unborn s \<longleftrightarrow> (\<forall>t \<ge> next_tid s. tasks s t = None)"

lemma lives_refl: "lives s s"
  by (simp add: lives_def not_less)

lemma lives_trans:
  assumes "unborn s" "lives s s1" "lives s1 s2"
  shows "lives s s2"
proof -
  have "if tasks s t \<noteq> None
        then (if tasks s2 t = None then deletions s2 t = deletions s t + 1
              else deletions s2 t = deletions s t \<and> kind_of s2 t = kind_of s t)
        else if t < next_tid s \<or> next_tid s2 \<le> t then tasks s2 t = None \<and> deletions s2 t = deletions s t
        else deletions s2 t = deletions s t + (if tasks s2 t = None then 1 else 0)" for t
    using assms unfolding lives_def unborn_def by (elim conjE allE [of _ t]) (auto split: if_splits)
  with assms(2,3) show ?thesis unfolding lives_def by auto
qed

interpretation life: task_relation "\<lambda>s s'. unborn s \<longrightarrow> unborn s' \<and> lives s s'"
proof
  show "unborn s \<longrightarrow> unborn s \<and> lives s s" for s by (simp add: lives_refl)
  show "unborn s \<longrightarrow> unborn s2 \<and> lives s s2" if "unborn s \<longrightarrow> unborn s1 \<and> lives s s1" "unborn s1 \<longrightarrow> unborn s2 \<and> lives s1 s2"
    for s s1 s2 using that lives_trans by blast
  show "unborn s \<longrightarrow> unborn (s\<lparr>tasks := (tasks s)(t \<mapsto> e')\<rparr>) \<and> lives s (s\<lparr>tasks := (tasks s)(t \<mapsto> e')\<rparr>)"
    if "tasks s t = Some e" "em_kind e' = em_kind e" for s t e e'
    using that by (auto simp: unborn_def lives_def deletions_def kind_of_def)
  show "unborn s \<longrightarrow> unborn (delete_task t s) \<and> lives s (delete_task t s)" if "tasks s t \<noteq> None" for s t
    using that by (auto simp: unborn_def lives_def deletions_def kind_of_def delete_task_def add_log_def)
  show "unborn s \<longrightarrow> unborn (snd (new_task e s)) \<and> lives s (snd (new_task e s))" for s e
    by (auto simp: unborn_def lives_def deletions_def kind_of_def new_task_def)
  show "unborn s \<longrightarrow> unborn (add_log x s) \<and> lives s (add_log x s)" if "\<And>t. x \<noteq> Deleted t" for s x
    using that by (auto simp: unborn_def lives_def deletions_def kind_of_def add_log_def)
  show "unborn s \<longrightarrow> unborn s' \<and> lives s s'"
    if "tasks s' = tasks s" "next_tid s' = next_tid s" "history s' = history s" for s s'
    using that by (auto simp: unborn_def lives_def deletions_def kind_of_def)
qed

lemma start_spawn_empty: "start_spawn (dispatcher_new m n) = Inr s \<Longrightarrow> next_tid s = 0 \<and> tasks s = Map.empty \<and> history s = []"
proof -
  have "start_workers is q = Inr s \<Longrightarrow> next_tid s = next_tid q \<and> tasks s = tasks q \<and> history s = history q" for "is" q
    by (induction "is" arbitrary: q) (auto simp: Let_def split: option.splits mode.splits)
  from this [of _ "dispatcher_new m n"] show "start_spawn (dispatcher_new m n) = Inr s \<Longrightarrow> ?thesis"
    by (auto simp: start_spawn_def dispatcher_new_def)
qed

lemma reach_unborn:
  assumes "lf_reach H m n s"
  shows "unborn s \<and> (\<forall>t. deletions s t = (if t < next_tid s \<and> tasks s t = None then 1 else 0))"
  using assms
proof (induction rule: lf_reach.induct)
  case (init s)
  from start_spawn_empty [OF this] show ?case by (simp add: unborn_def deletions_def)
next
  case (step s s')
  from life.step [OF step(2)] step(3) have u: "unborn s'" "lives s s'" by blast+
  have "deletions s' t = (if t < next_tid s' \<and> tasks s' t = None then 1 else 0)" for t
    using step(3) u unfolding lives_def unborn_def
    by (elim conjE allE [of _ t]) (auto split: if_splits)
  with u(1) show ?case by blast
qed

lemma do_labels_steps: "do_labels H as s = Inr s' \<Longrightarrow> (lf_step H)\<^sup>*\<^sup>* s s'"
  by (induction as arbitrary: s) (auto dest: do_label_step intro: converse_rtranclp_into_rtranclp)

section \<open>Properties\<close>


text \<open>A task whose handler ends it: its event is handled, and its disposal runs on the next leader.\<close>

definition ends :: handler where
  "ends t r s = ([], False)"

definition to_deleted :: "label list" where
  "to_deleted = [Thread 0, Thread 0, Thread 0, Thread 1, Thread 1, Async 1 0]"


end
