(* ===== verification/Dispatcher_Run.thy ===== *)
theory Dispatcher_Run
  imports Shutdown Task_Lifetime Executor
begin

text \<open>
  \<^verbatim>\<open>dispatcher::run\<close> as a whole (\<^verbatim>\<open>tasks/dispatcher.cpp\<close>): the thread that calls it starts the workers, hands
  a list of tasks over, event tasks to the workers and exec tasks to executors, waits for the end and joins the workers,
  while workers, libev, executors and other threads take their steps. Also \<^verbatim>\<open>remove_task\<close>.
\<close>

section \<open>Operations\<close>

text \<open>
  What a \<^verbatim>\<open>task*\<close> may point to, as the \<^verbatim>\<open>dynamic_cast\<close>s of \<^verbatim>\<open>add_task\<close> and \<^verbatim>\<open>remove_task\<close> tell it: an event task, an exec
  task, or an object of another class below \<^verbatim>\<open>task\<close>.
\<close>

datatype task_obj = Event_obj etask | Exec_obj exec_task | Other_obj

datatype task_ref = Event_ref tid | Exec_ref etid | Other_ref

definition remove_task :: "wid option \<Rightarrow> task_ref \<Rightarrow> sys \<times> exec_sys \<Rightarrow> (sys \<times> exec_sys) result" where
  "remove_task cur r = (\<lambda>(s, x).
     case r of
       Event_ref t \<Rightarrow> rbind (remove_event_task cur t s) (\<lambda>s. Inr (s, x))
     | Exec_ref t \<Rightarrow> Inr (s, remove_exec_task t x)
     | Other_ref \<Rightarrow> Inl Assertion)"

text \<open>The tasks that \<^verbatim>\<open>run(num, ...)\<close> takes from its arguments; there must be as many.\<close>

definition va_tasks :: "int \<Rightarrow> task_obj list \<Rightarrow> task_obj list result" where
  "va_tasks num args =
     (if num > 0 then if nat num \<le> length args then Inr (take (nat num) args) else Inl Memory else Inr [])"

text \<open>
  Where the calling thread stands: waiting for the workers to become available, in the loop over the tasks,
  between claiming an executor and storing a task there, in the wait of \<^verbatim>\<open>join\<close>, in its loop over the workers, back.
\<close>

datatype main_pc = Starting "task_obj list" | Adding "task_obj list" | Storing etid xid "task_obj list" | Parked
  | Closing joiner | Returned

record main =
  mn_pc :: main_pc
  mn_added :: "task_ref list"  \<comment> \<open>what the loop has handed over\<close>
  mn_sys :: sys
  mn_exec :: exec_sys

text \<open>
  The others cannot start the system, nor store the task the calling thread has claimed an executor for.
  The wait of \<^verbatim>\<open>join\<close> can end at any time (\<open>join_wait\<close>).
\<close>

definition own_store :: "main_pc \<Rightarrow> xlabel \<Rightarrow> bool" where
  "own_store p l = (case p of Storing t i os \<Rightarrow> l = Store t i | _ \<Rightarrow> False)"

inductive run_step :: "handler \<Rightarrow> main \<Rightarrow> main \<Rightarrow> bool" for H where
  others: "lf_step H (mn_sys r) s' \<Longrightarrow> dm_started s' = dm_started (mn_sys r) \<Longrightarrow> run_step H r (r\<lparr>mn_sys := s'\<rparr>)"
| executors: "xdo l (mn_exec r) = Some x' \<Longrightarrow> \<not> own_store (mn_pc r) l \<Longrightarrow> run_step H r (r\<lparr>mn_exec := x'\<rparr>)"
| promote: "\<lbrakk>mn_pc r = Starting os; \<not> dm_started (mn_sys r); m_run_mode (mn_sys r) = SINGLE_LOOP \<longrightarrow> all_free (mn_sys r);
     start_promote (mn_sys r) = Inr s'\<rbrakk> \<Longrightarrow> run_step H r (r\<lparr>mn_pc := Adding os, mn_sys := s'\<rparr>)"
| add_event: "\<lbrakk>mn_pc r = Adding (Event_obj e # os); em_active e = None; new_task e (mn_sys r) = (t, s1);
     add_task H None t s1 = Inr s'\<rbrakk>
     \<Longrightarrow> run_step H r (r\<lparr>mn_pc := Adding os, mn_added := mn_added r @ [Event_ref t], mn_sys := s'\<rparr>)"
| add_exec: "\<lbrakk>mn_pc r = Adding (Exec_obj et # os); dm_started (mn_sys r); exec_claim et (mn_exec r) = x';
     (t, i) = last (claims x')\<rbrakk>
     \<Longrightarrow> run_step H r (r\<lparr>mn_pc := Storing t i os, mn_added := mn_added r @ [Exec_ref t], mn_exec := x'\<rparr>)"
| store: "\<lbrakk>mn_pc r = Storing t i os; xdo (Store t i) (mn_exec r) = Some x'\<rbrakk>
     \<Longrightarrow> run_step H r (r\<lparr>mn_pc := Adding os, mn_exec := x'\<rparr>)"
| park: "mn_pc r = Adding [] \<Longrightarrow> run_step H r (r\<lparr>mn_pc := Parked\<rparr>)"
| wake: "mn_pc r = Parked \<Longrightarrow> join_wait [(dm_term (mn_sys r), timeout)] \<Longrightarrow> run_step H r (r\<lparr>mn_pc := Closing (Terminating 0)\<rparr>)"
| close: "\<lbrakk>mn_pc r = Closing j; join_step H (j, mn_sys r) (j', s'); dm_started s' = dm_started (mn_sys r)\<rbrakk>
     \<Longrightarrow> run_step H r (r\<lparr>mn_pc := Closing j', mn_sys := s'\<rparr>)"
| return: "mn_pc r = Closing (Terminating (length (workers (mn_sys r)))) \<Longrightarrow> run_step H r (r\<lparr>mn_pc := Returned\<rparr>)"

inductive run_reach :: "handler \<Rightarrow> mode \<Rightarrow> 8 word \<Rightarrow> 32 word \<Rightarrow> task_obj list \<Rightarrow> main \<Rightarrow> bool" for H m n timeout objs where
  init: "start_spawn (dispatcher_new m n) = Inr s \<Longrightarrow>
    run_reach H m n timeout objs \<lparr>mn_pc = Starting objs, mn_added = [], mn_sys = s, mn_exec = exec_start timeout\<rparr>"
| step: "run_reach H m n timeout objs r \<Longrightarrow> run_step H r r' \<Longrightarrow> run_reach H m n timeout objs r'"

section \<open>task::finish goes through remove\_task\<close>

lemma task_finish_removes:
  "rbind (task_finish cur w t s) (\<lambda>s. Inr (s, x)) =
   rbind (task_of s t) (\<lambda>e. remove_task cur (Event_ref t) (fold (run_finish_cb w) (em_finish_funcs e) s, x))"
  by (cases "tasks s t") (simp_all add: task_finish_def remove_task_def task_of_def)

lemma exec_finish_removes:
  "remove_task cur (Exec_ref t) (s, x\<lparr>xhistory := xhistory x @ map exec_finish_cb (xt_finish_funcs et)\<rparr>) = Inr (s, exec_finish t et x)"
  by (simp add: remove_task_def exec_finish_def)

section \<open>Both parts run as before\<close>

lemma run_step_sys:
  assumes "run_step H r r'" "lf_reach H m n (mn_sys r)"
  shows "lf_reach H m n (mn_sys r')"
  using assms(1)
proof cases
  case (others s')
  with assms(2) show ?thesis by (auto intro: lf_reach.step)
next
  case (promote os s')
  then have "lf_step H (mn_sys r) s'" by (intro lf_step.start)
  with promote(1) assms(2) show ?thesis by (auto intro: lf_reach.step)
next
  case (add_event e os t s1 s')
  then have "lf_step H (mn_sys r) s'" by (intro lf_step.add)
  with add_event(1) assms(2) show ?thesis by (auto intro: lf_reach.step)
next
  case (close j j' s')
  with join_step_reach [OF close(3) assms(2)] show ?thesis by simp
qed (use assms(2) in simp_all)

lemma x_reach_step: "x_reach x \<Longrightarrow> xdo l x = Some x' \<Longrightarrow> x_reach x'"
  unfolding x_reach_def by (blast intro: lsteps_more)

lemma run_step_exec:
  assumes "run_step H r r'" "x_reach (mn_exec r)"
  shows "x_reach (mn_exec r')"
  using assms(1)
proof cases
  case (add_exec et os x' t i)
  then have "xdo (Submit et) (mn_exec r) = Some x'" by simp
  from x_reach_step [OF assms(2) this] add_exec(1) show ?thesis by simp
next
  case (store t i os x')
  from x_reach_step [OF assms(2) store(3)] store(1) show ?thesis by simp
qed (use assms(2) x_reach_step in auto)

section \<open>What has been handed over\<close>

fun rest_of :: "main_pc \<Rightarrow> task_obj list" where
  "rest_of (Starting os) = os"
| "rest_of (Adding os) = os"
| "rest_of (Storing t i os) = os"
| "rest_of _ = []"

text \<open>
  The object that was handed over under a number: an event task is still of its class or was deleted; an exec task was
  not changed, and if it ran, its own function did; between the claim and the store only the calling thread has it.
\<close>

fun handed :: "main_pc \<Rightarrow> sys \<Rightarrow> exec_sys \<Rightarrow> task_obj \<Rightarrow> task_ref \<Rightarrow> bool" where
  "handed p s x (Event_obj e) (Event_ref t) \<longleftrightarrow> t < next_tid s \<and> (tasks s t = None \<or> kind_of s t = Some (em_kind e))"
| "handed p s x (Exec_obj et) (Exec_ref t) \<longleftrightarrow> t < next_etid x \<and> (exec_tasks x t = None \<or> exec_tasks x t = Some et) \<and>
     (\<forall>f. Executed t f \<in> set (xhistory x) \<longrightarrow> f = xt_func et) \<and>
     (t \<in> fst ` set (claims x) \<longrightarrow> (\<exists>i os. p = Storing t i os))"
| "handed p s x _ _ \<longleftrightarrow> False"

definition run_inv :: "task_obj list \<Rightarrow> main \<Rightarrow> bool" where
  "run_inv objs r \<longleftrightarrow>
     (\<exists>done. objs = done @ rest_of (mn_pc r) \<and> list_all2 (handed (mn_pc r) (mn_sys r) (mn_exec r)) done (mn_added r)) \<and>
     distinct (mn_added r) \<and>
     (\<forall>t. Event_ref t \<in> set (mn_added r) \<longrightarrow> t < next_tid (mn_sys r)) \<and>
     (\<forall>t. Exec_ref t \<in> set (mn_added r) \<longrightarrow> t < next_etid (mn_exec r)) \<and>
     ((\<forall>os. mn_pc r \<noteq> Starting os) \<longrightarrow> dm_started (mn_sys r)) \<and>
     (\<forall>j v. mn_pc r = Closing j \<and> v < joined_before j \<longrightarrow> gone v (mn_sys r)) \<and>
     (mn_pc r = Returned \<longrightarrow> (\<forall>v < length (workers (mn_sys r)). gone v (mn_sys r)))"

text \<open>The steps of the task system leave a handed event task what it is.\<close>

lemma handed_lf_step:
  assumes "lf_reach H m n s" "lf_step H s s'"
  shows "next_tid s \<le> next_tid s'" "handed p s x obj ref \<Longrightarrow> handed p s' x obj ref"
proof -
  have l: "lives s s'" using life.step [OF assms(2)] reach_unborn [OF assms(1)] by blast
  then show "next_tid s \<le> next_tid s'" by (simp add: lives_def)
  assume h: "handed p s x obj ref"
  show "handed p s' x obj ref"
  proof (cases obj)
    case (Event_obj e)
    with h obtain t where t: "ref = Event_ref t" "t < next_tid s" "tasks s t = None \<or> kind_of s t = Some (em_kind e)"
      by (cases ref) auto
    with l have "tasks s' t = None \<or> kind_of s' t = Some (em_kind e)" "t < next_tid s'"
      unfolding lives_def by (elim conjE allE [of _ t], auto split: if_splits)+
    with t(1) Event_obj show ?thesis by simp
  qed (use h in \<open>cases ref; simp\<close>)+
qed

text \<open>The steps of the executors change nothing of an exec task but that it runs and is deleted.\<close>

lemma exec_claim_effect:
  "\<exists>i. claims (exec_claim et x) = claims x @ [(next_etid x, i)] \<and> next_etid (exec_claim et x) = next_etid x + 1 \<and>
     exec_tasks (exec_claim et x) = (exec_tasks x)(next_etid x \<mapsto> et) \<and> xhistory (exec_claim et x) = xhistory x"
  by (auto simp: exec_claim_def free_executor_def Let_def upd_executor_def split: prod.splits option.splits)

lemma exec_run_task_handed:
  assumes "exec_run_task i v x = Inr x'"
  shows "next_etid x' = next_etid x" "claims x' = claims x"
    "exec_tasks x' t = None \<or> exec_tasks x' t = exec_tasks x t"
    "Executed t f \<in> set (xhistory x') \<Longrightarrow> Executed t f \<in> set (xhistory x) \<or> (\<exists>et. exec_tasks x t = Some et \<and> f = xt_func et)"
proof -
  have cb: "Executed t f \<noteq> exec_finish_cb c" for c by (cases c) auto
  from assms show "next_etid x' = next_etid x" "claims x' = claims x" "exec_tasks x' t = None \<or> exec_tasks x' t = exec_tasks x t"
    "Executed t f \<in> set (xhistory x') \<Longrightarrow> Executed t f \<in> set (xhistory x) \<or> (\<exists>et. exec_tasks x t = Some et \<and> f = xt_func et)"
    by (auto simp: exec_run_task_def exec_finish_def remove_exec_task_def Let_def cb split: option.splits if_splits)
qed

lemma xdo_handed:
  assumes "xdo l x = Some x'" "t < next_etid x"
  shows "next_etid x \<le> next_etid x'" "exec_tasks x' t = None \<or> exec_tasks x' t = exec_tasks x t"
    "Executed t f \<in> set (xhistory x') \<Longrightarrow> Executed t f \<in> set (xhistory x) \<or> (\<exists>et. exec_tasks x t = Some et \<and> f = xt_func et)"
    "t \<in> fst ` set (claims x') \<Longrightarrow> t \<in> fst ` set (claims x)"
proof -
  have "next_etid x \<le> next_etid x' \<and> (exec_tasks x' t = None \<or> exec_tasks x' t = exec_tasks x t) \<and>
    (Executed t f \<in> set (xhistory x') \<longrightarrow> Executed t f \<in> set (xhistory x) \<or> (\<exists>et. exec_tasks x t = Some et \<and> f = xt_func et)) \<and>
    (t \<in> fst ` set (claims x') \<longrightarrow> t \<in> fst ` set (claims x))"
  proof (cases l)
    case (Submit et)
    with assms exec_claim_effect [of et x] show ?thesis by auto
  next
    case (Store v i)
    with assms set_remove1_subset [of "(v, i)" "claims x"] show ?thesis by (auto simp: xguard_def exec_store_def split: if_splits)
  next
    case (Run i)
    with assms(1) obtain v where "exec_run_task i v x = Inr x'" by (auto split: if_splits option.splits sum.splits)
    with exec_run_task_handed(1,2) [OF this] exec_run_task_handed(3,4) [OF this, where t = t] show ?thesis by auto
  qed (use assms in \<open>auto simp: xguard_def split: if_splits xpc.splits\<close>)
  then show "next_etid x \<le> next_etid x'" "exec_tasks x' t = None \<or> exec_tasks x' t = exec_tasks x t"
    "Executed t f \<in> set (xhistory x') \<Longrightarrow> Executed t f \<in> set (xhistory x) \<or> (\<exists>et. exec_tasks x t = Some et \<and> f = xt_func et)"
    "t \<in> fst ` set (claims x') \<Longrightarrow> t \<in> fst ` set (claims x)" by blast+
qed

lemma handed_xdo:
  assumes "xdo l x = Some x'" "handed p s x obj ref"
  shows "handed p s x' obj ref"
proof (cases obj)
  case (Exec_obj et)
  with assms(2) obtain t where t: "ref = Exec_ref t" "t < next_etid x" by (cases ref) auto
  have "f = xt_func et" if "Executed t f \<in> set (xhistory x')" for f
    using xdo_handed(3) [OF assms(1) t(2) that] assms(2) Exec_obj t(1) by auto
  with xdo_handed(1,2,4) [OF assms(1) t(2)] assms(2) Exec_obj t(1) show ?thesis by auto
qed (use assms(2) in \<open>cases ref; simp\<close>)+

lemma list_all2_handed:
  "list_all2 (handed p s x) ds rs \<Longrightarrow> (\<And>obj ref. ref \<in> set rs \<Longrightarrow> handed p s x obj ref \<Longrightarrow> handed p' s' x' obj ref) \<Longrightarrow>
   list_all2 (handed p' s' x') ds rs"
  by (auto simp: list_all2_conv_all_nth)

section \<open>The invariant of run\<close>

lemma run_inv_handed:
  assumes "run_inv objs r" and "rest_of (mn_pc r') = rest_of (mn_pc r)" and "mn_added r' = mn_added r"
    and "\<And>obj ref. ref \<in> set (mn_added r) \<Longrightarrow> handed (mn_pc r) (mn_sys r) (mn_exec r) obj ref \<Longrightarrow>
      handed (mn_pc r') (mn_sys r') (mn_exec r') obj ref"
    and "next_tid (mn_sys r) \<le> next_tid (mn_sys r')" "next_etid (mn_exec r) \<le> next_etid (mn_exec r')"
    and "(\<forall>os. mn_pc r' \<noteq> Starting os) \<longrightarrow> dm_started (mn_sys r')"
    and "\<And>j v. mn_pc r' = Closing j \<Longrightarrow> v < joined_before j \<Longrightarrow> gone v (mn_sys r')"
    and "mn_pc r' = Returned \<longrightarrow> (\<forall>v < length (workers (mn_sys r')). gone v (mn_sys r'))"
  shows "run_inv objs r'"
  using assms list_all2_handed [where rs = "mn_added r" and p = "mn_pc r" and s = "mn_sys r" and x = "mn_exec r", OF _ assms(4)]
  unfolding run_inv_def by (auto dest!: order.strict_trans2 [OF _ assms(5)] order.strict_trans2 [OF _ assms(6)])

text \<open>A task that is handed over gets a number no task before it had.\<close>

lemma run_inv_adds:
  assumes "run_inv objs r" and "rest_of (mn_pc r) = obj # rest_of (mn_pc r')" and "mn_added r' = mn_added r @ [ref]"
    and "\<And>obj ref. ref \<in> set (mn_added r) \<Longrightarrow> handed (mn_pc r) (mn_sys r) (mn_exec r) obj ref \<Longrightarrow>
      handed (mn_pc r') (mn_sys r') (mn_exec r') obj ref"
    and "handed (mn_pc r') (mn_sys r') (mn_exec r') obj ref"
    and "\<And>t. ref = Event_ref t \<Longrightarrow> next_tid (mn_sys r) \<le> t" "\<And>t. ref = Exec_ref t \<Longrightarrow> next_etid (mn_exec r) \<le> t"
    and "next_tid (mn_sys r) \<le> next_tid (mn_sys r')" "next_etid (mn_exec r) \<le> next_etid (mn_exec r')"
    and "dm_started (mn_sys r')" "\<And>j. mn_pc r' \<noteq> Closing j" "mn_pc r' \<noteq> Returned"
  shows "run_inv objs r'"
proof -
  obtain ds where ds: "objs = ds @ rest_of (mn_pc r)" "list_all2 (handed (mn_pc r) (mn_sys r) (mn_exec r)) ds (mn_added r)"
    using assms(1) unfolding run_inv_def by blast
  have "list_all2 (handed (mn_pc r') (mn_sys r') (mn_exec r')) (ds @ [obj]) (mn_added r')"
    using list_all2_handed [OF ds(2) assms(4)] assms(3,5) by (simp add: list_all2_appendI)
  moreover have "objs = (ds @ [obj]) @ rest_of (mn_pc r')" using ds(1) assms(2) by simp
  moreover have old: "t < next_tid (mn_sys r)" if "Event_ref t \<in> set (mn_added r)" for t
    using assms(1) that by (simp add: run_inv_def)
  moreover have oldx: "t < next_etid (mn_exec r)" if "Exec_ref t \<in> set (mn_added r)" for t
    using assms(1) that by (simp add: run_inv_def)
  moreover have "ref \<notin> set (mn_added r)"
    using old oldx assms(5,6,7) by (cases ref) (force simp: not_le [symmetric], force simp: not_le [symmetric], cases obj, auto)
  moreover have "distinct (mn_added r)" using assms(1) by (simp add: run_inv_def)
  moreover have "t < next_tid (mn_sys r')" if "ref = Event_ref t" for t using assms(5) that by (cases obj) auto
  moreover have "t < next_etid (mn_exec r')" if "ref = Exec_ref t" for t using assms(5) that by (cases obj) auto
  ultimately show ?thesis
    using assms(3,8-) unfolding run_inv_def by (auto dest: order.strict_trans2)
qed

lemma handed_pc: "handed p s x obj ref \<Longrightarrow> (\<And>t i os. p \<noteq> Storing t i os) \<Longrightarrow> handed p' s x obj ref"
  by (cases obj; cases ref) auto

lemma list_handed_pc:
  "list_all2 (handed p s x) ds rs \<Longrightarrow> (\<And>t i os. p \<noteq> Storing t i os) \<Longrightarrow> list_all2 (handed p' s x) ds rs"
  by (erule list_all2_handed) (rule handed_pc)

lemma xdo_next: "xdo l x = Some x' \<Longrightarrow> next_etid x \<le> next_etid x'"
proof (cases l)
  case (Submit et)
  assume "xdo l x = Some x'"
  with Submit exec_claim_effect [of et x] show ?thesis by auto
qed (auto simp: xguard_def exec_store_def split: if_splits xpc.splits option.splits sum.splits dest: exec_run_task_handed(1))

text \<open>The new numbers: of the event task that \<^verbatim>\<open>add_task\<close> has got, and of the exec task that was claimed an executor for.\<close>

lemma event_handed:
  assumes "unborn s" "new_task e s = (t, s1)" "add_task H None t s1 = Inr s'"
  shows "handed p s' x (Event_obj e) (Event_ref t)"
proof -
  have s1: "t = next_tid s" "tasks s1 t = Some e" "next_tid s1 = t + 1" using assms(2) by (auto simp: new_task_def)
  have "unborn s1" using assms(1,2) by (auto simp: unborn_def new_task_def)
  with life.add_task [OF assms(3) life.refl] have "lives s1 s'" by blast
  then have "t < next_tid s'" "tasks s' t = None \<or> kind_of s' t = Some (em_kind e)"
    unfolding lives_def by (elim conjE allE [of _ t], use s1 in \<open>auto simp: kind_of_def split: if_splits\<close>)+
  then show ?thesis by simp
qed

lemma executed_numbers: "x_inv x \<Longrightarrow> Executed t f \<in> set (xhistory x) \<Longrightarrow> t < next_etid x"
proof -
  assume i: "x_inv x" and "Executed t f \<in> set (xhistory x)"
  then have "t \<in># mset (executed x)" by (force simp: executed_def)
  with i have "t \<in># mset [0..<next_etid x]" by (metis x_inv_def union_iff)
  then show ?thesis by simp
qed

lemma claims_distinct: "x_inv x \<Longrightarrow> distinct (map fst (claims x))"
proof -
  assume "x_inv x"
  then have "count (mset (map fst (claims x))) t \<le> 1" for t using x_inv_distinct [of x t] by simp
  moreover have "0 < count (mset (map fst (claims x))) t" if "t \<in> set (map fst (claims x))" for t
    using that by (simp only: count_greater_zero_iff set_mset_mset)
  ultimately show ?thesis unfolding distinct_count_atmost_1
    by (metis One_nat_def Suc_leI count_mset_0_iff le_antisym)
qed

lemma run_inv_step:
  assumes inv: "run_inv objs r" and st: "run_step H r r'" and s: "lf_reach H m n (mn_sys r)" and x: "x_reach (mn_exec r)"
  shows "run_inv objs r'"
  using st
proof cases
  case (others s')
  with inv show ?thesis
    by (intro run_inv_handed [OF inv])
       (auto simp: run_inv_def lf_step_length [OF others(2)] intro: handed_lf_step [OF s others(2)] gone_step [OF others(2)])
next
  case (executors l x')
  with inv show ?thesis
    by (intro run_inv_handed [OF inv]) (auto simp: run_inv_def intro: handed_xdo xdo_next)
next
  case (promote os s')
  have l: "lf_step H (mn_sys r) s'" using promote by (intro lf_step.start)
  have "dm_started s'" using promote(5) by (auto simp: start_promote_def split: mode.splits)
  moreover have "handed (Adding os) s' (mn_exec r) obj ref" if "handed (Starting os) (mn_sys r) (mn_exec r) obj ref" for obj ref
    using handed_pc [OF handed_lf_step(2) [OF s l that]] by blast
  ultimately show ?thesis
    using promote(1,2) by (intro run_inv_handed [OF inv]) (auto intro: handed_lf_step [OF s l])
next
  case (add_event e os t s1 s')
  have l: "lf_step H (mn_sys r) s'" using add_event by (intro lf_step.add)
  have u: "unborn (mn_sys r)" using reach_unborn [OF s] by blast
  have d: "dm_started s'" using add_event(5) ctl_eqD(6) [OF ctl_add_task [OF add_event(5)]] by (auto simp: add_task_def assert_that_def)
  have t: "t = next_tid (mn_sys r)" using add_event(4) by (simp add: new_task_def)
  have old: "handed (Adding os) s' (mn_exec r) obj ref" if "handed (mn_pc r) (mn_sys r) (mn_exec r) obj ref" for obj ref
    using handed_pc [OF handed_lf_step(2) [OF s l that]] add_event(2) by auto
  have new: "handed (Adding os) s' (mn_exec r) (Event_obj e) (Event_ref t)" by (rule event_handed [OF u add_event(4,5)])
  show ?thesis
    by (rule run_inv_adds [OF inv, where obj = "Event_obj e" and ref = "Event_ref t"])
       (use add_event(1,2) d t old new handed_lf_step(1) [OF s l] in \<open>simp_all del: handed.simps\<close>)
next
  case (add_exec et os x' t i)
  have x': "xdo (Submit et) (mn_exec r) = Some x'" using add_exec by simp
  obtain j where j: "claims x' = claims (mn_exec r) @ [(next_etid (mn_exec r), j)]" "next_etid x' = next_etid (mn_exec r) + 1"
    "exec_tasks x' = (exec_tasks (mn_exec r))(next_etid (mn_exec r) \<mapsto> et)" "xhistory x' = xhistory (mn_exec r)"
    using exec_claim_effect [of et "mn_exec r"] add_exec(4) by blast
  have t: "t = next_etid (mn_exec r)" using add_exec(5) j(1) by simp
  have "\<not> Executed t f \<in> set (xhistory (mn_exec r))" for f using executed_numbers [OF x_reach_inv [OF x], of t f] t by auto
  then have new: "handed (mn_pc r') (mn_sys r') (mn_exec r') (Exec_obj et) (Exec_ref t)" using add_exec(1) j t by simp
  show ?thesis
    by (rule run_inv_adds [OF inv, where obj = "Exec_obj et" and ref = "Exec_ref t"])
       (use add_exec(1,2,3) j t new in \<open>auto intro: handed_pc [where p = "mn_pc r", OF handed_xdo [OF x']]\<close>)
next
  case (store t i os x')
  have d: "distinct (map fst (claims (mn_exec r)))" by (rule claims_distinct [OF x_reach_inv [OF x]])
  have c: "(t, i) \<in> set (claims (mn_exec r))" "claims x' = remove1 (t, i) (claims (mn_exec r))"
    using store(3) by (auto simp: xguard_def exec_store_def split: if_splits)
  have "t \<notin> fst ` set (claims x')"
  proof
    assume "t \<in> fst ` set (claims x')"
    moreover have "set (claims x') = set (claims (mn_exec r)) - {(t, i)}" using c(2) d by (simp add: set_remove1_eq distinct_map)
    ultimately obtain b where "(t, b) \<in> set (claims (mn_exec r))" "b \<noteq> i" by force
    with eq_key_imp_eq_value [OF d c(1), of b] show False by blast
  qed
  then have "handed (Adding os) q x' obj ref" if "handed (Storing t i os) q (mn_exec r) obj ref" for q obj ref
    using handed_xdo [OF store(3) that] by (cases obj; cases ref) auto
  with store(1,2) inv xdo_next [OF store(3)] show ?thesis
    by (intro run_inv_handed [OF inv]) (auto simp: run_inv_def)
next
  case (close j j' s')
  have g: "gone v s'" if "v < joined_before j'" for v
    using join_step_gone [OF close(3)] that inv close(2) by (simp add: run_inv_def)
  have "lf_step H (mn_sys r) s' \<or> s' = mn_sys r" using close(3) by (cases rule: join_step.cases) (auto intro: lf_step.terminate)
  then have "next_tid (mn_sys r) \<le> next_tid s'"
    "handed (Closing j') s' (mn_exec r) obj ref" if "handed (Closing j) (mn_sys r) (mn_exec r) obj ref" for obj ref
    using handed_lf_step [OF s] handed_pc [OF that, of "Closing j'"] by auto
  with close(1,2,4) g inv handed_lf_step(1) [OF s] \<open>lf_step H (mn_sys r) s' \<or> s' = mn_sys r\<close> show ?thesis
    by (intro run_inv_handed [OF inv]) (auto simp: run_inv_def)
qed (use inv in \<open>auto simp: run_inv_def elim: list_handed_pc\<close>)

lemma run_reach_inv:
  assumes "run_reach H m n timeout objs r"
  shows "lf_reach H m n (mn_sys r)" "x_reach (mn_exec r)" "run_inv objs r"
proof -
  from assms have "lf_reach H m n (mn_sys r) \<and> x_reach (mn_exec r) \<and> run_inv objs r"
  proof induction
    case (init s)
    then show ?case by (auto simp: run_inv_def x_reach_def intro: lf_reach.init lsteps_stay)
  next
    case (step r r')
    then show ?case using run_step_sys run_step_exec run_inv_step by blast
  qed
  then show "lf_reach H m n (mn_sys r)" "x_reach (mn_exec r)" "run_inv objs r" by blast+
qed

section \<open>Properties\<close>

text \<open>
  C10: \<^verbatim>\<open>run\<close> comes back only when the work of the system is over. In both run modes, whatever workers, libev, executors and
  other threads do meanwhile: when \<^verbatim>\<open>run\<close> has returned, the system was started, every worker's thread has ended, and
  every task of the list was handed over once, under a number of its own: an event task is of its class or was deleted
  (once), an exec task sits in the slot of one executor or has been executed, once, with its own function.
\<close>

theorem run_returns:
  assumes "run_reach H m n timeout objs r" "mn_pc r = Returned"
  shows "dm_started (mn_sys r) \<and> (\<forall>w < length (workers (mn_sys r)). wm_pc (workers (mn_sys r) ! w) = Exited) \<and>
    length (mn_added r) = length objs \<and> distinct (mn_added r) \<and>
    (\<forall>i < length objs. case objs ! i of
       Event_obj e \<Rightarrow> \<exists>t. mn_added r ! i = Event_ref t \<and>
         (case tasks (mn_sys r) t of None \<Rightarrow> count_list (history (mn_sys r)) (Deleted t) = 1 | Some e' \<Rightarrow> em_kind e' = em_kind e)
     | Exec_obj et \<Rightarrow> \<exists>t. mn_added r ! i = Exec_ref t \<and> count (slots (executors (mn_exec r)) + mset (executed (mn_exec r))) t = 1 \<and>
         (\<forall>f. Executed t f \<in> set (xhistory (mn_exec r)) \<longrightarrow> f = xt_func et)
     | Other_obj \<Rightarrow> False)"
proof -
  note inv = run_reach_inv [OF assms(1)]
  have h: "list_all2 (handed Returned (mn_sys r) (mn_exec r)) objs (mn_added r)" using inv(3) assms(2) by (auto simp: run_inv_def)
  have ev: "case tasks (mn_sys r) t of None \<Rightarrow> count_list (history (mn_sys r)) (Deleted t) = 1 | Some e' \<Rightarrow> em_kind e' = em_kind e"
    if "handed Returned (mn_sys r) (mn_exec r) (Event_obj e) (Event_ref t)" for e t
    using that reach_unborn [OF inv(1)] by (auto simp: deletions_def kind_of_def split: option.splits)
  have ex: "count (slots (executors (mn_exec r)) + mset (executed (mn_exec r))) t = 1"
    if "handed Returned (mn_sys r) (mn_exec r) (Exec_obj et) (Exec_ref t)" for et t
  proof -
    have "count (mset (map fst (claims (mn_exec r))) + slots (executors (mn_exec r)) + mset (executed (mn_exec r))) t =
        count (mset [0..<next_etid (mn_exec r)]) t" using x_reach_inv [OF inv(2)] by (simp add: x_inv_def)
    moreover have "count (mset (map fst (claims (mn_exec r)))) t = 0" using that by (simp add: count_eq_zero_iff)
    ultimately show ?thesis using that by (simp add: count_mset_set')
  qed
  have "case objs ! i of
       Event_obj e \<Rightarrow> \<exists>t. mn_added r ! i = Event_ref t \<and>
         (case tasks (mn_sys r) t of None \<Rightarrow> count_list (history (mn_sys r)) (Deleted t) = 1 | Some e' \<Rightarrow> em_kind e' = em_kind e)
     | Exec_obj et \<Rightarrow> \<exists>t. mn_added r ! i = Exec_ref t \<and> count (slots (executors (mn_exec r)) + mset (executed (mn_exec r))) t = 1 \<and>
         (\<forall>f. Executed t f \<in> set (xhistory (mn_exec r)) \<longrightarrow> f = xt_func et)
     | Other_obj \<Rightarrow> False" if "i < length objs" for i
    using list_all2_nthD [OF h that] ev ex by (cases "objs ! i"; cases "mn_added r ! i") auto
  with inv(3) assms(2) list_all2_lengthD [OF h] show ?thesis by (simp add: run_inv_def gone_def)
qed

text \<open>The steps as a function, to compute a run: two tasks for one worker, which is told to end while it waits in \<^verbatim>\<open>ev_loop\<close>.\<close>

datatype run_label = Other label | Executor xlabel | Own

definition run_own :: "handler \<Rightarrow> main \<Rightarrow> main option" where
  "run_own H r = (let s = mn_sys r; x = mn_exec r in
     case mn_pc r of
       Starting os \<Rightarrow> (case start_promote s of Inl _ \<Rightarrow> None | Inr s' \<Rightarrow>
         if dm_started s \<or> m_run_mode s = SINGLE_LOOP \<and> \<not> all_free s then None else Some (r\<lparr>mn_pc := Adding os, mn_sys := s'\<rparr>))
     | Adding [] \<Rightarrow> Some (r\<lparr>mn_pc := Parked\<rparr>)
     | Adding (Event_obj e # os) \<Rightarrow> (case new_task e s of (t, s1) \<Rightarrow> (case add_task H None t s1 of Inl _ \<Rightarrow> None | Inr s' \<Rightarrow>
         if em_active e \<noteq> None then None
         else Some (r\<lparr>mn_pc := Adding os, mn_added := mn_added r @ [Event_ref t], mn_sys := s'\<rparr>)))
     | Adding (Exec_obj et # os) \<Rightarrow> (case last (claims (exec_claim et x)) of (t, i) \<Rightarrow>
         if \<not> dm_started s then None
         else Some (r\<lparr>mn_pc := Storing t i os, mn_added := mn_added r @ [Exec_ref t], mn_exec := exec_claim et x\<rparr>))
     | Adding (Other_obj # os) \<Rightarrow> None
     | Storing t i os \<Rightarrow> (case xdo (Store t i) x of None \<Rightarrow> None | Some x' \<Rightarrow> Some (r\<lparr>mn_pc := Adding os, mn_exec := x'\<rparr>))
     | Parked \<Rightarrow> if dm_term s then Some (r\<lparr>mn_pc := Closing (Terminating 0)\<rparr>) else None
     | Closing (Terminating w) \<Rightarrow> if w = length (workers s) then Some (r\<lparr>mn_pc := Returned\<rparr>)
         else (case worker_terminate w s of Inl _ \<Rightarrow> None | Inr s' \<Rightarrow>
           if dm_started s' = dm_started s then Some (r\<lparr>mn_pc := Closing (Joining w), mn_sys := s'\<rparr>) else None)
     | Closing (Joining w) \<Rightarrow> if w < length (workers s) \<and> wm_pc (workers s ! w) = Exited
         then Some (r\<lparr>mn_pc := Closing (Terminating (w + 1)), mn_sys := s\<rparr>) else None
     | Returned \<Rightarrow> None)"

fun run_do :: "handler \<Rightarrow> run_label \<Rightarrow> main \<Rightarrow> main option" where
  "run_do H (Other a) r = (case do_label H a (mn_sys r) of Inl _ \<Rightarrow> None | Inr s' \<Rightarrow>
     if dm_started s' = dm_started (mn_sys r) then Some (r\<lparr>mn_sys := s'\<rparr>) else None)"
| "run_do H (Executor l) r = (if own_store (mn_pc r) l then None
     else case xdo l (mn_exec r) of None \<Rightarrow> None | Some x' \<Rightarrow> Some (r\<lparr>mn_exec := x'\<rparr>))"
| "run_do H Own r = run_own H r"

lemma joined_step:
  assumes "mn_pc r = Closing (Joining w)" "w < length (workers (mn_sys r))" "wm_pc (workers (mn_sys r) ! w) = Exited"
  shows "run_step H r (r\<lparr>mn_pc := Closing (Terminating (Suc w))\<rparr>)"
  using run_step.close [OF assms(1) join_step.joined [OF assms(2,3)]] by simp

lemma run_own_step: "run_own H r = Some r' \<Longrightarrow> run_step H r r'"
  unfolding run_own_def Let_def
  by (auto split: main_pc.splits sum.splits if_splits list.splits task_obj.splits option.splits joiner.splits prod.splits
      intro: joined_step run_step.intros join_step.intros)

lemma run_do_step: "run_do H l r = Some r' \<Longrightarrow> run_step H r r'"
  by (cases l) (auto split: sum.splits if_splits option.splits
      intro: run_own_step run_step.others [OF do_label_step] run_step.executors)

lemma run_do_reach: "run_reach H m n timeout objs r \<Longrightarrow> lrun (run_do H) ls r = Some r' \<Longrightarrow> run_reach H m n timeout objs r'"
proof (induction ls arbitrary: r)
  case (Cons l ls)
  from Cons.prems(2) obtain q where q: "run_do H l r = Some q" "lrun (run_do H) ls q = Some r'" by (auto split: option.splits)
  from Cons.IH [OF run_reach.step [OF Cons.prems(1) run_do_step [OF q(1)]] q(2)] show ?case .
qed simp

definition two_tasks :: "task_obj list" where
  "two_tasks = [Event_obj (io_task_base_new 1), Exec_obj one_job]"

definition run_labels :: "run_label list" where
  "run_labels = [Other (Thread 0), Own, Other (Thread 0), Other (Thread 0), Own, Own, Own, Own, Other Quit, Own, Own,
     Executor (Enter 0), Executor (Wake 0), Executor (Run 0),
     Other (Poll_return 0), Other (Thread 0), Other (Thread 0), Own, Own]"

definition run_result :: "main option" where
  "run_result = (case start_spawn (dispatcher_new SINGLE_LOOP 1) of Inl _ \<Rightarrow> None | Inr s \<Rightarrow>
     lrun (run_do quiet) run_labels \<lparr>mn_pc = Starting two_tasks, mn_added = [], mn_sys = s, mn_exec = exec_start 5\<rparr>)"

lemma run_result_returns: "case run_result of None \<Rightarrow> False | Some r \<Rightarrow> mn_pc r = Returned \<and> length (workers (mn_sys r)) = 1 \<and>
    mn_added r = [Event_ref 0, Exec_ref 0] \<and> executed (mn_exec r) = [0]"
  by code_simp

theorem run_returns_witness:
  "\<exists>r. run_result = Some r \<and> mn_pc r = Returned \<and> mn_added r = [Event_ref 0, Exec_ref 0] \<and> wm_pc (workers (mn_sys r) ! 0) = Exited"
proof -
  obtain r where r: "run_result = Some r" "mn_pc r = Returned" "length (workers (mn_sys r)) = 1" "mn_added r = [Event_ref 0, Exec_ref 0]"
    using run_result_returns by (auto split: option.splits)
  then obtain s where s: "start_spawn (dispatcher_new SINGLE_LOOP 1) = Inr s"
    "lrun (run_do quiet) run_labels \<lparr>mn_pc = Starting two_tasks, mn_added = [], mn_sys = s, mn_exec = exec_start 5\<rparr> = Some r"
    by (auto simp: run_result_def split: sum.splits)
  have "run_reach quiet SINGLE_LOOP 1 5 two_tasks r" by (rule run_do_reach [OF run_reach.init [OF s(1)] s(2)])
  from run_returns [OF this r(2)] r(3) have "wm_pc (workers (mn_sys r) ! 0) = Exited" by simp
  with r show ?thesis by blast
qed

end
