(* ===== verification/Lead_Token.thy ===== *)
theory Lead_Token
  imports Leader_Properties
begin

text \<open>
  Leader/Followers as a token protocol. The abstract state is who holds the event loop, whom the
  holder has chosen to receive it, and who waits in the pool; the abstract steps are five. Every step
  of the threads is one of them, so the protocol of \<^verbatim>\<open>worker::run\<close>, \<^verbatim>\<open>worker::promote_leader\<close>,
  \<^verbatim>\<open>dispatcher::free_worker\<close> and \<^verbatim>\<open>dispatcher::start\<close> is a refinement of it.
\<close>

section \<open>The token protocol\<close>

record token =
  tk_size :: nat
  tk_holder :: "wid option"
  tk_heir :: "wid option"
  tk_pool :: "wid set"

definition token_init :: "nat \<Rightarrow> token" where
  "token_init n = \<lparr>tk_size = n, tk_holder = None, tk_heir = None, tk_pool = {}\<rparr>"

text \<open>
  A worker that is neither holder nor heir joins the pool; with everybody in the pool and no holder
  worker 0 takes the token; a holder without an heir takes one out of the pool; and it passes the
  token to its heir.
\<close>

inductive token_step :: "token \<Rightarrow> token \<Rightarrow> bool" where
  stay: "token_step k k"
| join: "\<lbrakk>x < tk_size k; x \<notin> tk_pool k; tk_holder k \<noteq> Some x; tk_heir k \<noteq> Some x\<rbrakk>
    \<Longrightarrow> token_step k (k\<lparr>tk_pool := insert x (tk_pool k)\<rparr>)"
| first: "\<lbrakk>tk_holder k = None; 0 < tk_size k; {..<tk_size k} = tk_pool k\<rbrakk>
    \<Longrightarrow> token_step k (k\<lparr>tk_holder := Some 0, tk_pool := tk_pool k - {0}\<rparr>)"
| claim: "\<lbrakk>tk_holder k = Some w; tk_heir k = None; x \<in> tk_pool k\<rbrakk>
    \<Longrightarrow> token_step k (k\<lparr>tk_heir := Some x, tk_pool := tk_pool k - {x}\<rparr>)"
| pass: "\<lbrakk>tk_holder k = Some w; tk_heir k = Some x\<rbrakk>
    \<Longrightarrow> token_step k (k\<lparr>tk_holder := Some x, tk_heir := None\<rparr>)"

inductive token_reach :: "nat \<Rightarrow> token \<Rightarrow> bool" for n where
  init: "token_reach n (token_init n)"
| step: "token_reach n k \<Longrightarrow> token_step k k' \<Longrightarrow> token_reach n k'"

text \<open>The token of a state of the system.\<close>

definition token_of :: "sys \<Rightarrow> token" where
  "token_of s = (let h = (if dm_started s then userdata s 0 else None) in
     \<lparr>tk_size = length (workers s), tk_holder = h,
      tk_heir = Option.bind h (\<lambda>w. if w < length (workers s) then handing (wm_pc (workers s ! w)) else None),
      tk_pool = set_slots (dm_workers_busy s)\<rparr>)"

section \<open>Steps that leave the token alone\<close>

lemma token_of_sel [simp]:
  "tk_size (token_of s) = length (workers s)" "tk_pool (token_of s) = set_slots (dm_workers_busy s)"
  by (simp_all add: token_of_def Let_def)

lemma token_of_cong:
  assumes "length (workers s') = length (workers s)" "dm_started s' = dm_started s"
    "userdata s' = userdata s" "dm_workers_busy s' = dm_workers_busy s"
    and "\<And>w. w < length (workers s) \<Longrightarrow> handing (wm_pc (workers s' ! w)) = handing (wm_pc (workers s ! w))"
  shows "token_of s' = token_of s"
  using assms by (auto simp: token_of_def Let_def split: bind_split)

lemma token_ctl:
  assumes "ctl s' = ctl s"
  shows "token_of s' = token_of s"
  using core_eqD [OF ctl_eqD(8) [OF assms]] by (intro token_of_cong) (simp_all add: ctl_eqD(1-7) [OF assms])

lemma token_upd:
  "handing (wm_pc (f (workers s ! w))) = handing (wm_pc (workers s ! w)) \<Longrightarrow>
   token_of (upd_worker w f s) = token_of s"
  by (intro token_of_cong) auto

lemma token_set_pc:
  "handing (wm_pc (workers s ! w)) = None \<Longrightarrow> handing p = None \<Longrightarrow> token_of (set_pc p w s) = token_of s"
  by (simp add: set_pc_def token_upd)

lemma token_add_event [simp]: "token_of (add_event ev w s) = token_of s"
  by (simp add: add_event_def token_upd)

lemma token_handle_front:
  assumes "handle_front H w s = Inr s'" and "handing (wm_pc (workers s ! w)) = None"
  shows "token_of s' = token_of s"
proof -
  let ?s0 = "upd_worker w (\<lambda>k. k\<lparr>wm_events_count := wm_events_count k + 1\<rparr>) s"
  have "token_of s1 = token_of s" if "exec_event_handler H (Some w) w ev ?s0 = Inr s1" for ev s1
    using token_ctl [OF ctl_exec_event_handler [OF that]] by (simp add: token_upd)
  then show ?thesis
    using assms by (auto simp: handle_front_def token_upd token_set_pc split: list.splits)
qed

lemma token_fire: "tasks_event_callback l cur t r s = Inr s' \<Longrightarrow> token_of s' = token_of s"
  by (auto simp: tasks_event_callback_def split: option.splits dest!: ctl_stop_watcher token_ctl)

lemma token_run_func: "run_func f l s = Inr s' \<Longrightarrow> token_of s' = token_of s"
proof (cases "\<exists>e. f = Async_event e")
  case False
  moreover assume "run_func f l s = Inr s'"
  ultimately show ?thesis using ctl_run_func token_ctl by blast
qed auto

lemma token_run_queued: "run_queued ndebug w fs s = Inr s' \<Longrightarrow> token_of s' = token_of s"
  by (induction fs arbitrary: s)
     (auto simp: exec_in_worker_ctx_def dest!: token_run_func token_ctl [OF ctl_async_call] split: if_splits option.splits)

lemma token_async: "tasks_async_callback ndebug l v s = Inr s' \<Longrightarrow> token_of s' = token_of s"
  by (auto simp: tasks_async_callback_def Let_def token_upd dest!: token_run_queued split: option.splits)

lemma token_terminate: "worker_terminate w s = Inr s' \<Longrightarrow> token_of s' = token_of s"
  by (auto simp: worker_terminate_def token_upd Let_def split: if_splits)

section \<open>Steps that move it\<close>

lemma holder_is_owner:
  assumes "lf_inv s" and "w < length (workers s)"
  shows "tk_holder (token_of s) = Some w \<longleftrightarrow> wm_loop (workers s ! w) \<noteq> None"
proof
  assume "tk_holder (token_of s) = Some w"
  then have h: "dm_started s" "userdata s 0 = Some w" by (auto simp: token_of_def Let_def split: if_splits)
  with assms(1) obtain v where "v < length (workers s)" "wm_loop (workers s ! v) \<noteq> None"
    by (auto simp: lf_inv_def)
  with h owner_registered(1) [OF assms(1)] show "wm_loop (workers s ! w) \<noteq> None" by fastforce
next
  assume "wm_loop (workers s ! w) \<noteq> None"
  from owner_registered [OF assms this] show "tk_holder (token_of s) = Some w"
    by (simp add: token_of_def)
qed

lemma owner_heir:
  assumes "lf_inv s" and "w < length (workers s)" and "wm_loop (workers s ! w) \<noteq> None"
  shows "tk_heir (token_of s) = handing (wm_pc (workers s ! w))"
  using owner_registered [OF assms] assms(2) by (simp add: token_of_def)

lemma heir_is_parked:
  assumes "lf_inv s" and "tk_heir (token_of s) = Some x"
  shows "parked (workers s ! x)"
  using assms handing_owner(6) [OF assms(1)]
  by (auto simp: token_of_def Let_def split: if_splits bind_splits)

text \<open>A worker that marks itself free joins the pool.\<close>

lemma token_mark_free:
  assumes inv: "lf_inv s" and w: "w < length (workers s)" and mf: "mark_free w s = Inr s1"
    and "wm_loop (workers s ! w) = None" "\<not> parked (workers s ! w)"
  shows "token_step (token_of s) (token_of (set_pc Waiting w s1))"
proof -
  obtain B where s1: "s1 = s\<lparr>dm_workers_busy := B\<rparr>"
    and B: "set_slots B = insert w (set_slots (dm_workers_busy s))"
    using mark_free_slots [OF inv w mf] by blast
  have "token_of (set_pc Waiting w s1) = token_of s1"
    using no_loop_no_handing [OF inv w assms(4)] by (intro token_set_pc) (simp_all add: s1)
  moreover have "token_of s1 = (token_of s)\<lparr>tk_pool := insert w (tk_pool (token_of s))\<rparr>"
    by (simp add: token_of_def s1 B Let_def cong: if_cong)
  moreover have "w \<notin> tk_pool (token_of s)"
    using lf_inv_workers [OF inv w] assms(5) by (auto simp: worker_inv_def)
  moreover have "tk_holder (token_of s) \<noteq> Some w" using holder_is_owner [OF inv w] assms(4) by simp
  moreover have "tk_heir (token_of s) \<noteq> Some w" using heir_is_parked [OF inv] assms(5) by blast
  ultimately show ?thesis using w token_step.join [of w "token_of s"] by simp
qed

lemma token_claim:
  assumes inv: "lf_inv s" and w: "w < length (workers s)" and pc: "wm_pc (workers s ! w) = Polled"
    and fw: "free_worker s = Inr (Some x, s1)"
  shows "token_step (token_of s) (token_of (set_pc (Handing x) w (upd_worker w (\<lambda>k. k\<lparr>wm_leader := False\<rparr>) s1)))"
proof -
  have "wm_leader (workers s ! w)" using lf_inv_workers [OF inv w] pc by (auto simp: worker_inv_def)
  note own = leader_owner [OF inv w this]
  have h: "tk_holder (token_of s) = Some w" "tk_heir (token_of s) = None"
    using holder_is_owner [OF inv w] owner_heir [OF inv w] own(1) pc by simp_all
  have ok: "bitset_ok (dm_workers_busy s)" "dm_last_worker_id s < m_bits (dm_workers_busy s)"
    using inv w by (auto simp: lf_inv_def)
  from fw have nx: "bitset_next (dm_workers_busy s) (dm_last_worker_id s) = Inr (Some x)"
    by (auto simp: free_worker_def split: if_splits option.splits)
  then obtain B where B: "bitset_unset x (dm_workers_busy s) = Inr B"
      "set_slots B = set_slots (dm_workers_busy s) - {x}" and x: "x \<in> set_slots (dm_workers_busy s)"
    using bs.claim_slot [OF ok nx] by auto
  have s1: "s1 = s\<lparr>dm_last_worker_id := x, dm_workers_busy := B\<rparr>"
    using fw nx B(1) by (auto simp: free_worker_def split: if_splits)
  have "token_of (set_pc (Handing x) w (upd_worker w (\<lambda>k. k\<lparr>wm_leader := False\<rparr>) s1)) =
      (token_of s)\<lparr>tk_heir := Some x, tk_pool := tk_pool (token_of s) - {x}\<rparr>"
    using own w by (simp add: token_of_def set_pc_def s1 B(2))
  with token_step.claim [OF h] x show ?thesis by simp
qed

lemma token_pass:
  assumes inv: "lf_inv s" and w: "w < length (workers s)" and pc: "wm_pc (workers s ! w) = Handing x"
    and pass: "promote_pass w x s = Inr s'"
  shows "token_step (token_of s) (token_of s')"
proof -
  have hd: "handing (wm_pc (workers s ! w)) = Some x" using pc by simp
  note ho = handing_owner [OF inv w hd]
  note own = owner_registered [OF inv w ho(1)]
  have h: "tk_holder (token_of s) = Some w" "tk_heir (token_of s) = Some x"
    using holder_is_owner [OF inv w] owner_heir [OF inv w] ho(1) pc by simp_all
  have "handing (wm_pc (workers s ! x)) = None" using ho(6) by (auto simp: parked_def)
  then have "token_of s' = (token_of s)\<lparr>tk_holder := Some x, tk_heir := None\<rparr>"
    using pass own ho(3,4) w
    by (auto simp: token_of_def promote_pass_def set_event_loop_def set_pc_def Let_def)
  with token_step.pass [OF h] show ?thesis by simp
qed

lemma token_start:
  assumes inv: "lf_inv s" and ns: "\<not> dm_started s" and af: "all_free s" and st: "start_promote s = Inr s'"
  shows "token_step (token_of s) (token_of s')"
proof -
  let ?n = "length (workers s)" and ?B = "dm_workers_busy s"
  have ok: "bitset_ok ?B" "m_bits ?B = ?n" "m_run_mode s = SINGLE_LOOP" using inv by (auto simp: lf_inv_def)
  have n: "0 < ?n" using st ok by (auto simp: start_promote_def)
  obtain B where B: "bitset_unset 0 ?B = Inr B" "set_slots B = set_slots ?B - {0}"
    using bs.unmark_law [OF ok(1), of 0] n ok(2) by auto
  have full: "{..<?n} = set_slots ?B"
    using all_free_slots [OF inv af] ok(2) by (auto simp: set_slots_def)
  then have "0 \<in> set_slots ?B" using n by blast
  then have "parked (workers s ! 0)" using lf_inv_workers [OF inv n] by (simp add: worker_inv_def)
  then have "handing (wm_pc (workers s ! 0)) = None" by (auto simp: parked_def)
  moreover have "s' = (set_event_loop 0 0 (s\<lparr>dm_workers_busy := B\<rparr>))\<lparr>dm_started := True\<rparr>"
    using st ok(3) B(1) n by (simp add: start_promote_def)
  ultimately have "token_of s' = (token_of s)\<lparr>tk_holder := Some 0, tk_pool := tk_pool (token_of s) - {0}\<rparr>"
    using B(2) n ns by (simp add: token_of_def set_event_loop_def)
  moreover have "tk_holder (token_of s) = None" using ns by (simp add: token_of_def Let_def)
  ultimately show ?thesis using token_step.first [of "token_of s"] n full by simp
qed

lemma token_advance:
  assumes inv: "lf_inv s" and adv: "advance H w s = Inr s'"
  shows "token_step (token_of s) (token_of s')"
proof -
  have w: "w < length (workers s)" using adv by (auto simp: advance_def)
  note i = lf_inv_workers [OF inv w] and defs = advance_def worker_of_def w token_set_pc
  have mode: "m_run_mode s = SINGLE_LOOP" using inv by (simp add: lf_inv_def)
  have same: "token_of s' = token_of s \<Longrightarrow> ?thesis" by (simp add: token_step.stay)
  show ?thesis
  proof (cases "wm_pc (workers s ! w)")
    case Boot
    with adv obtain s1 where "mark_free w s = Inr s1" "s' = set_pc Waiting w s1" by (auto simp: defs)
    with token_mark_free [OF inv w] i Boot show ?thesis by (auto simp: worker_inv_def parked_def)
  next
    case Running
    show ?thesis
    proof (cases "wm_leader (workers s ! w) \<or> wm_term (workers s ! w)")
      case True
      with adv Running same show ?thesis by (auto simp: defs split: if_splits)
    next
      case False
      with adv Running obtain s1 where "mark_free w s = Inr s1" "s' = set_pc Waiting w s1" by (auto simp: defs)
      with token_mark_free [OF inv w] i Running False show ?thesis by (auto simp: worker_inv_def parked_def)
    qed
  next
    case Polled
    then have nf: "handing (wm_pc (workers s ! w)) = None" by simp
    show ?thesis
    proof (cases "\<exists>x s1. wm_events_queue (workers s ! w) \<noteq> [] \<and> free_worker s = Inr (Some x, s1)")
      case True
      with adv Polled mode token_claim [OF inv w Polled] show ?thesis by (auto simp: defs promote_claim_def)
    next
      case False
      moreover have "s1 = s" if "free_worker s = Inr (None, s1)" for s1
        using that by (auto simp: free_worker_def split: if_splits option.splits)
      ultimately have "s' = set_pc Running w s \<or> s' = set_pc Handling w s"
        using adv Polled mode by (auto simp: defs promote_claim_def split: if_splits option.splits)
      with nf same show ?thesis by (auto simp: token_set_pc)
    qed
  next
    case (Handing x)
    with adv token_pass [OF inv w Handing] show ?thesis by (auto simp: defs)
  next
    case Handling
    with adv have "handle_front H w s = Inr s'" by (simp add: defs)
    with Handling show ?thesis by (intro same token_handle_front) auto
  qed (use adv same in \<open>auto simp: defs split: if_splits\<close>)
qed

lemma token_lf_step:
  assumes inv: "lf_inv s" and "lf_step H s s'"
  shows "token_step (token_of s) (token_of s')"
proof -
  have same: "token_of s' = token_of s \<Longrightarrow> ?thesis" by (simp add: token_step.stay)
  have mode: "m_run_mode s = SINGLE_LOOP" using inv by (simp add: lf_inv_def)
  from assms(2) show ?thesis
  proof cases
    case (thread w)
    with token_advance [OF inv] show ?thesis by blast
  next
    case (add e t s1)
    then have "ctl s' = ctl s" by (auto dest!: frame)
    then show ?thesis by (rule same [OF token_ctl])
  next
    case (post ev e)
    then have "ctl s' = ctl s" by (auto simp: add_async_event_def dest!: frame)
    then show ?thesis by (rule same [OF token_ctl])
  next
    case (start)
    with mode token_start [OF inv] show ?thesis by blast
  next
    case (poll_return w)
    then show ?thesis by (intro same) (simp add: token_set_pc)
  next
    case quit
    then show ?thesis by (intro same token_ctl) simp
  qed (auto intro!: same intro: token_fire token_async token_terminate token_ctl ctl_finish_response)
qed

section \<open>The protocol's own guarantee\<close>

text \<open>Proved of the abstract steps alone: holder, heir and pool never overlap.\<close>

lemma token_apart:
  assumes "token_reach n k"
  shows "tk_size k = n \<and> tk_pool k \<subseteq> {..<n} \<and> (\<forall>w. tk_holder k = Some w \<longrightarrow> w < n \<and> w \<notin> tk_pool k) \<and>
    (\<forall>x. tk_heir k = Some x \<longrightarrow> x < n \<and> x \<notin> tk_pool k \<and> tk_holder k \<noteq> None \<and> tk_holder k \<noteq> Some x)"
  using assms
proof induction
  case init
  show ?case by (simp add: token_init_def)
next
  case (step k k')
  from step(2,3) show ?case by cases auto
qed

text \<open>
  C7: Leader/Followers is a token protocol. In single loop mode every state the threads can reach is a
  state of the token protocol, every step of any thread from it is a step of the token protocol, and
  so the owner of the loop, the follower it has chosen and the pool of free workers never overlap.
\<close>

theorem lead_refines_token:
  assumes "lf_reach H SINGLE_LOOP n s"
  shows "token_reach (unat n) (token_of s) \<and>
    (\<forall>s'. lf_step H s s' \<longrightarrow> token_step (token_of s) (token_of s')) \<and>
    set_option (tk_holder (token_of s)) \<inter> set_slots (dm_workers_busy s) = {} \<and>
    set_option (tk_heir (token_of s)) \<inter> (set_slots (dm_workers_busy s) \<union> set_option (tk_holder (token_of s))) = {}"
proof -
  have reach: "token_reach (unat n) (token_of s)" using assms
  proof induction
    case (init s)
    with start_spawn_ok [of n] have "spawned (unat n) n s" by auto
    then have "token_of s = token_init (unat n)"
      by (simp add: spawned_def token_of_def token_init_def)
    then show ?case by (simp add: token_reach.init)
  next
    case (step s s')
    then show ?case using token_lf_step [OF lf_reach_inv] token_reach.step by blast
  qed
  with token_lf_step [OF lf_reach_inv [OF assms]] token_apart [OF reach] show ?thesis by auto
qed

theorem lead_refines_token_witness:
  "\<exists>s s'. run_from_start quiet SINGLE_LOOP 3 to_event = Inr s \<and> advance quiet 0 s = Inr s' \<and>
     token_step (token_of s) (token_of s')"
proof -
  obtain s where s: "run_from_start quiet SINGLE_LOOP 3 to_event = Inr s" "lf_reach quiet SINGLE_LOOP 3 s"
    "at_event s" using event_run by blast
  then obtain s' where "advance quiet 0 s = Inr s'"
    using advance_succeeds [OF lf_reach_inv [OF s(2)], of 0] by (auto simp: at_event_def)
  with s(1) lead_refines_token [OF s(2)] lf_step.thread [of quiet 0 s s'] show ?thesis by blast
qed

end
