(* ===== verification/Task_Grips.thy ===== *)
theory Task_Grips
  imports Leader_Properties "HOL-Library.Multiset"
begin

text \<open>
  What may still lead to a task (its armed watcher, a queued event, a closure that will arm or dispose of it, a cleanup task
  that waits for it) is a \<^emph>\<open>grip\<close>. In single loop mode a task and the cleanup task that waits for it share at most one,
  every grip is on a live task, and a closure that only updates a watcher waits ahead of the grip in the same queue. This
  theory has the invariant and the primitive changes that keep it. Left out are disk tasks, and the responses of
  asynchronous Thrift services, which do reach for deleted tasks (\<open>Thrift_Tasks\<close>).
\<close>

section \<open>Grips\<close>

fun grip :: "task_func \<Rightarrow> tid option" where
  "grip (Start_io t) = Some t"
| "grip (Start_timer t) = Some t"
| "grip (Add_net _ t) = Some t"
| "grip (Dispose_io t) = Some t"
| "grip (Async_event e) = Some (ev_task e)"
| "grip _ = None"

definition grips_in :: "task_func list \<Rightarrow> tid multiset" where
  "grips_in fs = mset (List.map_filter grip fs)"

text \<open>With \<open>x = Some w\<close> the first event of worker \<open>w\<close> does not count: it is in the hands of its handler.\<close>

definition events_at :: "wid option \<Rightarrow> wid \<Rightarrow> worker \<Rightarrow> event list" where
  "events_at x w k = (if x = Some w then tl (wm_events_queue k) else wm_events_queue k)"

definition worker_grips :: "wid option \<Rightarrow> wid \<Rightarrow> worker \<Rightarrow> tid multiset" where
  "worker_grips x w k = mset (map ev_task (events_at x w k)) + grips_in (wm_tfq k)"

definition is_active :: "sys \<Rightarrow> tid \<Rightarrow> bool" where
  "is_active s t \<longleftrightarrow> (case tasks s t of None \<Rightarrow> False | Some e \<Rightarrow> em_active e \<noteq> None)"

definition grips :: "wid option \<Rightarrow> sys \<Rightarrow> tid multiset" where
  "grips x s = filter_mset (is_active s) (mset [0..<next_tid s]) + (\<Sum>w < length (workers s). worker_grips x w (workers s ! w))"

lemma grips_in_simps [simp]:
  "grips_in [] = {#}" "grips_in (f # fs) = (case grip f of None \<Rightarrow> {#} | Some t \<Rightarrow> {#t#}) + grips_in fs"
  "grips_in (fs @ gs) = grips_in fs + grips_in gs"
  by (simp_all add: grips_in_def List.map_filter_def split: option.splits)

lemma grips_upd_worker:
  assumes "w < length (workers s)"
  shows "grips x (upd_worker w f s) + worker_grips x w (workers s ! w) = grips x s + worker_grips x w (f (workers s ! w))"
proof -
  let ?n = "length (workers s)"
  have "(\<Sum>v < ?n. worker_grips x v (workers (upd_worker w f s) ! v))
      = worker_grips x w (f (workers s ! w)) + (\<Sum>v \<in> {..<?n} - {w}. worker_grips x v (workers s ! v))"
    using assms by (subst sum.remove [of _ w]) (auto intro!: sum.cong)
  moreover have "(\<Sum>v < ?n. worker_grips x v (workers s ! v))
      = worker_grips x w (workers s ! w) + (\<Sum>v \<in> {..<?n} - {w}. worker_grips x v (workers s ! v))"
    using assms by (intro sum.remove) auto
  moreover have "is_active (upd_worker w f s) = is_active s" by (rule ext) (simp add: is_active_def)
  ultimately show ?thesis by (simp add: grips_def ac_simps)
qed

lemma grips_upd_worker_same:
  "worker_grips x w (f (workers s ! w)) = worker_grips x w (workers s ! w) \<Longrightarrow> grips x (upd_worker w f s) = grips x s"
  using grips_upd_worker [of w s x f] upd_worker_beyond [of w s f] by (cases "w < length (workers s)") auto

lemma grips_same:
  "tasks s' = tasks s \<Longrightarrow> next_tid s' = next_tid s \<Longrightarrow> workers s' = workers s \<Longrightarrow> grips x s' = grips x s"
  by (simp add: grips_def is_active_def cong: filter_mset_cong)

lemma grips_add_log [simp]: "grips x (add_log e s) = grips x s"
  by (rule grips_same) (simp_all add: add_log_def)

text \<open>How the primitive changes of the state change the grips.\<close>

lemma grips_write:
  assumes "tasks s t = Some e" "(em_active e' = None) = (em_active e = None)"
  shows "grips x (s\<lparr>tasks := (tasks s)(t \<mapsto> e')\<rparr>) = grips x s"
proof -
  have "is_active (s\<lparr>tasks := (tasks s)(t \<mapsto> e')\<rparr>) = is_active s" using assms by (auto simp: is_active_def fun_eq_iff)
  then show ?thesis by (simp add: grips_def)
qed

lemma filter_upt_switch:
  assumes "t < n" "P' t" "\<not> P t" "\<And>u. u \<noteq> t \<Longrightarrow> P' u = P u"
  shows "filter_mset P' (mset [0..<n]) = filter_mset P (mset [0..<n]) + {#t#}"
proof (rule multiset_eqI)
  fix u
  show "count (filter_mset P' (mset [0..<n])) u = count (filter_mset P (mset [0..<n]) + {#t#}) u"
    using assms by (cases "u = t") (auto simp: count_mset_set')
qed

lemma grips_arm:
  assumes "tasks s t = Some e" "t < next_tid s" "em_active e = None" "em_active e' \<noteq> None"
  shows "grips x (s\<lparr>tasks := (tasks s)(t \<mapsto> e')\<rparr>) = grips x s + {#t#}"
  using assms filter_upt_switch [of t "next_tid s" "is_active (s\<lparr>tasks := (tasks s)(t \<mapsto> e')\<rparr>)" "is_active s"]
  by (simp add: grips_def is_active_def ac_simps)

lemma grips_disarm:
  assumes "tasks s t = Some e" "t < next_tid s" "em_active e \<noteq> None" "em_active e' = None"
  shows "grips x s = grips x (s\<lparr>tasks := (tasks s)(t \<mapsto> e')\<rparr>) + {#t#}"
  using assms filter_upt_switch [of t "next_tid s" "is_active s" "is_active (s\<lparr>tasks := (tasks s)(t \<mapsto> e')\<rparr>)"]
  by (simp add: grips_def is_active_def ac_simps)

lemma grips_delete:
  assumes "tasks s t = Some e" "em_active e = None"
  shows "grips x (delete_task t s) = grips x s"
proof -
  have "is_active (delete_task t s) = is_active s" using assms by (auto simp: is_active_def delete_task_def add_log_def fun_eq_iff)
  then show ?thesis by (simp add: grips_def) (simp add: delete_task_def add_log_def)
qed

lemma grips_new:
  assumes "new_task e s = (t, s')" "em_active e = None"
  shows "grips x s' = grips x s"
proof -
  have s': "next_tid s' = Suc (next_tid s)" "workers s' = workers s" "\<And>u. is_active s' u = (u \<noteq> next_tid s \<and> is_active s u)"
    using assms by (auto simp: is_active_def new_task_def split: if_splits)
  have "filter_mset (is_active s') (mset [0..<next_tid s]) = filter_mset (is_active s) (mset [0..<next_tid s])"
    by (rule filter_mset_cong) (simp_all add: s')
  then show ?thesis by (simp add: grips_def s')
qed

lemma mset_shift: "a + w = b + (w + c) \<Longrightarrow> a = b + c" for a :: "'a multiset"
proof -
  assume "a + w = b + (w + c)"
  then have "w + a = w + (b + c)" by (simp only: ac_simps)
  then show ?thesis by (simp only: add_left_cancel)
qed

lemma grips_queue:
  assumes "w < length (workers s)"
  shows "grips x (upd_worker w (\<lambda>k. k\<lparr>wm_tfq := wm_tfq k @ [f]\<rparr>) s) = grips x s + grips_in [f]"
proof -
  let ?k = "workers s ! w"
  have k: "worker_grips x w (?k\<lparr>wm_tfq := wm_tfq ?k @ [f]\<rparr>) = worker_grips x w ?k + grips_in [f]"
    by (simp add: worker_grips_def events_at_def)
  from grips_upd_worker [OF assms, of x "\<lambda>k. k\<lparr>wm_tfq := wm_tfq k @ [f]\<rparr>"] show ?thesis
    unfolding k by (rule mset_shift)
qed

lemma grips_add_event:
  assumes "w < length (workers s)"
  shows "grips None (add_event ev w s) = grips None s + {#ev_task ev#}"
proof -
  let ?k = "workers s ! w"
  have k: "worker_grips None w (?k\<lparr>wm_events_queue := wm_events_queue ?k @ [ev]\<rparr>) = worker_grips None w ?k + {#ev_task ev#}"
    by (simp add: worker_grips_def events_at_def)
  from grips_upd_worker [OF assms, of None "\<lambda>k. k\<lparr>wm_events_queue := wm_events_queue k @ [ev]\<rparr>"] show ?thesis
    unfolding add_event_def k by (rule mset_shift)
qed

section \<open>The invariant\<close>

text \<open>
  \<open>rt\<close> maps a cleanup task to the task it waits for, and every other number to itself; \<open>shared rt x s d\<close> is the number
  of grips on \<open>d\<close> and the cleanup task that waits for it.
\<close>

definition shared :: "(tid \<Rightarrow> tid) \<Rightarrow> wid option \<Rightarrow> sys \<Rightarrow> tid \<Rightarrow> nat" where
  "shared rt x s d = count (image_mset rt (grips x s)) d"

text \<open>What a queue of closures may hold: the closures below only, and updates only ahead of the grips.\<close>

fun queue_ok :: "(tid \<Rightarrow> tid) \<Rightarrow> wid option \<Rightarrow> sys \<Rightarrow> task_func list \<Rightarrow> bool" where
  "queue_ok rt x s [] \<longleftrightarrow> True"
| "queue_ok rt x s (Update_io t # fs) \<longleftrightarrow> kind_of s t = Some Io_task \<and>
     shared rt x s t = count (image_mset rt (grips_in fs)) t \<and> queue_ok rt x s fs"
| "queue_ok rt x s (Start_io t # fs) \<longleftrightarrow> queue_ok rt x s fs"
| "queue_ok rt x s (Start_timer t # fs) \<longleftrightarrow> queue_ok rt x s fs"
| "queue_ok rt x s (Add_net w t # fs) \<longleftrightarrow> queue_ok rt x s fs"
| "queue_ok rt x s (Dispose_io t # fs) \<longleftrightarrow> kind_of s t = Some Io_task \<and> queue_ok rt x s fs"
| "queue_ok rt x s _ \<longleftrightarrow> False"

text \<open>
  \<open>K\<close> are tasks that something keeps its grip on; \<open>hs\<close> are the tasks in hand: whose event is being handled, and which are being made. A live cleanup task has a grip and
  its disposable is live, unless it is in hand. What is needed of the objects besides: a cleanup task is deleted when its
  handler ends it, only an I/O task has a watcher that can be updated, and no task is assigned to a worker.
\<close>

definition task_ok :: "(tid \<Rightarrow> tid) \<Rightarrow> wid option \<Rightarrow> tid set \<Rightarrow> sys \<Rightarrow> tid \<Rightarrow> etask \<Rightarrow> bool" where
  "task_ok rt x hs s t e \<longleftrightarrow> em_worker e = None \<and> em_kind e \<noteq> Disk_task \<and>
     (em_watcher_initialized e \<longrightarrow> em_kind e = Io_task) \<and>
     (case em_kind e of
        Cleanup_task d \<Rightarrow> rt t = d \<and> d < t \<and> em_auto_delete e \<and> (t \<in> hs \<or> t \<in># grips x s \<and> kind_of s d = Some Io_task)
      | _ \<Rightarrow> rt t = t)"

definition safe :: "tid set \<Rightarrow> (tid \<Rightarrow> tid) \<Rightarrow> wid option \<Rightarrow> tid set \<Rightarrow> sys \<Rightarrow> bool" where
  "safe K rt x hs s \<longleftrightarrow> lf_inv s \<and> (\<forall>t \<ge> next_tid s. tasks s t = None \<and> rt t = t) \<and>
     (\<forall>t \<in># grips x s. tasks s t \<noteq> None) \<and> (\<forall>d. shared rt x s d \<le> 1) \<and> (\<forall>t \<in> K. t \<in># grips x s) \<and>
     (\<forall>t e. tasks s t = Some e \<longrightarrow> task_ok rt x hs s t e) \<and>
     (\<forall>w < length (workers s). queue_ok rt x s (wm_tfq (workers s ! w)))"

text \<open>\<open>updates s d W\<close>: closures that update the watcher of \<open>d\<close> wait in queues of workers in \<open>W\<close> only.\<close>

definition updates :: "sys \<Rightarrow> tid \<Rightarrow> wid set \<Rightarrow> bool" where
  "updates s d W \<longleftrightarrow> (\<forall>w < length (workers s). w \<notin> W \<longrightarrow> Update_io d \<notin> set (wm_tfq (workers s ! w)))"

text \<open>A task nothing has a grip on, so that the code at hand may go on with it.\<close>

definition free :: "(tid \<Rightarrow> tid) \<Rightarrow> wid option \<Rightarrow> sys \<Rightarrow> tid \<Rightarrow> wid set \<Rightarrow> bool" where
  "free rt x s t W \<longleftrightarrow> tasks s t \<noteq> None \<and> shared rt x s (rt t) = 0 \<and> updates s (rt t) W"

lemma safeD:
  assumes "safe K rt x hs s"
  shows "lf_inv s" "next_tid s \<le> t \<Longrightarrow> tasks s t = None" "next_tid s \<le> t \<Longrightarrow> rt t = t"
    "t \<in># grips x s \<Longrightarrow> tasks s t \<noteq> None" "shared rt x s d \<le> 1" "tasks s t = Some e \<Longrightarrow> task_ok rt x hs s t e"
    "w < length (workers s) \<Longrightarrow> queue_ok rt x s (wm_tfq (workers s ! w))" "tasks s t \<noteq> None \<Longrightarrow> t < next_tid s"
    "t \<in> K \<Longrightarrow> t \<in># grips x s"
  using assms unfolding safe_def by (auto simp: not_le [symmetric])

lemma live_kind: "tasks s t = None \<longleftrightarrow> kind_of s t = None"
  by (simp add: kind_of_def)

lemma shared_zero: "shared rt x s d = 0 \<longleftrightarrow> (\<forall>t \<in># grips x s. rt t \<noteq> d)"
  by (auto simp: shared_def count_eq_zero_iff)

lemma queue_ok_cong:
  assumes "\<And>u. Update_io u \<in> set fs \<or> Dispose_io u \<in> set fs \<Longrightarrow> kind_of s' u = kind_of s u"
    "\<And>u. Update_io u \<in> set fs \<Longrightarrow> shared rt' x' s' u = shared rt x s u"
    "\<And>f u. f \<in> set fs \<Longrightarrow> grip f = Some u \<Longrightarrow> rt' u = rt u"
  shows "queue_ok rt' x' s' fs = queue_ok rt x s fs"
  using assms
proof (induction fs)
  case (Cons f fs)
  have "image_mset rt' (grips_in fs) = image_mset rt (grips_in fs)"
    by (intro image_mset_cong) (auto simp: grips_in_def List.map_filter_def intro: Cons.prems(3))
  moreover have "queue_ok rt' x' s' fs = queue_ok rt x s fs" by (rule Cons.IH) (auto intro: Cons.prems)
  ultimately show ?case using Cons.prems(1,2) by (cases f) auto
qed simp

text \<open>An update that waits has all grips of its task behind it, in its own queue.\<close>

lemma queue_ok_update: "queue_ok rt x s fs \<Longrightarrow> Update_io d \<in> set fs \<Longrightarrow> shared rt x s d \<le> count (image_mset rt (grips_in fs)) d"
proof (induction fs)
  case (Cons f fs)
  then show ?case by (cases f) auto
qed simp

lemma queue_ok_kind: "queue_ok rt x s fs \<Longrightarrow> Update_io d \<in> set fs \<or> Dispose_io d \<in> set fs \<Longrightarrow> kind_of s d = Some Io_task"
proof (induction fs)
  case (Cons f fs)
  then show ?case by (cases f) auto
qed simp

lemma queue_ok_tl: "queue_ok rt x s fs \<Longrightarrow> queue_ok rt x s (tl fs)"
  by (cases fs) (auto elim: queue_ok.elims)

lemma grips_in_member: "f \<in> set fs \<Longrightarrow> grip f = Some t \<Longrightarrow> t \<in># grips_in fs"
  by (force simp: grips_in_def List.map_filter_def)

lemma worker_grips_sub: "w < length (workers s) \<Longrightarrow> worker_grips x w (workers s ! w) \<subseteq># grips x s"
proof -
  assume w: "w < length (workers s)"
  then have "(\<Sum>v < length (workers s). worker_grips x v (workers s ! v)) =
      worker_grips x w (workers s ! w) + (\<Sum>v \<in> {..<length (workers s)} - {w}. worker_grips x v (workers s ! v))"
    by (intro sum.remove) auto
  then show ?thesis by (simp add: grips_def subset_mset.add_increasing)
qed

lemma queued_grip:
  assumes "w < length (workers s)" "f \<in> set (wm_tfq (workers s ! w))" "grip f = Some t"
  shows "t \<in># grips x s"
  using worker_grips_sub [OF assms(1), of x] grips_in_member [OF assms(2,3)]
  by (auto simp: worker_grips_def dest: mset_subset_eqD)

section \<open>Primitive changes\<close>

text \<open>A task is written, but not its class, its worker, or whether it is armed.\<close>

lemma safe_write:
  assumes "safe K rt x hs s" "tasks s t = Some e" "em_kind e' = em_kind e" "em_worker e' = em_worker e"
    "(em_active e' = None) = (em_active e = None)" "em_watcher_initialized e' \<longrightarrow> em_kind e = Io_task"
    "(\<forall>d. em_kind e \<noteq> Cleanup_task d) \<or> em_auto_delete e'"
  shows "safe K rt x hs (s\<lparr>tasks := (tasks s)(t \<mapsto> e')\<rparr>)"
proof -
  let ?s = "s\<lparr>tasks := (tasks s)(t \<mapsto> e')\<rparr>"
  have g: "grips x ?s = grips x s" by (rule grips_write [OF assms(2,5)])
  have k: "kind_of ?s u = kind_of s u" for u using assms(2,3) by (simp add: kind_of_def)
  have "queue_ok rt x ?s fs = queue_ok rt x s fs" for fs by (rule queue_ok_cong) (simp_all add: k shared_def g)
  moreover have "task_ok rt x hs ?s u f = task_ok rt x hs s u f" for u f by (simp add: task_ok_def g k split: task_kind.splits)
  moreover have "task_ok rt x hs s t e'"
    using safeD(6) [OF assms(1,2)] assms(3-) by (auto simp: task_ok_def split: task_kind.splits)
  moreover have "lf_inv ?s" using safeD(1) [OF assms(1)] lf_inv_ctl [of ?s s] by simp
  ultimately show ?thesis
    using assms(1,2) safeD(8) [OF assms(1), of t] unfolding safe_def shared_def by (auto simp: g)
qed

lemma free_write:
  assumes "free rt x s u W" "tasks s t = Some e" "(em_active e' = None) = (em_active e = None)"
  shows "free rt x (s\<lparr>tasks := (tasks s)(t \<mapsto> e')\<rparr>) u W"
  using assms grips_write [OF assms(2,3), of x] by (auto simp: free_def shared_def updates_def)

text \<open>Nothing of the tasks, the grips and the closures changes.\<close>

lemma safe_same:
  assumes "safe K rt x hs s" "lf_inv s'" "tasks s' = tasks s" "next_tid s' = next_tid s" "grips x' s' = grips x s"
    "length (workers s') = length (workers s)" "\<And>w. w < length (workers s) \<Longrightarrow> wm_tfq (workers s' ! w) = wm_tfq (workers s ! w)"
  shows "safe K rt x' hs s'"
proof -
  have k: "kind_of s' u = kind_of s u" for u by (simp add: kind_of_def assms(3))
  have "queue_ok rt x' s' fs = queue_ok rt x s fs" for fs by (rule queue_ok_cong) (simp_all add: k shared_def assms(5))
  moreover have "task_ok rt x' hs s' u f = task_ok rt x hs s u f" for u f
    by (simp add: task_ok_def assms(5) k split: task_kind.splits)
  ultimately show ?thesis using assms unfolding safe_def shared_def by simp
qed

lemma free_same:
  assumes "free rt x s t W" "tasks s' = tasks s" "grips x' s' = grips x s"
    "length (workers s') = length (workers s)" "\<And>w. w < length (workers s) \<Longrightarrow> wm_tfq (workers s' ! w) = wm_tfq (workers s ! w)"
  shows "free rt x' s' t W"
  using assms by (simp add: free_def shared_def updates_def)

lemma safe_log:
  assumes "safe K rt x hs s"
  shows "safe K rt x hs (add_log e s)"
proof -
  have "lf_inv (add_log e s)" using safeD(1) [OF assms] lf_inv_ctl [of "add_log e s" s] by simp
  from safe_same [OF assms this, of x] show ?thesis by simp (simp add: add_log_def)
qed

lemma free_log: "free rt x s t W \<Longrightarrow> free rt x (add_log e s) t W"
  by (erule free_same) (simp_all, simp_all add: add_log_def)

text \<open>
  A task that nothing has a grip on is armed, or a closure or event that has a grip on it is queued; then it need not be
  in hand. Closures are added to queues of workers in \<open>W\<close> only.
\<close>

lemma safe_grip:
  assumes "safe K rt x hs s" "free rt x s t W" "lf_inv s'" "grips x s' = grips x s + {#t#}"
    "next_tid s' = next_tid s" "length (workers s') = length (workers s)"
    "\<And>u. u \<noteq> t \<Longrightarrow> tasks s' u = tasks s u" "\<And>u. kind_of s' u = kind_of s u"
    "\<And>e'. tasks s' t = Some e' \<Longrightarrow> \<exists>e. tasks s t = Some e \<and> em_worker e' = em_worker e \<and>
      (em_watcher_initialized e' \<longrightarrow> em_kind e' = Io_task) \<and> em_auto_delete e' = em_auto_delete e"
    "\<And>v. v < length (workers s) \<Longrightarrow> v \<notin> W \<Longrightarrow> wm_tfq (workers s' ! v) = wm_tfq (workers s ! v)"
    "\<And>v. v < length (workers s) \<Longrightarrow> v \<in> W \<Longrightarrow> queue_ok rt x s' (wm_tfq (workers s' ! v))"
    "\<And>d. kind_of s t = Some (Cleanup_task d) \<Longrightarrow> kind_of s d = Some Io_task"
  shows "safe K rt x (hs - {t}) s'"
proof -
  have sh: "shared rt x s' d = shared rt x s d + (if d = rt t then 1 else 0)" for d by (simp add: shared_def assms(4))
  have f: "shared rt x s (rt t) = 0" "tasks s t \<noteq> None" "updates s (rt t) W" using assms(2) by (auto simp: free_def)
  have "shared rt x s' d \<le> 1" for d using sh safeD(5) [OF assms(1), of d] f(1) by auto
  moreover have "queue_ok rt x s' (wm_tfq (workers s' ! v))" if v: "v < length (workers s)" for v
  proof (cases "v \<in> W")
    case False
    have "queue_ok rt x s' (wm_tfq (workers s ! v)) = queue_ok rt x s (wm_tfq (workers s ! v))"
      by (rule queue_ok_cong) (use f(3) v False sh assms(8) in \<open>auto simp: updates_def\<close>)
    with safeD(7) [OF assms(1) v] assms(10) [OF v False] show ?thesis by simp
  qed (use v assms(11) in simp)
  moreover have "tasks s' u \<noteq> None" if "u \<in># grips x s'" for u
    using that safeD(4) [OF assms(1), of u] assms(4,8) f(2) by (auto simp: live_kind)
  moreover have "task_ok rt x (hs - {t}) s' u e'" if e': "tasks s' u = Some e'" for u e'
  proof (cases "u = t")
    case True
    with assms(9) e' obtain e where e: "tasks s t = Some e" "em_worker e' = em_worker e" "em_watcher_initialized e' \<longrightarrow> em_kind e' = Io_task"
      "em_auto_delete e' = em_auto_delete e" by blast
    have k: "em_kind e' = em_kind e" using assms(8) [of t] e(1) e' True by (simp add: kind_of_def)
    have "kind_of s' d = Some Io_task" if "em_kind e' = Cleanup_task d" for d
      using assms(8,12) [of d] that k e(1) by (simp add: kind_of_def)
    with safeD(6) [OF assms(1) e(1)] e k True assms(4) show ?thesis by (auto simp: task_ok_def split: task_kind.splits)
  next
    case False
    with assms(7) e' have "tasks s u = Some e'" by simp
    from safeD(6) [OF assms(1) this] False assms(4,8) show ?thesis by (auto simp: task_ok_def split: task_kind.splits)
  qed
  moreover have "tasks s' u = None \<and> rt u = u" if "next_tid s' \<le> u" for u
    using safeD(2,3) [OF assms(1), of u] that assms(5) assms(8) [of u] by (auto simp: kind_of_def)
  moreover have "u \<in># grips x s'" if "u \<in> K" for u using safeD(9) [OF assms(1) that] assms(4) by simp
  ultimately show ?thesis unfolding safe_def using assms(3,6) by simp
qed

text \<open>The tasks that do not share the grip stay free.\<close>

lemma free_grip:
  assumes "free rt x s u W'" "rt u \<noteq> rt t" "grips x s' = grips x s + {#t#}" "\<And>u. kind_of s' u = kind_of s u"
    "length (workers s') = length (workers s)"
    "\<And>v d. v < length (workers s) \<Longrightarrow> Update_io d \<in> set (wm_tfq (workers s' ! v)) \<Longrightarrow> Update_io d \<in> set (wm_tfq (workers s ! v))"
  shows "free rt x s' u W'"
  using assms by (auto simp: free_def shared_def updates_def live_kind)

lemma safe_arm:
  assumes "safe K rt x hs s" "free rt x s t {}" "tasks s t = Some e" "em_active e' \<noteq> None"
    "em_kind e' = em_kind e" "em_worker e' = em_worker e" "em_watcher_initialized e' \<longrightarrow> em_kind e' = Io_task"
    "em_auto_delete e' = em_auto_delete e" "\<And>d. em_kind e = Cleanup_task d \<Longrightarrow> kind_of s d = Some Io_task"
  shows "safe K rt x (hs - {t}) (s\<lparr>tasks := (tasks s)(t \<mapsto> e')\<rparr>)" "grips x (s\<lparr>tasks := (tasks s)(t \<mapsto> e')\<rparr>) = grips x s + {#t#}"
    "kind_of (s\<lparr>tasks := (tasks s)(t \<mapsto> e')\<rparr>) u = kind_of s u"
proof -
  let ?s = "s\<lparr>tasks := (tasks s)(t \<mapsto> e')\<rparr>"
  have t: "t < next_tid s" using safeD(8) [OF assms(1)] assms(3) by simp
  have "em_active e = None"
  proof (rule ccontr)
    assume "em_active e \<noteq> None"
    then have "t \<in># grips x s" using t assms(3) by (simp add: grips_def is_active_def)
    with assms(2) show False by (auto simp: free_def shared_zero)
  qed
  then show g: "grips x ?s = grips x s + {#t#}" using grips_arm [OF assms(3) t] assms(4) by simp
  show k: "kind_of ?s u = kind_of s u" for u using assms(3,5) by (simp add: kind_of_def)
  have "lf_inv ?s" using safeD(1) [OF assms(1)] lf_inv_ctl [of ?s s] by simp
  from safe_grip [OF assms(1,2) this g] k assms show "safe K rt x (hs - {t}) ?s" by (simp add: kind_of_def)
qed

lemma queue_ok_append:
  assumes "queue_ok rt x s fs" "shared rt x s (rt t) = 0"
    "grips x s' = grips x s + {#t#}" "\<And>u. kind_of s' u = kind_of s u" "grip f = Some t" "queue_ok rt x s [f]"
  shows "queue_ok rt x s' (fs @ [f])"
  using assms(1)
proof (induction fs)
  case Nil
  with assms(4-6) show ?case by (cases f) auto
next
  case (Cons g fs)
  have sh: "shared rt x s' u = shared rt x s u + (if u = rt t then 1 else 0)" for u using assms(3) by (simp add: shared_def)
  from Cons assms(4,5) sh show ?case by (cases g) auto
qed

text \<open>What \<^verbatim>\<open>async_call\<close> changes.\<close>

lemma async_call_changes:
  assumes "async_call w f s = Inr s'" 
  shows "w < length (workers s)" "tasks s' = tasks s" "kind_of s' u = kind_of s u" "next_tid s' = next_tid s" "length (workers s') = length (workers s)"
    "v < length (workers s) \<Longrightarrow> wm_tfq (workers s' ! v) = wm_tfq (workers s ! v) @ (if v = w then [f] else [])"
    "grips x s' = grips x s + grips_in [f]" "lf_inv s \<Longrightarrow> lf_inv s'"
proof -
  let ?s1 = "upd_worker w (\<lambda>k. k\<lparr>wm_tfq := wm_tfq k @ [f]\<rparr>) s"
  show w: "w < length (workers s)" using assms by (auto simp: async_call_def)
  have s': "s' = upd_worker w (\<lambda>k. k\<lparr>wm_async_sent := True\<rparr>) ?s1" using assms by (auto simp: async_call_def Let_def)
  have "grips x s' = grips x ?s1" unfolding s'
    by (rule grips_upd_worker_same) (simp add: worker_grips_def events_at_def)
  then show "grips x s' = grips x s + grips_in [f]" using grips_queue [OF w, of x f] by simp
  show "lf_inv s \<Longrightarrow> lf_inv s'" using lf_inv_ctl [OF ctl_async_call [OF assms]] by blast
qed (use assms in \<open>auto simp: async_call_def Let_def kind_of_def\<close>)

lemma safe_queue:
  assumes "safe K rt x hs s" "free rt x s t {w}" "async_call w f s = Inr s'" "grip f = Some t"
    "queue_ok rt x s [f]" "\<And>d. kind_of s t = Some (Cleanup_task d) \<Longrightarrow> kind_of s d = Some Io_task"
  shows "safe K rt x (hs - {t}) s'"
proof -
  note a = async_call_changes [OF assms(3)]
  have g: "grips x s' = grips x s + {#t#}" using a(7) assms(4) by simp
  have "queue_ok rt x s' (wm_tfq (workers s ! w) @ [f])"
    using safeD(7) [OF assms(1) a(1)] assms(2,4,5) g a(3) by (intro queue_ok_append [where t = t and s = s]) (auto simp: free_def)
  then show ?thesis
    using safeD(6) [OF assms(1)] assms(6) a by (intro safe_grip [OF assms(1,2) _ g]) (auto simp: task_ok_def safeD(1) [OF assms(1)])
qed

text \<open>An update is queued for a task that nothing has a grip on.\<close>

lemma queue_ok_snoc_update:
  assumes "queue_ok rt x s fs" "shared rt x s t = 0" "grips x s' = grips x s" "\<And>u. kind_of s' u = kind_of s u" "kind_of s t = Some Io_task"
  shows "queue_ok rt x s' (fs @ [Update_io t])"
  using assms(1)
proof (induction fs)
  case (Cons g fs)
  with assms(2-) show ?case by (cases g) (auto simp: shared_def)
qed (use assms in \<open>simp add: shared_def\<close>)

lemma safe_queue_update:
  assumes "safe K rt x hs s" "free rt x s t W" "w \<in> W" "async_call w (Update_io t) s = Inr s'" "kind_of s t = Some Io_task" "rt t = t"
  shows "safe K rt x hs s' \<and> free rt x s' t W"
proof
  note a = async_call_changes [OF assms(4)]
  have g: "grips x s' = grips x s" using a(7) by simp
  have q: "queue_ok rt x s' fs = queue_ok rt x s fs" for fs by (rule queue_ok_cong) (simp_all add: a(3) shared_def g)
  have "queue_ok rt x s' (wm_tfq (workers s' ! v))" if v: "v < length (workers s)" for v
  proof (cases "v = w")
    case True
    with safeD(7) [OF assms(1) v] a(3) g assms(2,5,6) a(6) [OF v] show ?thesis by (auto intro: queue_ok_snoc_update simp: free_def)
  next
    case False
    with safeD(7) [OF assms(1) v] a(6) [OF v] q show ?thesis by simp
  qed
  moreover have "task_ok rt x hs s' u f = task_ok rt x hs s u f" for u f by (simp add: task_ok_def g a(3) split: task_kind.splits)
  ultimately show "safe K rt x hs s'" using assms(1) a(8) unfolding safe_def shared_def by (simp add: g a(2,4,5))
  show "free rt x s' t W" using assms(2,3) a(2,5,6) by (auto simp: free_def shared_def updates_def g)
qed

text \<open>A grip is taken: a queued event, the first closure of a queue, or an armed watcher.\<close>

lemma safe_take:
  assumes "safe K rt x {} s" "lf_inv s'" "grips x s = grips x' s' + {#t#}"
    "next_tid s' = next_tid s" "length (workers s') = length (workers s)"
    "\<And>u. u \<noteq> t \<Longrightarrow> tasks s' u = tasks s u" "\<And>u. kind_of s' u = kind_of s u"
    "\<And>e'. tasks s' t = Some e' \<Longrightarrow> \<exists>e. tasks s t = Some e \<and> em_worker e' = em_worker e \<and>
      (em_watcher_initialized e' = em_watcher_initialized e) \<and> em_auto_delete e' = em_auto_delete e"
    "\<And>v. v < length (workers s) \<Longrightarrow> wm_tfq (workers s' ! v) \<in> {wm_tfq (workers s ! v), tl (wm_tfq (workers s ! v))}"
  shows "safe (K - {t}) rt x' {t} s'" "free rt x' s' t {}" "kind_of s' t = Some (Cleanup_task d) \<Longrightarrow> kind_of s' d = Some Io_task"
proof -
  have sh: "shared rt x s d = shared rt x' s' d + (if d = rt t then 1 else 0)" for d by (simp add: shared_def assms(3))
  have z: "shared rt x' s' (rt t) = 0" "shared rt x s (rt t) = 1" using sh [of "rt t"] safeD(5) [OF assms(1), of "rt t"] by auto
  have q: "queue_ok rt x s (wm_tfq (workers s' ! v))" if v: "v < length (workers s)" for v
    using safeD(7) [OF assms(1) v] assms(9) [OF v] queue_ok_tl by fastforce
  have u: "Update_io (rt t) \<notin> set (wm_tfq (workers s' ! v))" if v: "v < length (workers s)" for v
  proof
    assume "Update_io (rt t) \<in> set (wm_tfq (workers s' ! v))"
    from queue_ok_update [OF q [OF v] this] z have "0 < count (image_mset rt (grips_in (wm_tfq (workers s' ! v)))) (rt t)" by simp
    moreover have "grips_in (wm_tfq (workers s' ! v)) \<subseteq># grips x' s'"
      using worker_grips_sub [of v s' x'] v assms(5) by (metis mset_subset_eq_add_right subset_mset.order_trans worker_grips_def)
    ultimately have "0 < shared rt x' s' (rt t)" unfolding shared_def
      by (meson image_mset_subseteq_mono mset_subset_eq_count order_less_le_trans)
    with z show False by simp
  qed
  have "queue_ok rt x' s' (wm_tfq (workers s' ! v)) = queue_ok rt x s (wm_tfq (workers s' ! v))" if v: "v < length (workers s)" for v
    by (rule queue_ok_cong) (use u [OF v] sh assms(7) in auto)
  moreover have t: "tasks s t \<noteq> None" using safeD(4) [OF assms(1), of t] assms(3) by simp
  moreover have "tasks s' u \<noteq> None" if "u \<in># grips x' s'" for u
    using that safeD(4) [OF assms(1), of u] assms(3,7) by (auto simp: live_kind)
  moreover have "task_ok rt x' {t} s' u e'" if e': "tasks s' u = Some e'" for u e'
  proof (cases "u = t")
    case True
    with assms(8) e' obtain e where e: "tasks s t = Some e" "em_worker e' = em_worker e" "em_watcher_initialized e' = em_watcher_initialized e"
      "em_auto_delete e' = em_auto_delete e" by blast
    have k: "em_kind e' = em_kind e" using assms(7) [of t] e(1) e' True by (simp add: kind_of_def)
    with safeD(6) [OF assms(1) e(1)] e True show ?thesis by (auto simp: task_ok_def split: task_kind.splits)
  next
    case False
    with assms(6) e' have "tasks s u = Some e'" by simp
    from safeD(6) [OF assms(1) this] False assms(3,7) show ?thesis by (auto simp: task_ok_def split: task_kind.splits)
  qed
  moreover have "tasks s' u = None \<and> rt u = u" if "next_tid s' \<le> u" for u
    using safeD(2,3) [OF assms(1), of u] that assms(4) assms(7) [of u] by (auto simp: kind_of_def)
  moreover have "shared rt x' s' d \<le> 1" for d using sh safeD(5) [OF assms(1), of d] by auto
  moreover have "u \<in># grips x' s'" if "u \<in> K - {t}" for u using safeD(9) [OF assms(1), of u] that assms(3) by auto
  ultimately show "safe (K - {t}) rt x' {t} s'" unfolding safe_def using assms(2,5) q by simp
  show "free rt x' s' t {}" using t u z assms(5) assms(7) [of t] by (auto simp: free_def updates_def live_kind)
  show "kind_of s' d = Some Io_task" if "kind_of s' t = Some (Cleanup_task d)"
  proof -
    from that assms(7) [of t] have "kind_of s t = Some (Cleanup_task d)" by simp
    then obtain e where "tasks s t = Some e" "em_kind e = Cleanup_task d" by (auto simp: kind_of_def)
    with safeD(6) [OF assms(1) this(1)] show ?thesis using assms(7) by (auto simp: task_ok_def)
  qed
qed

text \<open>A task is deleted, another is made, and tasks leave the hand.\<close>

lemma safe_hand:
  assumes "safe K rt x hs s" "\<And>t e d. t \<in> hs \<Longrightarrow> t \<notin> hs' \<Longrightarrow> tasks s t = Some e \<Longrightarrow> em_kind e \<noteq> Cleanup_task d"
  shows "safe K rt x hs' s"
proof -
  have "task_ok rt x hs' s t e" if "tasks s t = Some e" for t e
    using safeD(6) [OF assms(1) that] assms(2) [OF _ _ that] by (auto simp: task_ok_def split: task_kind.splits)
  with assms(1) show ?thesis unfolding safe_def by simp
qed

lemma safe_delete:
  assumes "safe K rt x hs s" "tasks s t = Some e" "t \<notin># grips x s" "em_kind e = Io_task \<Longrightarrow> free rt x s t {}"
  shows "safe K rt x hs (delete_task t s)" "grips x (delete_task t s) = grips x s"
proof -
  let ?s = "delete_task t s"
  have s': "tasks ?s = (tasks s)(t := None)" "next_tid ?s = next_tid s" "workers ?s = workers s" by (simp_all add: delete_task_def add_log_def)
  have "t < next_tid s" using safeD(8) [OF assms(1)] assms(2) by simp
  then have "em_active e = None" using assms(2,3) by (auto simp: grips_def is_active_def)
  then show g: "grips x ?s = grips x s" by (rule grips_delete [OF assms(2)])
  have rt: "rt t = t" if "em_kind e = Io_task" using safeD(6) [OF assms(1,2)] that by (simp add: task_ok_def)
  have k: "kind_of ?s u = kind_of s u" if "u \<noteq> t" for u using that by (simp add: kind_of_def s')
  have "queue_ok rt x ?s (wm_tfq (workers s ! v)) = queue_ok rt x s (wm_tfq (workers s ! v))" if v: "v < length (workers s)" for v
  proof (rule queue_ok_cong)
    fix u
    assume u: "Update_io u \<in> set (wm_tfq (workers s ! v)) \<or> Dispose_io u \<in> set (wm_tfq (workers s ! v))"
    from queue_ok_kind [OF safeD(7) [OF assms(1) v] u] have "em_kind e = Io_task" if "u = t"
      using that assms(2) by (simp add: kind_of_def)
    with rt assms(4) u v have "u \<noteq> t" using queued_grip [OF v, of "Dispose_io t" t x] assms(3) by (auto simp: free_def updates_def)
    then show "kind_of ?s u = kind_of s u" by (rule k)
  qed (simp_all add: shared_def g)
  moreover have "task_ok rt x hs ?s u f" if f: "tasks s u = Some f" "u \<noteq> t" for u f
  proof -
    have "kind_of ?s d = Some Io_task" if d: "em_kind f = Cleanup_task d" "u \<in># grips x s" "kind_of s d = Some Io_task" "rt u = d" for d
    proof (cases "d = t")
      case True
      with d assms(2) rt have "free rt x s t {}" "rt t = t" using assms(4) by (auto simp: kind_of_def)
      with d True have False by (auto simp: free_def shared_zero)
      then show ?thesis ..
    qed (use d k in simp)
    with safeD(6) [OF assms(1) f(1)] show ?thesis by (auto simp: task_ok_def g split: task_kind.splits)
  qed
  moreover have "lf_inv ?s" using safeD(1) [OF assms(1)] lf_inv_ctl [of ?s s] by simp
  ultimately show "safe K rt x hs ?s"
    using assms(1,3) unfolding safe_def shared_def by (auto simp: g s')
qed

lemma free_delete:
  assumes "free rt x s u W" "grips x (delete_task t s) = grips x s" "u \<noteq> t"
  shows "free rt x (delete_task t s) u W"
  using assms by (simp add: free_def shared_def updates_def) (simp add: delete_task_def add_log_def)

lemma safe_new:
  assumes "safe K rt x hs s" "new_task e s = (t, s')" "em_active e = None" "em_worker e = None" "em_kind e \<noteq> Disk_task"
    "em_watcher_initialized e \<longrightarrow> em_kind e = Io_task" "\<And>d. em_kind e = Cleanup_task d \<Longrightarrow> t \<in> hs \<and> em_auto_delete e \<and> d < t"
  defines "r \<equiv> (case em_kind e of Cleanup_task d \<Rightarrow> d | _ \<Rightarrow> t)"
  shows "safe K (rt(t := r)) x hs s'" "shared (rt(t := r)) x s' d = shared rt x s d" "t \<notin># grips x s'"
    "updates s' d W = updates s d W"
proof -
  have t: "t = next_tid s" "tasks s' = (tasks s)(t \<mapsto> e)" "next_tid s' = Suc (next_tid s)" "workers s' = workers s"
    using assms(2) by (auto simp: new_task_def)
  have g: "grips x s' = grips x s" by (rule grips_new [OF assms(2,3)])
  have n: "tasks s t = None" using safeD(2) [OF assms(1)] t(1) by simp
  then have tg: "t \<notin># grips x s" using safeD(4) [OF assms(1), of t] by blast
  then show "t \<notin># grips x s'" by (simp add: g)
  have rt: "image_mset (rt(t := r)) (grips x s) = image_mset rt (grips x s)" using tg by (intro image_mset_cong) auto
  then show sh: "shared (rt(t := r)) x s' d = shared rt x s d" for d by (simp add: shared_def g)
  have k: "kind_of s' u = kind_of s u" if "u \<noteq> t" for u using that by (simp add: kind_of_def t)
  have "queue_ok (rt(t := r)) x s' (wm_tfq (workers s ! v)) = queue_ok rt x s (wm_tfq (workers s ! v))" if v: "v < length (workers s)" for v
  proof (rule queue_ok_cong)
    fix u
    assume u: "Update_io u \<in> set (wm_tfq (workers s ! v)) \<or> Dispose_io u \<in> set (wm_tfq (workers s ! v))"
    from queue_ok_kind [OF safeD(7) [OF assms(1) v] u] n have "u \<noteq> t" by (auto simp: kind_of_def)
    then show "kind_of s' u = kind_of s u" by (rule k)
  next
    show "(rt(t := r)) u = rt u" if "f \<in> set (wm_tfq (workers s ! v))" "grip f = Some u" for f u
      using queued_grip [OF v that, of x] tg by auto
  qed (rule sh)
  moreover have "task_ok (rt(t := r)) x hs s' u f" if f: "tasks s u = Some f" for u f
    using safeD(6) [OF assms(1) f] f n k by (auto simp: task_ok_def g kind_of_def t(2) split: task_kind.splits)
  moreover have "task_ok (rt(t := r)) x hs s' t e" using assms(3-7) by (auto simp: task_ok_def r_def split: task_kind.splits)
  moreover have "lf_inv s'" using safeD(1) [OF assms(1)] lf_inv_ctl [OF ctl_new_task [OF assms(2)]] by blast
  ultimately show "safe K (rt(t := r)) x hs s'"
    using assms(1) sh unfolding safe_def by (auto simp: g t)
  show "updates s' d W = updates s d W" by (simp add: updates_def t)
qed

text \<open>A root was made no later than the tasks that have it, so a new task is free.\<close>

lemma root_le: "safe K rt x hs s \<Longrightarrow> tasks s t \<noteq> None \<Longrightarrow> rt t \<le> t"
  using safeD(6) [of K rt x hs s t] by (auto simp: task_ok_def split: task_kind.splits)

lemma free_new:
  assumes "safe K rt x hs s" "new_task e s = (t, s')" "em_active e = None" "rt t = t"
  shows "free rt x s' t {}"
proof -
  have t: "t = next_tid s" "tasks s' = (tasks s)(t \<mapsto> e)" "workers s' = workers s" using assms(2) by (auto simp: new_task_def)
  have "rt u \<noteq> t" if "u \<in># grips x s'" for u
    using that safeD(4,8) [OF assms(1), of u] root_le [OF assms(1), of u] t(1) grips_new [OF assms(2,3), of x] by fastforce
  moreover have "Update_io t \<notin> set (wm_tfq (workers s ! v))" if v: "v < length (workers s)" for v
    using queue_ok_kind [OF safeD(7) [OF assms(1) v], of t] safeD(2) [OF assms(1), of t] t(1) by (auto simp: kind_of_def)
  ultimately show ?thesis using assms(4) by (auto simp: free_def shared_zero updates_def t)
qed

end
