(* ===== verification/Task_Safety.thy ===== *)
theory Task_Safety
  imports Task_Grips
begin

text \<open>
  The operations of the task system keep the grips of \<open>Task_Grips\<close> in order and never touch a deleted task, in single loop
  mode, whatever the order of the steps of the threads. The specification of an operation is of the form
  \<open>safely r Q\<close>: it does not fail with \<open>Memory\<close>, and where it returns, \<open>Q\<close> holds.
\<close>

section \<open>Safe results\<close>

definition safely :: "'a result \<Rightarrow> ('a \<Rightarrow> bool) \<Rightarrow> bool" where
  "safely r Q \<longleftrightarrow> (case r of Inl e \<Rightarrow> e \<noteq> Memory | Inr a \<Rightarrow> Q a)"

lemma safely_simps [simp]:
  "safely (Inr a) Q \<longleftrightarrow> Q a" "safely (Inl e) Q \<longleftrightarrow> e \<noteq> Memory" "safely (assert_that b) R \<longleftrightarrow> (b \<longrightarrow> R ())"
  by (simp_all add: safely_def assert_that_def)

lemma safely_bind:
  "safely r P \<Longrightarrow> (\<And>a. r = Inr a \<Longrightarrow> P a \<Longrightarrow> safely (f a) Q) \<Longrightarrow> safely (rbind r f) Q"
  by (auto simp: safely_def split: sum.splits)

lemma safely_mono: "safely r P \<Longrightarrow> (\<And>a. r = Inr a \<Longrightarrow> P a \<Longrightarrow> Q a) \<Longrightarrow> safely r Q"
  by (auto simp: safely_def split: sum.splits)

lemma safely_task: "tasks s t = Some e \<Longrightarrow> safely (f e) Q \<Longrightarrow> safely (rbind (task_of s t) f) Q"
  by (simp add: task_of_def)

lemma safely_assert: "(b \<Longrightarrow> safely (f ()) Q) \<Longrightarrow> safely (rbind (assert_that b) f) Q"
  by (cases b) auto

lemma safely_fails: "safely r Q \<Longrightarrow> r \<noteq> Inl Memory"
  by auto

section \<open>A task in hand\<close>

text \<open>
  The workers whose queue the code at hand adds to: none for the leader, which executes at once. A task is held by the
  thread \<open>cur\<close> that acts for worker \<open>w\<close>: nothing has a grip on it, and updates of it wait in that queue only.
\<close>

definition waits :: "wid option \<Rightarrow> wid \<Rightarrow> sys \<Rightarrow> wid set" where
  "waits cur w s = (if wm_leader (workers s ! w) \<and> cur = Some w then {} else {w})"

definition serves :: "wid option \<Rightarrow> wid \<Rightarrow> sys \<Rightarrow> bool" where
  "serves cur w s \<longleftrightarrow> w < length (workers s) \<and> (cur = Some w \<or> cur = None \<and> w = dm_last_worker_id s)"

definition disposable_lives :: "task_kind \<Rightarrow> sys \<Rightarrow> bool" where
  "disposable_lives k s \<longleftrightarrow> (\<forall>d. k = Cleanup_task d \<longrightarrow> kind_of s d = Some Io_task)"

definition held :: "tid set \<Rightarrow> (tid \<Rightarrow> tid) \<Rightarrow> wid option \<Rightarrow> wid option \<Rightarrow> wid \<Rightarrow> tid \<Rightarrow> task_kind \<Rightarrow> sys \<Rightarrow> bool" where
  "held K rt x cur w t k s \<longleftrightarrow> safe K rt x {t} s \<and> free rt x s t (waits cur w s) \<and> serves cur w s \<and>
     kind_of s t = Some k \<and> disposable_lives k s"

lemma waits_ctl: "ctl s' = ctl s \<Longrightarrow> w < length (workers s) \<Longrightarrow> waits cur w s' = waits cur w s"
  using core_eqD [OF ctl_eqD(8)] by (metis waits_def)

lemma serves_ctl: "ctl s' = ctl s \<Longrightarrow> serves cur w s \<Longrightarrow> serves cur w s'"
  using ctl_eqD(4,7) [of s' s] by (simp add: serves_def)

lemma heldD:
  assumes "held K rt x cur w t k s"
  shows "safe K rt x {t} s" "free rt x s t (waits cur w s)" "serves cur w s" "disposable_lives k s" "w < length (workers s)"
    "\<exists>e. tasks s t = Some e \<and> em_kind e = k" "lf_inv s" "kind_of s t = Some k" "t \<notin># grips x s"
    "shared rt x s (rt t) = 0"
proof -
  show 1: "safe K rt x {t} s" "free rt x s t (waits cur w s)" "serves cur w s" "disposable_lives k s" "kind_of s t = Some k"
    using assms by (auto simp: held_def)
  then show "w < length (workers s)" "\<exists>e. tasks s t = Some e \<and> em_kind e = k" "lf_inv s"
    "t \<notin># grips x s" "shared rt x s (rt t) = 0"
    using safeD(1) [OF 1(1)] by (auto simp: serves_def kind_of_def free_def shared_zero)
qed

lemma heldE:
  assumes "held K rt x cur w t k s"
  obtains e where "tasks s t = Some e" "em_kind e = k" "task_ok rt x {t} s t e"
  using heldD(6) [OF assms] safeD(6) [OF heldD(1) [OF assms]] by blast

text \<open>The fields that may be written freely.\<close>

definition mild :: "etask \<Rightarrow> etask \<Rightarrow> bool" where
  "mild e e' \<longleftrightarrow> em_kind e' = em_kind e \<and> em_worker e' = em_worker e \<and> (em_active e' = None \<longleftrightarrow> em_active e = None) \<and>
     (em_watcher_initialized e' \<longrightarrow> em_watcher_initialized e \<or> em_kind e = Io_task) \<and>
     (em_auto_delete e' = em_auto_delete e \<or> em_kind e \<in> {Io_task, Timer_task})"

lemma held_write:
  assumes "held K rt x cur w t k s" "tasks s t = Some e" "mild e e'"
  shows "held K rt x cur w t k (s\<lparr>tasks := (tasks s)(t \<mapsto> e')\<rparr>)"
proof -
  let ?s = "s\<lparr>tasks := (tasks s)(t \<mapsto> e')\<rparr>"
  note h = heldD [OF assms(1)]
  have c: "ctl ?s = ctl s" by simp
  have "task_ok rt x {t} s t e" by (rule safeD(6) [OF h(1) assms(2)])
  then have "safe K rt x {t} ?s" using assms(3)
    by (intro safe_write [OF h(1) assms(2)]) (auto simp: mild_def task_ok_def split: task_kind.splits)
  moreover have "free rt x ?s t (waits cur w s)" using assms(3) by (intro free_write [OF h(2) assms(2)]) (simp add: mild_def)
  moreover have "kind_of ?s u = kind_of s u" for u using assms(2,3) by (simp add: kind_of_def mild_def)
  ultimately show ?thesis using h(3,4,8) waits_ctl [OF c h(5)] serves_ctl [OF c] by (simp add: held_def disposable_lives_def)
qed

lemma held_upd:
  assumes "held K rt x cur w t k s" "\<And>e. em_kind e = k \<Longrightarrow> em_watcher_initialized e \<longrightarrow> k = Io_task \<Longrightarrow> mild e (f e)"
  shows "safely (upd_task t f s) (held K rt x cur w t k)"
proof -
  from assms(1) obtain e where e: "tasks s t = Some e" "em_kind e = k" "task_ok rt x {t} s t e" by (rule heldE)
  with assms(2) [of e] have "mild e (f e)" by (simp add: task_ok_def)
  from held_write [OF assms(1) e(1) this] e(1) show ?thesis by (simp add: upd_task_def task_of_def)
qed

lemma held_log:
  assumes "held K rt x cur w t k s"
  shows "held K rt x cur w t k (add_log e s)"
proof -
  have c: "ctl (add_log e s) = ctl s" by simp
  have "kind_of (add_log e s) u = kind_of s u" for u by (simp add: kind_of_def add_log_def)
  with heldD [OF assms] waits_ctl [OF c] serves_ctl [OF c] show ?thesis
    by (simp add: held_def disposable_lives_def safe_log free_log)
qed

text \<open>The finish and error callbacks are logged.\<close>

lemma fold_logs:
  assumes "P s" "\<And>e s. P s \<Longrightarrow> P (add_log e s)"
  shows "P (fold (run_finish_cb w) fs s)" "P (fold (run_error_cb w y) fs s)"
proof -
  have "P (run_finish_cb w f s)" "P (run_error_cb w y f s)" if "P s" for f s using assms(2) that by (cases f; simp)+
  with assms(1) show "P (fold (run_finish_cb w) fs s)" "P (fold (run_error_cb w y) fs s)" by (induction fs arbitrary: s) auto
qed

section \<open>Executing in the context of a worker\<close>

lemma async_call_ok: "lf_inv s \<Longrightarrow> w < length (workers s) \<Longrightarrow> \<exists>s'. async_call w f s = Inr s'"
  by (simp add: async_call_def worker_of_def loop_ptr_def lf_inv_def)

lemma in_ctx_eq:
  assumes "lf_inv s" "w < length (workers s)"
  shows "in_ctx cur w f s = (if waits cur w s = {} then run_func f 0 s else async_call w f s)"
  using leader_owner(1) [OF assms] assms(2)
  by (auto simp: in_ctx_def exec_in_worker_ctx_def worker_of_def waits_def map_sum_def id_def split: sum.splits)

text \<open>
  \<open>gripped\<close>: the task has been passed on, to libev or to a queue; other tasks in hand stay free.
\<close>

definition gripped :: "tid set \<Rightarrow> (tid \<Rightarrow> tid) \<Rightarrow> wid option \<Rightarrow> tid \<Rightarrow> sys \<Rightarrow> sys \<Rightarrow> bool" where
  "gripped K rt x t s s' \<longleftrightarrow> safe K rt x {} s' \<and> (\<forall>u. kind_of s' u = kind_of s u) \<and>
     (\<forall>u W. free rt x s u W \<longrightarrow> rt u \<noteq> rt t \<longrightarrow> free rt x s' u W)"

lemma gripped_arm:
  assumes "held K rt x cur w t k s" "waits cur w s = {}"
  shows "safely (ev_start t l s) (gripped K rt x t s)"
proof -
  from assms(1) obtain e where e: "tasks s t = Some e" "em_kind e = k" "task_ok rt x {t} s t e" by (rule heldE)
  note h = heldD [OF assms(1)]
  have a: "em_active e = None"
    using h(9) safeD(8) [OF h(1), of t] e(1) by (auto simp: grips_def is_active_def)
  let ?s = "s\<lparr>tasks := (tasks s)(t \<mapsto> e\<lparr>em_active := Some l\<rparr>)\<rparr>"
  have f: "free rt x s t {}" using h(2) assms(2) by simp
  have "safe K rt x ({t} - {t}) ?s \<and> grips x ?s = grips x s + {#t#} \<and> (\<forall>u. kind_of ?s u = kind_of s u)"
    using e h(4) by (intro conjI allI safe_arm [OF h(1) f e(1)]) (auto simp: task_ok_def disposable_lives_def)
  then have "gripped K rt x t s ?s" by (auto simp: gripped_def intro: free_grip)
  with e(1) a show ?thesis by (simp add: ev_start_def upd_task_def task_of_def)
qed

lemma gripped_queue:
  assumes "held K rt x cur w t k s" "waits cur w s = {w}" "grip f = Some t" "queue_ok rt x s [f]"
  shows "safely (async_call w f s) (gripped K rt x t s)"
proof -
  note h = heldD [OF assms(1)]
  obtain s' where s': "async_call w f s = Inr s'" using async_call_ok [OF h(7,5)] by blast
  note a = async_call_changes [OF s']
  have "safe K rt x ({t} - {t}) s'" using h(2,4,8) assms(2-)
    by (intro safe_queue [OF h(1) _ s']) (auto simp: disposable_lives_def)
  moreover have "free rt x s' u W" if "free rt x s u W" "rt u \<noteq> rt t" for u W
    using assms(3) a by (intro free_grip [OF that]) (auto split: if_splits)
  ultimately show ?thesis using a(3) s' by (simp add: gripped_def)
qed

lemma waits_cases: "waits cur w s = {} \<or> waits cur w s = {w}"
  by (simp add: waits_def)

lemma in_ctx_start:
  assumes "held K rt x cur w t k s" "f = Start_io t \<or> f = Start_timer t"
  shows "safely (in_ctx cur w f s) (gripped K rt x t s)"
  using waits_cases [of cur w s] gripped_arm [OF assms(1)] gripped_queue [OF assms(1), of f] assms(2)
    in_ctx_eq [OF heldD(7,5) [OF assms(1)], of cur f] by auto

lemma in_ctx_dispose:
  assumes "safe K rt x hs s" "free rt x s d (waits cur w s)" "w < length (workers s)" "kind_of s d = Some Io_task" "d \<notin> hs"
  shows "safely (in_ctx cur w (Dispose_io d) s) (\<lambda>s'. safe K rt x hs s' \<and>
    (\<forall>c. c \<noteq> d \<longrightarrow> tasks s' c = tasks s c \<and> count (grips x s') c = count (grips x s) c))"
proof (cases "waits cur w s = {}")
  case True
  obtain e where e: "tasks s d = Some e" "em_kind e = Io_task" using assms(4) by (auto simp: kind_of_def)
  have g: "d \<notin># grips x s" using assms(2) by (auto simp: free_def shared_zero)
  then have "em_active e = None" using safeD(8) [OF assms(1), of d] e(1) by (auto simp: grips_def is_active_def)
  with True e(1) in_ctx_eq [OF safeD(1) [OF assms(1)] assms(3)] have "in_ctx cur w (Dispose_io d) s = Inr (delete_task d s)"
    by (simp add: ev_stop_def task_of_def)
  moreover have "free rt x s d {}" using assms(2) True by simp
  ultimately show ?thesis using safe_delete [OF assms(1) e(1) g] by (simp add: delete_task_def add_log_def)
next
  case False
  then have w: "waits cur w s = {w}" using waits_cases by blast
  obtain s' where s': "async_call w (Dispose_io d) s = Inr s'" using async_call_ok [OF safeD(1) [OF assms(1)] assms(3)] by blast
  note a = async_call_changes [OF s']
  have "safe K rt x (hs - {d}) s'" using assms(2,4) w by (intro safe_queue [OF assms(1) _ s']) auto
  with assms(5) a(2,7) False in_ctx_eq [OF safeD(1) [OF assms(1)] assms(3)] s' show ?thesis by simp
qed

lemma in_ctx_update:
  assumes "held K rt x cur w t Io_task s"
  shows "safely (in_ctx cur w (Update_io t) s) (held K rt x cur w t Io_task)"
proof (cases "waits cur w s = {}")
  case True
  have "safely (update_io t 0 s) (held K rt x cur w t Io_task)"
    unfolding update_io_def by (rule held_upd [OF assms]) (simp add: mild_def)
  with True in_ctx_eq [OF heldD(7,5) [OF assms]] show ?thesis by simp
next
  case False
  note h = heldD [OF assms]
  from False have w: "waits cur w s = {w}" using waits_cases by blast
  obtain s' where s': "async_call w (Update_io t) s = Inr s'" using async_call_ok [OF h(7,5)] by blast
  have c: "ctl s' = ctl s" by (rule ctl_async_call [OF s'])
  have "rt t = t" using assms by (rule heldE) (simp add: task_ok_def)
  with safe_queue_update [OF h(1,2) _ s' h(8)] w have "safe K rt x {t} s' \<and> free rt x s' t {w}" by simp
  with w h(3,8) waits_ctl [OF c h(5)] serves_ctl [OF c h(3)] async_call_changes(3) [OF s'] have "held K rt x cur w t Io_task s'"
    by (simp add: held_def disposable_lives_def)
  with False in_ctx_eq [OF h(7,5)] s' show ?thesis by simp
qed

section \<open>Watcher methods, adding and removing\<close>

lemma update_watcher_held:
  assumes "held K rt x cur w t k s"
  shows "safely (update_watcher cur w t s) (held K rt x cur w t k)"
proof -
  from assms obtain e where e: "tasks s t = Some e" "em_kind e = k" "task_ok rt x {t} s t e" by (rule heldE)
  have "safely (rbind (in_ctx cur w (Update_io t) s) (upd_task t (\<lambda>e. e\<lparr>em_change_pending := False\<rparr>))) (held K rt x cur w t k)"
    if "em_watcher_initialized e"
    using that e(2,3) assms in_ctx_update
    by (intro safely_bind [of _ "held K rt x cur w t k"] held_upd) (auto simp: mild_def task_ok_def)
  then show ?thesis unfolding update_watcher_def using assms by (intro safely_task [OF e(1)] safely_assert) simp
qed

lemma init_watcher_held:
  assumes "held K rt x cur w t k s"
  shows "safely (init_watcher t s) (held K rt x cur w t k)"
proof -
  from assms obtain e where e: "tasks s t = Some e" "em_kind e = k" by (rule heldE)
  have "safely (upd_task t (\<lambda>e. e\<lparr>em_watch := (em_fd e, em_events e), em_watcher_initialized := True\<rparr>) s) (held K rt x cur w t k)"
    if "k = Io_task" using that by (intro held_upd [OF assms]) (simp add: mild_def)
  with assms e show ?thesis unfolding init_watcher_def by (intro safely_task [OF e(1)]) auto
qed

lemma assign_worker_single: "lf_inv s \<Longrightarrow> assign_worker w t s = Inr s"
  by (simp add: assign_worker_def lf_inv_def)

lemma start_armed_grips:
  assumes "held K rt x cur w t k s"
  shows "safely (start_armed cur w t s) (gripped K rt x t s)"
proof -
  from assms obtain e where e: "tasks s t = Some e" "em_kind e = k" "task_ok rt x {t} s t e" by (rule heldE)
  have "safely (io_start_watcher cur w t s) (gripped K rt x t s)"
    unfolding io_start_watcher_def using in_ctx_start [OF assms] by (intro safely_task [OF e(1)] safely_assert) simp
  with e(2,3) in_ctx_start [OF assms] show ?thesis
    unfolding start_armed_def by (intro safely_task [OF e(1)]) (auto simp: task_ok_def split: task_kind.splits)
qed

lemma gripped_safe: "safely r (gripped K rt x t s) \<Longrightarrow> safely r (\<lambda>s'. \<exists>rt. safe K rt x {} s')"
  by (erule safely_mono) (auto simp: gripped_def)

text \<open>\<^verbatim>\<open>net_io_task::add_task\<close>: the watcher is set up and started in one closure.\<close>

lemma setup_grips:
  assumes "held K rt x cur w t k s" "waits cur w s = {}"
  shows "safely (run_func (Add_net v t) l s) (gripped K rt x t s)"
proof -
  from assms obtain e where e: "tasks s t = Some e" "em_kind e = k" by (blast elim: heldE)
  have "safely (rbind (assign_worker v t s1) (ev_start t l)) (gripped K rt x t s)"
    if s1: "init_watcher t s = Inr s1" "held K rt x cur w t k s1" for s1
  proof -
    have "waits cur w s1 = {}" using assms(2) waits_ctl [OF ctl_init_watcher [OF s1(1)] heldD(5) [OF assms(1)]] by simp
    from gripped_arm [OF s1(2) this] have g: "safely (ev_start t l s1) (gripped K rt x t s1)" .
    have k: "kind_of s1 u = kind_of s u" for u
      using s1(1) e(1) by (auto simp: init_watcher_def upd_task_def kind_of_def split: if_splits)
    have "free rt x s1 u W" if "free rt x s u W" for u W
      using s1(1) that free_write [OF that e(1)] e(1) by (auto simp: init_watcher_def upd_task_def split: if_splits)
    with k have "gripped K rt x t s s2" if "gripped K rt x t s1 s2" for s2 using that by (simp add: gripped_def)
    with safely_mono [OF g] assign_worker_single [OF heldD(7) [OF s1(2)]] show ?thesis by simp
  qed
  from safely_bind [OF init_watcher_held [OF assms(1)] this] show ?thesis by simp
qed

lemma net_add_task_grips:
  assumes "held K rt x cur w t k s"
  shows "safely (net_add_task cur w t s) (gripped K rt x t s)"
  using waits_cases [of cur w s] setup_grips [OF assms] gripped_queue [OF assms, of "Add_net w t"]
    in_ctx_eq [OF heldD(7,5) [OF assms], of cur "Add_net w t"] by (auto simp: net_add_task_def simp del: run_func.simps)

lemma get_worker_single:
  assumes "safe K rt x hs s" "serves cur w s" "tasks s t = Some e"
  shows "get_worker_by_task cur t s = Inr (w, s)"
  using safeD(1,6) [OF assms(1)] assms(2,3)
  by (auto simp: get_worker_by_task_def task_of_def worker_of_def serves_def task_ok_def lf_inv_def)

lemma dispose_later_safe:
  assumes "held K rt x cur w t Io_task s"
  shows "safely (dispose_later cur w t s) (\<lambda>s'. \<exists>rt. safe K rt x {} s')"
proof -
  from assms obtain e where e: "tasks s t = Some e" "em_kind e = Io_task" "task_ok rt x {t} s t e" by (rule heldE)
  note h = heldD [OF assms]
  obtain c s1 where n: "new_task (cleanup_task_new t) s = (c, s1)" by fastforce
  have t: "t < c" using safeD(8) [OF h(1), of t] e(1) n by (auto simp: new_task_def)
  have ct: "ctl s1 = ctl s" by (rule ctl_new_task [OF n])
  have "safe K rt x {c} s" using e by (intro safe_hand [OF h(1)]) auto
  from safe_new [OF this n] t have s1: "safe K (rt(c := t)) x {c} s1" "shared (rt(c := t)) x s1 d = shared rt x s d"
    "updates s1 d W = updates s d W" for d W
    by (simp_all add: cleanup_task_new_def timer_task_new_def event_task_new_def)
  have "kind_of s1 c = Some (Cleanup_task t)" "kind_of s1 t = Some Io_task" "tasks s1 c \<noteq> None"
    using n h(8) t by (auto simp: new_task_def kind_of_def cleanup_task_new_def timer_task_new_def event_task_new_def)
  with s1 h(2) e(2,3) serves_ctl [OF ct h(3)] waits_ctl [OF ct h(5)]
  have "held K (rt(c := t)) x cur w c (Cleanup_task t) s1" by (simp add: held_def disposable_lives_def free_def task_ok_def)
  then show ?thesis unfolding dispose_later_def n
    by (auto intro!: safely_bind [OF init_watcher_held] gripped_safe [OF start_armed_grips] simp: assign_worker_single heldD(7))
qed

lemma remove_event_task_safe:
  assumes "held K rt x cur w t k s \<or> k \<noteq> Io_task \<and> safe K rt x {t} s \<and> t \<notin># grips x s \<and> kind_of s t = Some k"
  shows "safely (remove_event_task cur t s) (\<lambda>s'. \<exists>rt. safe K rt x {} s')"
proof (cases "k = Io_task")
  case True
  with assms have h: "held K rt x cur w t Io_task s" by simp
  from h obtain e where e: "tasks s t = Some e" "em_kind e = Io_task" "task_ok rt x {t} s t e" by (rule heldE)
  have "safe K rt x {} s" using e by (intro safe_hand [OF heldD(1) [OF h]]) auto
  from in_ctx_dispose [OF this heldD(2,5,8) [OF h]] have d: "safely (io_dispose cur w t s) (\<lambda>s'. \<exists>rt. safe K rt x {} s')"
    unfolding io_dispose_def by simp (erule safely_mono, blast)
  show ?thesis unfolding remove_event_task_def
    using e(2) d dispose_later_safe [OF h] get_worker_single [OF heldD(1,3) [OF h] e(1)]
    by (intro safely_task [OF e(1)]) (simp add: is_disposable_def)
next
  case False
  with assms heldD [of K rt x cur w t k s] have h: "safe K rt x {t} s" "t \<notin># grips x s" "kind_of s t = Some k" by blast+
  then obtain e where e: "tasks s t = Some e" "em_kind e = k" by (auto simp: kind_of_def)
  from safe_delete [OF h(1) e(1) h(2)] e(2) False have "safe K rt x {t} (delete_task t s)" by simp
  then have "safe K rt x {} (delete_task t s)" by (rule safe_hand) (auto simp: delete_task_def add_log_def)
  with e False show ?thesis unfolding remove_event_task_def by (intro safely_task [OF e(1)]) (auto simp: is_disposable_def)
qed

section \<open>Handlers\<close>

text \<open>User code that does not send the response of an asynchronous service from its handler.\<close>

definition calm :: "handler \<Rightarrow> bool" where
  "calm H \<longleftrightarrow> (\<forall>t r s. Finish_response \<notin> set (fst (H t r s)))"

text \<open>A new task is held by the thread that made it.\<close>

lemma held_new:
  assumes "safe K rt x {} s" "new_task e s = (c, s1)" "em_active e = None" "em_worker e = None" "em_kind e \<in> {Io_task, Timer_task}"
    "em_watcher_initialized e \<longrightarrow> em_kind e = Io_task" "serves cur w s"
  shows "held K rt x cur w c (em_kind e) s1"
    "tasks s t \<noteq> None \<Longrightarrow> kind_of s1 t = kind_of s t \<and> rt t \<noteq> rt c \<and> (free rt x s t W \<longrightarrow> free rt x s1 t W)"
proof -
  have c: "c = next_tid s" "tasks s1 = (tasks s)(c \<mapsto> e)" "rt c = c"
    using assms(2) safeD(3) [OF assms(1)] by (auto simp: new_task_def)
  have r: "(case em_kind e of Cleanup_task d \<Rightarrow> d | _ \<Rightarrow> c) = c" "em_kind e \<noteq> Disk_task" "em_kind e \<noteq> Cleanup_task d" for d
    using assms(5) by (auto split: task_kind.splits)
  have rt: "rt(c := c) = rt" using c(3) by (metis fun_upd_triv)
  note s1 = safe_new [OF assms(1,2,3,4) r(2) assms(6), unfolded r(1) rt, simplified r(3), simplified]
  have "safe K rt x {c} s1" by (rule safe_hand [OF s1(1)]) simp
  moreover have "free rt x s1 c (waits cur w s1)" using free_new [OF assms(1,2,3) c(3)] by (auto simp: free_def updates_def)
  ultimately show "held K rt x cur w c (em_kind e) s1" using serves_ctl [OF ctl_new_task [OF assms(2)] assms(7)] c(2) r(3)
    by (simp add: held_def disposable_lives_def kind_of_def)
  show "kind_of s1 t = kind_of s t \<and> rt t \<noteq> rt c \<and> (free rt x s t W \<longrightarrow> free rt x s1 t W)" if "tasks s t \<noteq> None"
  proof -
    have "t < c" using safeD(8) [OF assms(1) that] c(1) by simp
    moreover have "rt t \<le> t" by (rule root_le [OF assms(1) that])
    ultimately show ?thesis using s1(2,4) c(2,3) by (simp add: free_def kind_of_def)
  qed
qed

lemma net_io_task_new_fields:
  "em_active (net_io_task_new fd events) = None" "em_worker (net_io_task_new fd events) = None" "em_kind (net_io_task_new fd events) = Io_task"
  by (simp_all add: net_io_task_new_def io_task_base_new_def event_task_new_def Let_def)

lemma spawn_held:
  assumes "held K rt x cur w t k s" "k \<in> {Io_task, Timer_task}"
  shows "safely (perform cur w t (Spawn fd events) s) (held K rt x cur w t k)"
proof -
  from assms(1) obtain e where e: "tasks s t = Some e" "em_kind e = k" by (rule heldE)
  note h = heldD [OF assms(1)]
  obtain c s1 where n: "new_task (net_io_task_new fd events) s = (c, s1)" by fastforce
  have s: "safe K rt x {} s" using e assms(2) by (intro safe_hand [OF h(1)]) auto
  have new: "held K rt x cur w c Io_task s1" "tasks s t \<noteq> None \<Longrightarrow> kind_of s1 t = kind_of s t \<and> rt t \<noteq> rt c \<and> (free rt x s t W \<longrightarrow> free rt x s1 t W)" for t W
    using held_new [OF s n _ _ _ _ h(3)] net_io_task_new_fields [of fd events] by simp_all
  from net_add_task_grips [OF new(1)] show ?thesis unfolding perform.simps n Let_def prod.case
  proof (rule safely_mono)
    fix s'
    assume s': "net_add_task cur w c s1 = Inr s'" "gripped K rt x c s1 s'"
    have ct': "ctl s' = ctl s" using s'(1) ctl_new_task [OF n] by (auto simp: net_add_task_def dest!: frame)
    have "free rt x s' t (waits cur w s)" "safe K rt x {} s'" "kind_of s' t = Some k"
      using s'(2) new(2) [of t "waits cur w s"] e(1) h(2,8) by (auto simp: gripped_def)
    moreover have "safe K rt x {t} s'" by (rule safe_hand [OF calculation(2)]) simp
    ultimately show "held K rt x cur w t k s'" using waits_ctl [OF ct' h(5)] serves_ctl [OF ct' h(3)] assms(2)
      by (auto simp: held_def disposable_lives_def)
  qed
qed

lemma perform_held:
  assumes "held K rt x cur w t k s" "k \<in> {Io_task, Timer_task}" "a \<noteq> Finish_response"
  shows "safely (perform cur w t a s) (held K rt x cur w t k)"
proof (cases a)
  case (Spawn fd events)
  with spawn_held [OF assms(1,2)] show ?thesis by simp
qed (use assms in \<open>auto intro!: held_upd update_watcher_held simp: set_events_def mild_def set_exception_def disable_dispose_def
    enable_dispose_def disable_auto_delete_def on_finish_def on_error_def\<close>)

lemma perform_all_held:
  assumes "held K rt x cur w t k s" "k \<in> {Io_task, Timer_task}" "Finish_response \<notin> set as"
  shows "safely (perform_all cur w t as s) (held K rt x cur w t k)"
  using assms by (induction as arbitrary: s) (auto intro: safely_bind perform_held)

text \<open>After its handler a task is still held, or it is a cleanup task that has passed its disposable on.\<close>

definition handled :: "tid set \<Rightarrow> (tid \<Rightarrow> tid) \<Rightarrow> wid option \<Rightarrow> wid option \<Rightarrow> wid \<Rightarrow> tid \<Rightarrow> task_kind \<Rightarrow> bool \<Rightarrow> sys \<Rightarrow> bool" where
  "handled K rt x cur w t k c s \<longleftrightarrow> held K rt x cur w t k s \<or>
     \<not> c \<and> (\<exists>d. k = Cleanup_task d) \<and> safe K rt x {t} s \<and> t \<notin># grips x s \<and> kind_of s t = Some k"

lemma cleanup_handled:
  assumes "held K rt x cur w t (Cleanup_task d) s"
  shows "safely (cleanup_handle_event cur w d s) (\<lambda>(c, s'). handled K rt x cur w t (Cleanup_task d) c s')"
proof -
  note h = heldD [OF assms]
  from assms obtain e where e: "tasks s t = Some e" "em_kind e = Cleanup_task d" "task_ok rt x {t} s t e" by (rule heldE)
  obtain de where de: "tasks s d = Some de" "em_kind de = Io_task" using h(4) by (auto simp: disposable_lives_def kind_of_def)
  have rt: "rt d = d" "rt t = d" "d \<noteq> t" using safeD(6) [OF h(1) de(1)] de(2) e(2,3) by (auto simp: task_ok_def)
  then have "free rt x s d (waits cur w s)" using h(2) de(1) by (simp add: free_def)
  from in_ctx_dispose [OF h(1) this h(5)] de rt have "safely (io_dispose cur w d s) (\<lambda>s'. safe K rt x {t} s' \<and>
      (\<forall>c. c \<noteq> d \<longrightarrow> tasks s' c = tasks s c \<and> count (grips x s') c = count (grips x s) c))"
    by (simp add: io_dispose_def kind_of_def)
  then have "safely (io_dispose cur w d s) (\<lambda>s'. handled K rt x cur w t (Cleanup_task d) False s')"
  proof (rule safely_mono)
    fix s'
    assume s': "safe K rt x {t} s' \<and> (\<forall>c. c \<noteq> d \<longrightarrow> tasks s' c = tasks s c \<and> count (grips x s') c = count (grips x s) c)"
    then have "count (grips x s') t = 0" "kind_of s' t = kind_of s t" using h(9) rt(3) by (auto simp: count_eq_zero_iff kind_of_def)
    with s' h(8) show "handled K rt x cur w t (Cleanup_task d) False s'" by (auto simp: handled_def count_eq_zero_iff)
  qed
  with assms show ?thesis unfolding cleanup_handle_event_def
    by (intro safely_task [OF de(1)]) (auto intro: safely_bind simp: handled_def)
qed

lemma handle_event_handled:
  assumes "held K rt x cur w t k s" "calm H"
  shows "safely (handle_event H cur w t r s) (\<lambda>(c, s'). handled K rt x cur w t k c s')"
proof -
  from assms(1) obtain e where e: "tasks s t = Some e" "em_kind e = k" "task_ok rt x {t} s t e" by (rule heldE)
  let ?s = "add_log (Handled w t r) s"
  have h: "held K rt x cur w t k ?s" by (rule held_log [OF assms(1)])
  have "safely (case H t r ?s of (acts, c) \<Rightarrow> rbind (perform_all cur w t acts ?s) (\<lambda>s. Inr (c, s))) (\<lambda>(c, s'). handled K rt x cur w t k c s')"
    if k: "k \<in> {Io_task, Timer_task}"
  proof (cases "H t r ?s")
    case (Pair acts c)
    with assms(2) have "Finish_response \<notin> set acts" by (simp add: calm_def) (metis fst_conv)
    with Pair show ?thesis by (auto simp: handled_def intro!: safely_bind [OF perform_all_held [OF h k]])
  qed
  with e h show ?thesis unfolding handle_event_def Let_def
    by (intro safely_task [OF e(1)]) (auto simp: task_ok_def cleanup_handled split: task_kind.splits)
qed

lemma handled_log: "handled K rt x cur w t k c s \<Longrightarrow> handled K rt x cur w t k c (add_log e s)"
  unfolding handled_def by (auto intro: held_log safe_log) (simp add: kind_of_def add_log_def)

lemma handledE:
  assumes "handled K rt x cur w t k c s"
  obtains e where "tasks s t = Some e" "em_kind e = k" "task_ok rt x {t} s t e"
proof -
  have "safe K rt x {t} s" "kind_of s t = Some k" using assms heldD [of K rt x cur w t k s] by (auto simp: handled_def)
  with that safeD(6) [of K rt x "{t}" s t] show thesis by (auto simp: kind_of_def)
qed

text \<open>The task is deleted when its handler ends it, or else left alone.\<close>

lemma task_finish_safe:
  assumes "handled K rt x cur w t k False s"
  shows "safely (task_finish cur v t s) (\<lambda>s'. \<exists>rt. safe K rt x {} s')"
proof -
  from assms obtain e where e: "tasks s t = Some e" by (rule handledE)
  have "handled K rt x cur w t k False (fold (run_finish_cb v) (em_finish_funcs e) s)" by (rule fold_logs) (auto intro: assms handled_log)
  then have "safely (remove_event_task cur t (fold (run_finish_cb v) (em_finish_funcs e) s)) (\<lambda>s'. \<exists>rt. safe K rt x {} s')"
    by (intro remove_event_task_safe [where w = w and k = k and rt = rt]) (auto simp: handled_def)
  with e show ?thesis unfolding task_finish_def by (intro safely_task)
qed

lemma handled_left:
  assumes "handled K rt x cur w t k c s" "tasks s t = Some e" "\<not> em_auto_delete e"
  shows "safe K rt x {} s"
proof -
  have s: "safe K rt x {t} s" using assms(1) heldD(1) by (auto simp: handled_def)
  from safeD(6) [OF this assms(2)] assms(2,3) show ?thesis
    by (intro safe_hand [OF s]) (auto simp: task_ok_def split: task_kind.splits)
qed

lemma notify_handled:
  assumes "handled K rt x cur w t k c s" "tasks s t = Some e"
  shows "safely (if error e then notify_error v t s else Inr s) (\<lambda>s'. handled K rt x cur w t k c s' \<and> tasks s' t = Some e)"
proof -
  have "handled K rt x cur w t k c s' \<and> tasks s' t = Some e" if "s' = fold (run_error_cb v (m_exception e)) (em_error_funcs e) s" for s'
    unfolding that by (rule fold_logs) (auto simp: assms intro: handled_log, simp add: add_log_def)
  with assms show ?thesis by (simp add: notify_error_def task_of_def)
qed

lemma exec_handler_safe:
  assumes "held K rt x cur w (ev_task ev) k s" "calm H"
    "\<And>s. held K rt x cur w (ev_task ev) k s \<Longrightarrow> safely (start cur w (ev_task ev) s) (\<lambda>s'. \<exists>rt. safe K rt x {} s')"
  shows "safely (exec_handler start H cur w ev s) (\<lambda>s'. \<exists>rt. safe K rt x {} s')"
  unfolding exec_handler_def
proof (rule safely_bind [OF handle_event_handled [OF assms(1,2)]], clarify)
  fix c s1
  assume s1: "handled K rt x cur w (ev_task ev) k c s1"
  then obtain e where e: "tasks s1 (ev_task ev) = Some e" by (rule handledE)
  show "safely (rbind (task_of s1 (ev_task ev)) (\<lambda>e.
         rbind (if error e then notify_error (Some w) (ev_task ev) s1 else Inr s1) (\<lambda>s.
           if c then rbind (upd_task (ev_task ev) reset_error s) (start cur w (ev_task ev))
           else if em_auto_delete e then task_finish cur (Some w) (ev_task ev) s else Inr s)))
     (\<lambda>s'. \<exists>rt. safe K rt x {} s')"
  proof (rule safely_task [OF e], rule safely_bind [OF notify_handled [OF s1 e]])
    fix s2
    assume s2: "handled K rt x cur w (ev_task ev) k c s2 \<and> tasks s2 (ev_task ev) = Some e"
    have "safely (rbind (upd_task (ev_task ev) reset_error s2) (start cur w (ev_task ev))) (\<lambda>s'. \<exists>rt. safe K rt x {} s')" if c
      using s2 that assms(3) by (intro safely_bind [OF held_upd]) (auto simp: handled_def mild_def reset_error_def)
    with s2 task_finish_safe handled_left [of K rt x cur w "ev_task ev" k c s2 e] show "safely (if c then rbind (upd_task (ev_task ev) reset_error s2) (start cur w (ev_task ev))
         else if em_auto_delete e then task_finish cur (Some w) (ev_task ev) s2 else Inr s2) (\<lambda>s'. \<exists>rt. safe K rt x {} s')" by auto
  qed
qed

lemma start_watcher_safe:
  assumes "held K rt x cur w t k s" "calm H"
  shows "safely (start_watcher H cur w t s) (\<lambda>s'. \<exists>rt. safe K rt x {} s')"
proof -
  from assms(1) obtain e where e: "tasks s t = Some e" by (rule heldE)
  have "safely (rbind (upd_task t (\<lambda>e. e\<lparr>em_immediate := False\<rparr>) s)
      (exec_handler start_armed H cur w \<lparr>ev_task = t, ev_revents = 0\<rparr>)) (\<lambda>s'. \<exists>rt. safe K rt x {} s')"
    by (intro safely_bind [OF held_upd [OF assms(1)]] exec_handler_safe [where k = k] gripped_safe [OF start_armed_grips])
       (auto simp: mild_def assms(2))
  with gripped_safe [OF start_armed_grips [OF assms(1)]] show ?thesis
    unfolding start_watcher_def by (intro safely_task [OF e]) simp
qed

lemma exec_event_handler_safe:
  assumes "held K rt x cur w (ev_task ev) k s" "calm H"
  shows "safely (exec_event_handler H cur w ev s) (\<lambda>s'. \<exists>rt. safe K rt x {} s')"
  unfolding exec_event_handler_def using assms by (intro exec_handler_safe start_watcher_safe)

end
