(* ===== verification/Memory_Safety.thy ===== *)
theory Memory_Safety
  imports Task_Safety
begin

text \<open>
  The steps of the system in single loop mode: no step touches a task that was deleted, and none deletes a task whose
  watcher is armed.
\<close>

section \<open>Steps that leave tasks and queues alone\<close>

definition still :: "sys \<Rightarrow> sys \<Rightarrow> bool" where
  "still s s' \<longleftrightarrow> tasks s' = tasks s \<and> next_tid s' = next_tid s \<and> length (workers s') = length (workers s) \<and>
     (\<forall>w < length (workers s). wm_tfq (workers s' ! w) = wm_tfq (workers s ! w) \<and>
        wm_events_queue (workers s' ! w) = wm_events_queue (workers s ! w))"

lemma still_refl [simp]: "still s s"
  by (simp add: still_def)

lemma still_trans: "still s s1 \<Longrightarrow> still s1 s2 \<Longrightarrow> still s s2"
  by (simp add: still_def)

lemma still_upd:
  "(\<And>k. wm_tfq (f k) = wm_tfq k \<and> wm_events_queue (f k) = wm_events_queue k) \<Longrightarrow> still s s1 \<Longrightarrow> still s (upd_worker w f s1)"
  by (auto simp: still_def)

lemma still_sys:
  "still s (s1\<lparr>dm_workers_busy := B\<rparr>) = still s s1" "still s (s1\<lparr>dm_last_worker_id := i\<rparr>) = still s s1"
  "still s (s1\<lparr>userdata := u\<rparr>) = still s s1" "still s (s1\<lparr>dm_started := b\<rparr>) = still s s1" "still s (s1\<lparr>dm_term := b\<rparr>) = still s s1"
  by (simp_all add: still_def)

lemma still_set_pc: "still s s1 \<Longrightarrow> still s (set_pc p w s1)"
  unfolding set_pc_def by (rule still_upd) simp_all

lemma still_set_event_loop: "still s s1 \<Longrightarrow> still s (set_event_loop l w s1)"
  unfolding set_event_loop_def by (rule still_upd) (simp_all add: still_sys)

lemmas still_intros = still_refl still_upd still_set_pc still_set_event_loop

lemma grips_still:
  assumes "still s s'"
  shows "grips x s' = grips x s"
proof -
  have "is_active s' = is_active s" using assms by (auto simp: still_def is_active_def)
  with assms show ?thesis by (auto simp: grips_def still_def worker_grips_def events_at_def intro!: sum.cong)
qed

lemma safe_still: "safe K rt x hs s \<Longrightarrow> lf_inv s' \<Longrightarrow> still s s' \<Longrightarrow> safe K rt x hs s'"
  by (rule safe_same [where s = s and x = x]) (simp_all add: grips_still, simp_all add: still_def)

text \<open>They do not fail for want of memory.\<close>

lemma mark_free_safe:
  assumes "lf_inv s" "w < length (workers s)"
  shows "safely (mark_free w s) (still s)"
proof -
  have "bitset_ok (dm_workers_busy s)" "w < m_bits (dm_workers_busy s)" "m_run_mode s = SINGLE_LOOP"
    using assms by (simp_all add: lf_inv_def)
  with bs.mark_law [of "dm_workers_busy s" w] show ?thesis by (auto simp: mark_free_def add_free_worker_def still_sys)
qed

lemma promote_claim_safe:
  assumes "lf_inv s" "w < length (workers s)"
  shows "safely (promote_claim w s) (still s)"
proof -
  have ok: "bitset_ok (dm_workers_busy s)" "dm_last_worker_id s < m_bits (dm_workers_busy s)" "m_run_mode s = SINGLE_LOOP"
    using assms by (auto simp: lf_inv_def)
  from bs.pick_law [OF ok(1,2)] obtain r where r: "bitset_next (dm_workers_busy s) (dm_last_worker_id s) = Inr r" by auto
  have "\<exists>b. bitset_unset i (dm_workers_busy s) = Inr b" if "r = Some i" for i using bs.claim_slot [OF ok(1,2)] r that by auto
  with r ok(3) show ?thesis
    by (cases r) (auto simp: promote_claim_def free_worker_def still_sys intro!: still_intros)
qed

lemma promote_pass_safe:
  assumes "lf_inv s" "w < length (workers s)" "wm_pc (workers s ! w) = Handing v"
  shows "safely (promote_pass w v s) (still s)"
  using handing_owner [OF assms(1,2), of v] assms(2,3) by (auto simp: promote_pass_def worker_of_def intro!: still_intros)

lemma start_promote_safe:
  assumes "lf_inv s" "0 < length (workers s)"
  shows "safely (start_promote s) (still s)"
proof -
  have ok: "bitset_ok (dm_workers_busy s)" "0 < m_bits (dm_workers_busy s)" "m_run_mode s = SINGLE_LOOP"
    using assms by (simp_all add: lf_inv_def)
  from bs.unmark_law [OF ok(1,2)] obtain B where "bitset_unset 0 (dm_workers_busy s) = Inr B" by blast
  with ok(3) assms(2) show ?thesis by (simp add: start_promote_def worker_of_def still_sys still_set_event_loop)
qed

lemma worker_terminate_safe:
  assumes "lf_inv s" "w < length (workers s)"
  shows "safely (worker_terminate w s) (still s)"
  using assms by (auto simp: worker_terminate_def worker_of_def loop_ptr_def lf_inv_def Let_def intro!: still_intros)

section \<open>Handling an event\<close>

lemma free_any: "free rt x s t {} \<Longrightarrow> free rt x s t W"
  by (simp add: free_def updates_def)

definition armed :: "sys \<Rightarrow> tid set" where
  "armed s = {t. is_active s t}"

lemma grip_once:
  assumes "safe K rt x hs s"
  shows "count (grips x s) t \<le> 1"
proof -
  have "image_mset rt (replicate_mset (count (grips x s) t) t) \<subseteq># image_mset rt (grips x s)"
    by (intro image_mset_subseteq_mono) (simp add: count_le_replicate_mset_subset_eq [symmetric])
  from mset_subset_eq_count [OF this, of "rt t"] safeD(5) [OF assms, of "rt t"] show ?thesis by (simp add: shared_def)
qed

lemma armed_grips:
  assumes "safe K rt x hs s" "t \<in> armed s"
  shows "t \<in># grips x s" "w < length (workers s) \<Longrightarrow> t \<notin># worker_grips x w (workers s ! w)"
proof -
  have a: "t \<in># filter_mset (is_active s) (mset [0..<next_tid s])"
    using assms(2) safeD(8) [OF assms(1), of t] by (auto simp: armed_def is_active_def split: option.splits)
  then show "t \<in># grips x s" by (simp add: grips_def)
  show "t \<notin># worker_grips x w (workers s ! w)" if w: "w < length (workers s)"
  proof
    assume "t \<in># worker_grips x w (workers s ! w)"
    moreover have "worker_grips x w (workers s ! w) \<subseteq># (\<Sum>w < length (workers s). worker_grips x w (workers s ! w))"
      using w by (subst sum.remove [of _ w]) auto
    ultimately have "t \<in># (\<Sum>w < length (workers s). worker_grips x w (workers s ! w))" by (rule mset_subset_eqD [rotated])
    with a have "2 \<le> count (grips x s) t" by (auto simp: grips_def simp flip: count_greater_zero_iff)
    with grip_once [OF assms(1), of t] show False by simp
  qed
qed

lemma grips_front:
  assumes "w < length (workers s)" "wm_events_queue (workers s ! w) = ev # evs"
  shows "grips None s = grips (Some w) s + {#ev_task ev#}"
proof -
  let ?n = "length (workers s)"
  have "(\<Sum>v < ?n. worker_grips y v (workers s ! v)) = worker_grips y w (workers s ! w) + (\<Sum>v \<in> {..<?n} - {w}. worker_grips y v (workers s ! v))" for y
    using assms(1) by (intro sum.remove) auto
  moreover have "(\<Sum>v \<in> {..<?n} - {w}. worker_grips None v (workers s ! v)) = (\<Sum>v \<in> {..<?n} - {w}. worker_grips (Some w) v (workers s ! v))"
    by (intro sum.cong) (auto simp: worker_grips_def events_at_def)
  moreover have "worker_grips None w (workers s ! w) = worker_grips (Some w) w (workers s ! w) + {#ev_task ev#}"
    using assms(2) by (simp add: worker_grips_def events_at_def)
  ultimately show ?thesis by (simp add: grips_def)
qed

lemma grips_pop: "grips None (upd_worker w (\<lambda>k. k\<lparr>wm_events_queue := tl (wm_events_queue k)\<rparr>) s) = grips (Some w) s"
proof -
  let ?s = "upd_worker w (\<lambda>k. k\<lparr>wm_events_queue := tl (wm_events_queue k)\<rparr>) s"
  have "is_active ?s = is_active s" by (auto simp: is_active_def)
  then show ?thesis by (auto simp: grips_def worker_grips_def events_at_def intro!: sum.cong)
qed

lemma safe_pop:
  assumes "safe K rt (Some w) {} s" "lf_inv (upd_worker w (\<lambda>k. k\<lparr>wm_events_queue := tl (wm_events_queue k)\<rparr>) s)"
  shows "safe K rt None {} (upd_worker w (\<lambda>k. k\<lparr>wm_events_queue := tl (wm_events_queue k)\<rparr>) s)"
  by (rule safe_same [OF assms]) (simp_all add: grips_pop)

lemma handle_front_safe:
  assumes "safe K rt None {} s" "K \<subseteq> armed s" "calm H" "w < length (workers s)"
  shows "safely (handle_front H w s) (\<lambda>s'. lf_inv s' \<longrightarrow> (\<exists>rt. safe K rt None {} s'))"
proof (cases "wm_events_queue (workers s ! w)")
  case Nil
  have "lf_inv (set_pc Running w s) \<longrightarrow> (\<exists>rt. safe K rt None {} (set_pc Running w s))"
    using safe_still [OF assms(1)] by (blast intro: still_intros)
  with Nil assms(4) show ?thesis by (simp add: handle_front_def worker_of_def)
next
  case (Cons ev evs)
  let ?s = "upd_worker w (\<lambda>k. k\<lparr>wm_events_count := wm_events_count k + 1\<rparr>) s" and ?t = "ev_task ev"
  have c: "ctl ?s = ctl s" by (simp add: ctl_upd_worker core_def)
  have g: "grips None s = grips (Some w) ?s + {#?t#}"
    using grips_front [OF assms(4) Cons] grips_still [of s ?s] by (simp add: still_upd)
  have K: "K - {?t} = K" using armed_grips(2) [OF assms(1) _ assms(4)] assms(2) Cons by (force simp: worker_grips_def events_at_def)
  have k: "kind_of ?s u = kind_of s u" for u by (simp add: kind_of_def)
  have "tasks s ?t \<noteq> None" using safeD(4) [OF assms(1), of ?t] g by simp
  then obtain k where "kind_of ?s ?t = Some k" by (auto simp: kind_of_def)
  moreover have "safe (K - {?t}) rt (Some w) {?t} ?s \<and> free rt (Some w) ?s ?t {} \<and>
      (\<forall>d. kind_of ?s ?t = Some (Cleanup_task d) \<longrightarrow> kind_of ?s d = Some Io_task)"
    using safe_take [OF assms(1) lf_inv_ctl [OF c safeD(1) [OF assms(1)]] g] by (simp add: k)
  ultimately have "held K rt (Some w) (Some w) w ?t k ?s" using assms(4)
    by (simp add: K held_def serves_def disposable_lives_def free_any)
  from exec_event_handler_safe [OF this assms(3)] have "safely (exec_event_handler H (Some w) w ev ?s) (\<lambda>s1. \<exists>rt. safe K rt (Some w) {} s1)" .
  then have "safely (rbind (exec_event_handler H (Some w) w ev ?s)
      (\<lambda>s. Inr (upd_worker w (\<lambda>k. k\<lparr>wm_events_queue := tl (wm_events_queue k)\<rparr>) s))) (\<lambda>s'. lf_inv s' \<longrightarrow> (\<exists>rt. safe K rt None {} s'))"
    by (rule safely_bind) (auto dest: safe_pop)
  with Cons assms(4) show ?thesis by (simp add: handle_front_def worker_of_def)
qed

lemma advance_safe:
  assumes "safe K rt None {} s" "K \<subseteq> armed s" "calm H" "w < length (workers s)"
  shows "safely (advance H w s) (\<lambda>s'. \<exists>rt. safe K rt None {} s')"
proof -
  note inv = safeD(1) [OF assms(1)]
  have m: "safely (rbind (mark_free w s) (\<lambda>s. Inr (set_pc Waiting w s))) (still s)"
    by (rule safely_bind [OF mark_free_safe [OF inv assms(4)]]) (simp add: still_set_pc)
  have "safely (advance H w s) (\<lambda>s'. lf_inv s' \<longrightarrow> (\<exists>rt. safe K rt None {} s'))"
  proof (cases "wm_pc (workers s ! w) = Handling")
    case True
    with handle_front_safe [OF assms] assms(4) show ?thesis by (simp add: advance_def worker_of_def)
  next
    case False
    then have "safely (advance H w s) (still s)"
      using m promote_claim_safe [OF inv assms(4)] promote_pass_safe [OF inv assms(4)] assms(4)
      by (auto simp: advance_def worker_of_def still_set_pc split: pc.splits)
    then show ?thesis by (rule safely_mono) (blast intro: safe_still [OF assms(1)])
  qed
  then show ?thesis by (rule safely_mono) (blast dest: lf_inv_advance [OF inv])
qed

section \<open>Callbacks of the loop\<close>

lemma safe_keep: "safe K rt x hs s \<Longrightarrow> (\<And>t. t \<in> K' \<Longrightarrow> t \<in># grips x s) \<Longrightarrow> safe K' rt x hs s"
  by (simp add: safe_def)

lemma stop_watcher_leader:
  assumes "safe K rt x hs s" "polls w s" "tasks s t = Some e" "em_active e \<noteq> None"
  shows "stop_watcher (Some w) w t s \<in> {Inl Assertion, Inr (s\<lparr>tasks := (tasks s)(t \<mapsto> e\<lparr>em_active := None\<rparr>)\<rparr>)}"
proof -
  have "waits (Some w) w s = {}" using polls_facts(1) [OF safeD(1) [OF assms(1)] assms(2)] by (simp add: waits_def)
  then have r: "in_ctx (Some w) w f s = run_func f 0 s" for f
    using in_ctx_eq [OF safeD(1) [OF assms(1)]] assms(2) by (simp add: polls_def)
  from assms(3,4) safeD(6) [OF assms(1,3)] show ?thesis
    by (cases "em_watcher_initialized e")
       (auto simp: stop_watcher_def io_stop_watcher_def r ev_stop_def upd_task_def task_of_def task_ok_def split: task_kind.splits)
qed

lemma fire_safe:
  assumes "safe K rt None {} s" "polls w s" "tasks s t = Some e" "em_active e \<noteq> None"
  shows "safely (tasks_event_callback 0 (Some w) t r s) (\<lambda>s'. \<exists>rt. safe K rt None {} s')"
proof -
  let ?s = "s\<lparr>tasks := (tasks s)(t \<mapsto> e\<lparr>em_active := None\<rparr>)\<rparr>" and ?ev = "\<lparr>ev_task = t, ev_revents = r\<rparr>"
  let ?s' = "add_event ?ev w ?s"
  have w: "w < length (workers s)" using assms(2) by (simp add: polls_def)
  have t: "t < next_tid s" using safeD(8) [OF assms(1)] assms(3) by simp
  have c: "ctl ?s = ctl s" by simp
  have k: "kind_of ?s u = kind_of s u" "kind_of ?s' u = kind_of s u" for u using assms(3) by (simp_all add: kind_of_def add_event_def)
  have g: "grips None s = grips None ?s + {#t#}" using grips_disarm [OF assms(3) t] assms(4) by simp
  have g': "grips None ?s' = grips None s" using grips_add_event [of w ?s ?ev] w g by simp
  have ok: "task_ok rt None {} s t e" by (rule safeD(6) [OF assms(1,3)])
  note st = safe_take [OF assms(1) lf_inv_ctl [OF c safeD(1) [OF assms(1)]] g, simplified k, simplified]
  have "lf_inv ?s'" using lf_inv_ctl_queue [OF safeD(1) [OF assms(1)] w _ c] assms(2) by (simp add: polls_def)
  have "safe (K - {t}) rt None ({t} - {t}) ?s'"
  proof (rule safe_grip [where W = "{}"])
    show "safe (K - {t}) rt None {t} ?s" "free rt None ?s t {}" using assms(3) by (simp_all add: st)
  qed (use \<open>lf_inv ?s'\<close> g g' k w ok assms(3) in \<open>auto simp: add_event_def task_ok_def kind_of_def\<close>)
  then have "safe (K - {t}) rt None {} ?s'" by simp
  then have "safe K rt None {} ?s'" by (rule safe_keep) (use safeD(9) [OF assms(1)] g' in auto)
  with stop_watcher_leader [OF assms] polls_facts(3) [OF safeD(1) [OF assms(1)] assms(2)] show ?thesis
    by (auto simp: tasks_event_callback_def)
qed

text \<open>
  The async callback has taken the closures \<open>fs\<close> out of the queue of worker \<open>v\<close> and runs them one by one; the invariant
  is about the queue as if those that have not run were still there.
\<close>

definition with_queue :: "wid \<Rightarrow> task_func list \<Rightarrow> sys \<Rightarrow> sys" where
  "with_queue v fs s = upd_worker v (\<lambda>k. k\<lparr>wm_tfq := fs @ wm_tfq k\<rparr>) s"

lemma with_queue_sel [simp]:
  "tasks (with_queue v fs s) = tasks s" "next_tid (with_queue v fs s) = next_tid s" "length (workers (with_queue v fs s)) = length (workers s)"
  "kind_of (with_queue v fs s) u = kind_of s u" "ctl (with_queue v fs s) = ctl s" "with_queue v [] s = s"
  "(with_queue v fs s)\<lparr>tasks := T\<rparr> = with_queue v fs (s\<lparr>tasks := T\<rparr>)"
  by (simp_all add: with_queue_def kind_of_def ctl_upd_worker core_def) (simp_all add: upd_worker_def)

lemma tfq_with_queue:
  "w < length (workers s) \<Longrightarrow> wm_tfq (workers (with_queue v fs s) ! w) = (if w = v then fs else []) @ wm_tfq (workers s ! w)"
  by (simp add: with_queue_def)

lemma grips_with_queue:
  assumes "v < length (workers s)"
  shows "grips x (with_queue v (f # fs) s) = grips x (with_queue v fs s) + grips_in [f]"
proof -
  let ?W = "worker_grips x v (workers s ! v)" and ?q = "\<lambda>gs. worker_grips x v ((workers s ! v)\<lparr>wm_tfq := gs @ wm_tfq (workers s ! v)\<rparr>)"
  have g: "grips x (with_queue v gs s) + ?W = grips x s + ?q gs" for gs
    unfolding with_queue_def by (rule grips_upd_worker [OF assms])
  have "?q (f # fs) = ?q fs + grips_in [f]" by (simp add: worker_grips_def events_at_def)
  then have "grips x (with_queue v (f # fs) s) + ?W = grips x (with_queue v fs s) + (?W + grips_in [f])"
    unfolding g add.assoc [symmetric] by simp
  then show ?thesis by (rule mset_shift)
qed

lemma run_func_with_queue:
  assumes "grip f \<noteq> None \<or> f = Update_io t" "\<And>e. f \<noteq> Async_event e"
  shows "run_func f l (with_queue v fs s) = map_sum id (with_queue v fs) (run_func f l s)"
proof -
  have 1: "upd_task u g (with_queue v fs s) = map_sum id (with_queue v fs) (upd_task u g s)" for u g s
    by (auto simp: upd_task_def task_of_def split: option.splits)
  have 2: "delete_task u (with_queue v fs s) = with_queue v fs (delete_task u s)" for u s
    by (simp add: delete_task_def add_log_def with_queue_def upd_worker_def)
  have 3: "task_of (with_queue v fs s) u = task_of s u" for u s by (simp add: task_of_def)
  have 4: "m_run_mode (with_queue v fs s) = m_run_mode s" for s by (simp add: with_queue_def)
  have 5: "rbind (map_sum id h r) g = rbind r (\<lambda>s. g (h s))" "map_sum id h (rbind r g') = rbind r (\<lambda>a. map_sum id h (g' a))"
    for h :: "sys \<Rightarrow> sys" and g g' :: "sys \<Rightarrow> sys result" and r :: "sys result"
    by (simp_all add: rbind_def split: sum.splits)
  have 6: "ev_start u l (with_queue v fs s) = map_sum id (with_queue v fs) (ev_start u l s)"
    "ev_stop u (with_queue v fs s) = map_sum id (with_queue v fs) (ev_stop u s)"
    "init_watcher u (with_queue v fs s) = map_sum id (with_queue v fs) (init_watcher u s)" for u l s
    by (cases "tasks s u"; simp add: ev_start_def ev_stop_def init_watcher_def task_of_def 1)+
  have 7: "assign_worker z u (with_queue v fs s) = map_sum id (with_queue v fs) (assign_worker z u s)" for z u s
    by (cases "tasks s u"; cases "m_run_mode s"; simp add: assign_worker_def task_of_def 4 Let_def assert_that_def)
  show ?thesis using assms by (cases f) (auto simp: 1 2 5 6 7)
qed

lemma safely_map [simp]: "safely (map_sum id h r) Q \<longleftrightarrow> safely r (\<lambda>a. Q (h a))"
  by (cases r) simp_all

lemma queue_head:
  assumes "safe K rt x hs (with_queue v (f # fs) s)" "v < length (workers s)"
  shows "queue_ok rt x (with_queue v (f # fs) s) (f # fs @ wm_tfq (workers s ! v))"
  using safeD(7) [OF assms(1), of v] assms(2) by (simp add: tfq_with_queue)

lemma safe_pop_update:
  assumes "safe K rt x hs (with_queue v (Update_io t # fs) s)" "v < length (workers s)"
  shows "safe K rt x hs (with_queue v fs s)"
proof -
  let ?s = "with_queue v (Update_io t # fs) s" and ?z = "with_queue v fs s"
  have g: "grips x ?s = grips x ?z" using grips_with_queue [OF assms(2), of x "Update_io t" fs] by simp
  have q: "queue_ok rt x ?z gs = queue_ok rt x ?s gs" for gs by (rule queue_ok_cong) (simp_all add: shared_def g)
  have "queue_ok rt x ?z (wm_tfq (workers ?z ! u))" if "u < length (workers s)" for u
    using safeD(7) [OF assms(1), of u] that by (cases "u = v") (simp_all add: tfq_with_queue q)
  moreover have "task_ok rt x hs ?z u e = task_ok rt x hs ?s u e" for u e by (simp add: task_ok_def g split: task_kind.splits)
  moreover have "lf_inv ?z" by (rule lf_inv_ctl [OF _ safeD(1) [OF assms(1)]]) simp
  ultimately show ?thesis using assms(1) unfolding safe_def shared_def by (simp add: g)
qed

text \<open>The first closure is taken: its task is held by the leader.\<close>

lemma take_closure:
  assumes "safe K rt None {} (with_queue v (f # fs) s)" "polls w s" "v < length (workers s)" "grip f = Some t"
  shows "\<exists>k. held (K - {t}) rt None (Some w) w t k (with_queue v fs s) \<and> waits (Some w) w (with_queue v fs s) = {}"
proof -
  let ?s = "with_queue v (f # fs) s" and ?z = "with_queue v fs s"
  have inv: "lf_inv ?z" by (rule lf_inv_ctl [OF _ safeD(1) [OF assms(1)]]) simp
  have p: "polls w ?z" by (rule polls_ctl [OF _ assms(2)]) simp
  have g: "grips None ?s = grips None ?z + {#t#}" using grips_with_queue [OF assms(3), of None f fs] assms(4) by simp
  have q: "u < length (workers s) \<Longrightarrow> wm_tfq (workers ?z ! u) \<in> {wm_tfq (workers ?s ! u), tl (wm_tfq (workers ?s ! u))}" for u
    by (simp add: tfq_with_queue)
  note st = safe_take [OF assms(1) inv g, simplified, OF q [simplified]]
  have "tasks s t \<noteq> None" using safeD(4) [OF assms(1), of t] g by simp
  then obtain k where "kind_of ?z t = Some k" by (auto simp: kind_of_def)
  with st p polls_facts(1) [OF inv p] show ?thesis
    by (auto simp: held_def waits_def serves_def disposable_lives_def polls_def)
qed

lemma run_closure:
  assumes "safe K rt None {} (with_queue v (f # fs) s)" "polls w s" "v < length (workers s)"
  shows "safely (run_func f 0 s) (\<lambda>s'. safe (K - {t. grip f = Some t}) rt None {} (with_queue v fs s'))"
proof (cases "grip f")
  case None
  let ?z = "with_queue v fs s"
  from None queue_head [OF assms(1,3)] obtain t where f: "f = Update_io t" "kind_of s t = Some Io_task" by (cases f) auto
  then obtain e where e: "tasks s t = Some e" "em_kind e = Io_task" by (auto simp: kind_of_def)
  have z: "safe K rt None {} ?z" using assms(1,3) f(1) by (blast intro: safe_pop_update)
  let ?e = "e\<lparr>em_watch := (em_fd e, em_events e), em_active := (if em_active e = None then None else Some 0)\<rparr>"
  have "safe K rt None {} (?z\<lparr>tasks := (tasks ?z)(t \<mapsto> ?e)\<rparr>)" using e by (intro safe_write [OF z]) auto
  with f(1) e(1) show ?thesis by (simp add: upd_task_def task_of_def)
next
  case (Some t)
  let ?z = "with_queue v fs s"
  obtain k where h: "held (K - {t}) rt None (Some w) w t k ?z" "waits (Some w) w ?z = {}"
    using take_closure [OF assms Some] by blast
  have r: "in_ctx (Some w) w f ?z = run_func f 0 ?z" using in_ctx_eq [OF heldD(7,5) [OF h(1)]] h(2) by simp
  have "safely (run_func f 0 ?z) (safe (K - {t}) rt None {})"
  proof (cases "f = Dispose_io t")
    case True
    with queue_head [OF assms(1,3)] have k: "kind_of ?z t = Some Io_task" by simp
    have "safe (K - {t}) rt None {} ?z" using k by (intro safe_hand [OF heldD(1) [OF h(1)]]) (auto simp: kind_of_def)
    from in_ctx_dispose [OF this heldD(2,5) [OF h(1)] k] r True show ?thesis by simp (erule safely_mono, blast)
  next
    case False
    then have "safely (run_func f 0 ?z) (gripped (K - {t}) rt None t ?z)"
      using Some queue_head [OF assms(1,3)] gripped_arm [OF h] setup_grips [OF h] by (cases f) auto
    then show ?thesis by (rule safely_mono) (simp add: gripped_def)
  qed
  moreover have "\<And>e. f \<noteq> Async_event e" using queue_head [OF assms(1,3)] by auto
  ultimately show ?thesis using run_func_with_queue [of f t 0 v fs s] Some by simp
qed

lemma run_queued_safe:
  assumes "safe K rt None {} (with_queue v fs s)" "polls w s" "v < length (workers s)"
  shows "safely (run_queued False w fs s) (safe (K - {t. \<exists>f \<in> set fs. grip f = Some t}) rt None {})"
  using assms
proof (induction fs arbitrary: K s)
  case (Cons f fs)
  have inv: "lf_inv s" by (rule lf_inv_ctl [OF _ safeD(1) [OF Cons.prems(1)]]) simp
  have e: "exec_in_worker_ctx (Some w) w f s = map_sum id (Pair True) (run_func f 0 s)"
    using polls_facts [OF inv Cons.prems(2)] Cons.prems(2) by (simp add: exec_in_worker_ctx_def worker_of_def polls_def)
  have na: "\<And>e. f \<noteq> Async_event e" using queue_head [OF Cons.prems(1,3)] by auto
  have "safely (run_queued False w fs s') (safe (K - {t. \<exists>f \<in> set (f # fs). grip f = Some t}) rt None {})"
    if s': "run_func f 0 s = Inr s'" "safe (K - {t. grip f = Some t}) rt None {} (with_queue v fs s')" for s'
  proof -
    have "polls w s'" using lf_inv_run_func [OF inv Cons.prems(2) s'(1)] by blast
    moreover have "v < length (workers s')" using ctl_eqD(7) [OF ctl_run_func [OF s'(1) na]] Cons.prems(3) by simp
    ultimately have "safely (run_queued False w fs s') (safe (K - {t. grip f = Some t} - {t. \<exists>f \<in> set fs. grip f = Some t}) rt None {})"
      by (rule Cons.IH [OF s'(2)])
    moreover have "K - {t. grip f = Some t} - {t. \<exists>f \<in> set fs. grip f = Some t} = K - {t. \<exists>f \<in> set (f # fs). grip f = Some t}" by auto
    ultimately show ?thesis by simp
  qed
  with run_closure [OF Cons.prems] show ?case
    by (simp add: e) (rule safely_bind [where P = "\<lambda>(b, s'). b \<and> run_func f 0 s = Inr s' \<and> safe (K - {t. grip f = Some t}) rt None {} (with_queue v fs s')"],
      auto simp: safely_def split: sum.splits)
qed simp

lemma async_safe:
  assumes "safe K rt None {} s" "K \<subseteq> armed s" "polls w s" "v < length (workers s)"
  shows "safely (tasks_async_callback False 0 v s) (\<lambda>s'. \<exists>rt. safe K rt None {} s')"
proof -
  let ?s = "upd_worker v (\<lambda>k. k\<lparr>wm_tfq := [], wm_async_sent := False\<rparr>) s" and ?fs = "wm_tfq (workers s ! v)"
  have c: "ctl ?s = ctl s" by (simp add: ctl_upd_worker core_def)
  have "lf_inv (with_queue v ?fs ?s)" by (rule lf_inv_ctl [OF _ safeD(1) [OF assms(1)]]) (simp add: c)
  moreover have "still s (with_queue v ?fs ?s)" using assms(4) by (auto simp: still_def with_queue_def)
  ultimately have "safe K rt None {} (with_queue v ?fs ?s)" by (rule safe_still [OF assms(1)])
  from run_queued_safe [OF this polls_ctl [OF c assms(3)]] assms(4)
  have "safely (run_queued False w ?fs ?s) (safe (K - {t. \<exists>f \<in> set ?fs. grip f = Some t}) rt None {})" by simp
  moreover have "K - {t. \<exists>f \<in> set ?fs. grip f = Some t} = K"
    using armed_grips(2) [OF assms(1) _ assms(4)] assms(2) by (auto simp: worker_grips_def dest: grips_in_member)
  ultimately show ?thesis using polls_facts(3) [OF safeD(1) [OF assms(1)] assms(3)] assms(4)
    by (simp add: tasks_async_callback_def worker_of_def) (erule safely_mono, blast)
qed

section \<open>Adding a task\<close>

text \<open>An I/O or timer task as its constructor leaves it, possibly with its watcher set up.\<close>

definition tame_task :: "etask \<Rightarrow> bool" where
  "tame_task e \<longleftrightarrow> em_kind e \<in> {Io_task, Timer_task} \<and> em_worker e = None \<and> (em_watcher_initialized e \<longrightarrow> em_kind e = Io_task)"

lemma add_task_safe:
  assumes "safe K rt None {} s" "new_task e s = (t, s1)" "em_active e = None" "tame_task e" "calm H"
  shows "safely (add_task H None t s1) (\<lambda>s'. \<exists>rt. safe K rt None {} s')"
  unfolding add_task_def
proof (rule safely_assert)
  assume "dm_started s1"
  have c: "ctl s1 = ctl s" by (rule ctl_new_task [OF assms(2)])
  from ctl_eqD(6) [OF this] \<open>dm_started s1\<close> have "dm_started s" by simp
  with safeD(1) [OF assms(1)] have sv: "serves None (dm_last_worker_id s) s" by (auto simp: serves_def lf_inv_def)
  have h: "held K rt None None (dm_last_worker_id s) t (em_kind e) s1"
    using assms(4) by (intro held_new(1) [OF assms(1-3)] sv) (auto simp: tame_task_def)
  then obtain e' where "tasks s1 t = Some e'" by (rule heldE)
  from get_worker_single [OF heldD(1,3) [OF h] this] have g: "get_worker_by_task None t s1 = Inr (dm_last_worker_id s, s1)" .
  show "safely (add_event_task H None t s1) (\<lambda>s'. \<exists>rt. safe K rt None {} s')"
    unfolding add_event_task_def g
    using start_watcher_safe [OF _ assms(5)] by (simp, intro safely_bind [OF init_watcher_held [OF h]]) (simp add: assign_worker_single heldD(7))
qed

section \<open>Steps\<close>

text \<open>The steps considered: all but the response of an asynchronous service and the completion of a disk task.\<close>

fun tame :: "label \<Rightarrow> bool" where
  "tame (Add e) \<longleftrightarrow> tame_task e"
| "tame (Finish _) \<longleftrightarrow> False"
| "tame _ \<longleftrightarrow> True"

text \<open>The workers, and the task whose watcher fires, that a step names exist.\<close>

fun names :: "sys \<Rightarrow> label \<Rightarrow> bool" where
  "names s (Thread w) \<longleftrightarrow> w < length (workers s)"
| "names s (Fire w t r) \<longleftrightarrow> w < length (workers s) \<and> tasks s t \<noteq> None"
| "names s (Async w v) \<longleftrightarrow> w < length (workers s) \<and> v < length (workers s)"
| "names s (Poll_return w) \<longleftrightarrow> w < length (workers s)"
| "names s Start \<longleftrightarrow> workers s \<noteq> []"
| "names s (Terminate w) \<longleftrightarrow> w < length (workers s)"
| "names s _ \<longleftrightarrow> True"

lemma names_step: "do_label H a s = Inr s' \<Longrightarrow> lf_inv s \<Longrightarrow> names s a"
  by (cases a) (auto simp: advance_def start_promote_def worker_terminate_def lf_inv_def)

lemma step_safe:
  assumes "safe K rt None {} s" "K \<subseteq> armed s" "calm H" "tame a" "names s a"
  shows "safely (do_label H a s) (\<lambda>s'. \<exists>rt. safe K rt None {} s')"
proof -
  note inv = safeD(1) [OF assms(1)]
  have l: "l = 0" if "w < length (workers s)" "wm_pc (workers s ! w) = Polling" "wm_loop (workers s ! w) = Some l" for w l
    using polls_facts(2) [OF inv, of w] that by (simp add: polls_def)
  have still: "safely r (\<lambda>s'. \<exists>rt. safe K rt None {} s')" if "safely r (still s)" "\<And>s'. r = Inr s' \<Longrightarrow> lf_inv s'" for r
    using that(1) by (rule safely_mono) (intro exI, rule safe_still [OF assms(1) that(2)])
  show ?thesis
  proof (cases a)
    case (Thread w)
    with advance_safe [OF assms(1-3)] assms(5) show ?thesis by simp
  next
    case (Fire w t r)
    with assms(5) obtain e where "w < length (workers s)" "tasks s t = Some e" by auto
    with Fire fire_safe [OF assms(1), of w t e r] l [of w] show ?thesis
      by (auto simp: worker_of_def task_of_def guarded_def polls_def split: option.splits)
  next
    case (Async w v)
    with assms(5) async_safe [OF assms(1,2), of w v] l [of w] show ?thesis
      by (auto simp: worker_of_def guarded_def polls_def split: option.splits)
  next
    case (Poll_return w)
    with assms(5) still [of "Inr (set_pc Polled w s)"] lf_inv_poll_return [OF inv, of w] show ?thesis
      by (auto simp: worker_of_def guarded_def polls_def still_set_pc)
  next
    case Start
    with assms(5) still [OF start_promote_safe [OF inv]] lf_inv_start [OF inv] inv show ?thesis
      by (auto simp: guarded_def lf_inv_def)
  next
    case (Add e)
    with assms(4) add_task_safe [OF assms(1) _ _ _ assms(3), of e] show ?thesis by (auto simp: guarded_def split: prod.splits)
  next
    case (Terminate w)
    with assms(5) still [OF worker_terminate_safe [OF inv]] lf_inv_terminate [OF inv] show ?thesis by auto
  next
    case Quit
    have "lf_inv (dispatcher_terminate s)" by (rule lf_inv_ctl [OF _ inv]) simp
    with Quit still [of "Inr (dispatcher_terminate s)"] show ?thesis by (simp add: dispatcher_terminate_def still_sys)
  qed (use assms(4) in simp)
qed

lemma spawn_safe:
  assumes "start_spawn (dispatcher_new SINGLE_LOOP n) = Inr s"
  shows "safe {} id None {} s"
proof -
  have sp: "spawned (unat n) n s" using start_spawn_ok [of n] assms by simp
  then have "grips None s = {#}" by (simp add: spawned_def grips_def worker_grips_def events_at_def worker_new_def is_active_def)
  with sp lf_inv_spawned [OF sp] show ?thesis by (simp add: safe_def spawned_def shared_def worker_new_def)
qed

lemma run_safe:
  assumes "do_labels H as s = Inr s'" "safe {} rt None {} s" "calm H" "\<forall>a \<in> set as. tame a"
  shows "\<exists>rt. safe {} rt None {} s'"
  using assms
proof (induction as arbitrary: s rt)
  case (Cons a as)
  then obtain s1 where s1: "do_label H a s = Inr s1" "do_labels H as s1 = Inr s'" by auto
  from step_safe [OF Cons.prems(2) _ Cons.prems(3), of a] names_step [OF s1(1) safeD(1) [OF Cons.prems(2)]] Cons.prems(4) s1(1)
  obtain rt where "safe {} rt None {} s1" by auto
  from Cons.IH [OF s1(2) this Cons.prems(3)] Cons.prems(4) show ?case by simp
qed auto

section \<open>Properties\<close>

text \<open>The task a closure touches when it runs.\<close>

fun closure_task :: "task_func \<Rightarrow> tid" where
  "closure_task (Start_io t) = t"
| "closure_task (Stop_io t) = t"
| "closure_task (Update_io t) = t"
| "closure_task (Dispose_io t) = t"
| "closure_task (Start_timer t) = t"
| "closure_task (Stop_timer t) = t"
| "closure_task (Add_net w t) = t"
| "closure_task (Async_event e) = ev_task e"
| "closure_task (Send_response t) = t"

lemma closure_lives:
  assumes "safe K rt None {} s" "w < length (workers s)" "f \<in> set (wm_tfq (workers s ! w))"
  shows "tasks s (closure_task f) \<noteq> None"
proof (cases "grip f")
  case None
  have "queue_ok rt None s fs \<Longrightarrow> f \<in> set fs \<Longrightarrow> \<exists>t. f = Update_io t" for fs
  proof (induction fs)
    case (Cons g fs)
    with None show ?case by (cases g) auto
  qed simp
  with safeD(7) [OF assms(1,2)] assms(3) obtain t where t: "f = Update_io t" by blast
  with queue_ok_kind [OF safeD(7) [OF assms(1,2)], of t] assms(3) show ?thesis by (auto simp: live_kind)
next
  case (Some t)
  with safeD(4) [OF assms(1) queued_grip [OF assms(2,3) Some]] show ?thesis by (cases f) auto
qed

text \<open>
  C4: no task is touched after it was deleted. In single loop mode, for user code that adds I/O and timer tasks and does
  not answer asynchronously: after any run, any further step of any thread, of the loop's callbacks and of threads outside
  either is not possible there or goes on without touching a deleted task, and no step deletes a task whose watcher is armed;
  whatever is still going to touch a task, a queued event, a queued closure or a cleanup task that waits for it, finds it alive.
\<close>

theorem no_use_after_free:
  assumes "calm H" "\<forall>a \<in> set as. tame a" "run_from_start H SINGLE_LOOP n as = Inr s" "tame a" "names s a"
  shows "do_label H a s \<noteq> Inl Memory \<and>
    (\<forall>s' t e. do_label H a s = Inr s' \<and> tasks s t = Some e \<and> em_active e \<noteq> None \<longrightarrow> tasks s' t \<noteq> None) \<and>
    (\<forall>w < length (workers s). \<forall>ev \<in> set (wm_events_queue (workers s ! w)). tasks s (ev_task ev) \<noteq> None) \<and>
    (\<forall>w < length (workers s). \<forall>f \<in> set (wm_tfq (workers s ! w)). tasks s (closure_task f) \<noteq> None) \<and>
    (\<forall>c e d. tasks s c = Some e \<and> em_kind e = Cleanup_task d \<longrightarrow> tasks s d \<noteq> None)"
proof -
  from assms(3) obtain s0 where s0: "start_spawn (dispatcher_new SINGLE_LOOP n) = Inr s0" "do_labels H as s0 = Inr s"
    by (auto simp: run_from_start_def)
  from run_safe [OF s0(2) spawn_safe [OF s0(1)] assms(1,2)] obtain rt where s: "safe {} rt None {} s" by blast
  have "safe (armed s) rt None {} s" by (rule safe_keep [OF s]) (rule armed_grips(1) [OF s])
  from step_safe [OF this order_refl assms(1,4,5)] have st: "safely (do_label H a s) (\<lambda>s'. \<exists>rt. safe (armed s) rt None {} s')" .
  have "tasks s' t \<noteq> None" if "do_label H a s = Inr s'" "tasks s t = Some e" "em_active e \<noteq> None" for s' t e
  proof -
    from st that(1) obtain rt' where "safe (armed s) rt' None {} s'" by auto
    from safeD(4) [OF this safeD(9) [OF this]] that(2,3) show ?thesis by (simp add: armed_def is_active_def)
  qed
  moreover have "tasks s (ev_task ev) \<noteq> None" if "w < length (workers s)" "ev \<in> set (wm_events_queue (workers s ! w))" for w ev
  proof -
    have "ev_task ev \<in># worker_grips None w (workers s ! w)" using that(2) by (simp add: worker_grips_def events_at_def)
    from safeD(4) [OF s mset_subset_eqD [OF worker_grips_sub [OF that(1)] this]] show ?thesis .
  qed
  moreover have "tasks s d \<noteq> None" if "tasks s c = Some e" "em_kind e = Cleanup_task d" for c e d
    using safeD(6) [OF s that(1)] that(2) by (auto simp: task_ok_def live_kind)
  ultimately show ?thesis using safely_fails [OF st] closure_lives [OF s] by blast
qed

text \<open>A task that is ended before it can be disposed of: the cleanup task that waits for it is about to be handled.\<close>

definition not_yet :: handler where
  "not_yet t r s = ([Disable_dispose], False)"

definition to_cleanup :: "label list" where
  "to_cleanup = to_event @ [Thread 0, Thread 0, Thread 0, Thread 1, Thread 1, Async 1 0, Fire 1 1 0, Poll_return 1, Thread 1, Thread 1]"

theorem no_use_after_free_witness:
  "\<exists>s. run_from_start not_yet SINGLE_LOOP 3 to_cleanup = Inr s \<and> do_label not_yet (Thread 1) s \<noteq> Inl Memory \<and>
     wm_events_queue (workers s ! 1) \<noteq> [] \<and> tasks s (ev_task (hd (wm_events_queue (workers s ! 1)))) \<noteq> None \<and> tasks s 0 \<noteq> None"
proof -
  have "\<exists>s. run_from_start not_yet SINGLE_LOOP 3 to_cleanup = Inr s \<and> lf_reach not_yet SINGLE_LOOP 3 s \<and>
      (names s (Thread 1) \<and> wm_events_queue (workers s ! 1) \<noteq> [] \<and> map_option em_kind (tasks s 1) = Some (Cleanup_task 0))"
    by (rule lf_reach_run) code_simp
  then obtain s e where s: "run_from_start not_yet SINGLE_LOOP 3 to_cleanup = Inr s" "names s (Thread 1)"
    "wm_events_queue (workers s ! 1) \<noteq> []" "tasks s 1 = Some e" "em_kind e = Cleanup_task 0" by auto
  have "calm not_yet" "\<forall>a \<in> set to_cleanup. tame a"
    by (simp_all add: calm_def not_yet_def to_cleanup_def to_event_def tame_task_def io_task_base_new_def event_task_new_def)
  from no_use_after_free [OF this s(1) _ s(2)] s show ?thesis by (intro exI [of _ s]) auto
qed

end
