(* ===== verification/Lifecycle.thy ===== *)
theory Lifecycle
  imports Shutdown
begin

text \<open>
  The dispatcher singleton and its static methods (\<^verbatim>\<open>include/tasks/dispatcher.h\<close>): how the instance comes
  and goes, the run mode, and the signal handlers (\<^verbatim>\<open>tasks/dispatcher.cpp\<close>).
\<close>

section \<open>The statics\<close>

text \<open>
  Besides the static members: which of the instance's worker threads can still be joined, the
  started \<^verbatim>\<open>ev_signal\<close> watchers of the default loop with the object their \<^verbatim>\<open>data\<close> points to, the \<^verbatim>\<open>signal_func_t\<close>
  objects that are allocated, and the calls the user's functions have got.
\<close>

record statics =
  m_instance :: "sys option"
  st_run_mode :: mode
  joinable :: "bool list"
  signal_watchers :: "(int \<times> nat) list"
  signal_funcs :: "nat \<rightharpoonup> nat"
  next_func :: nat
  signal_calls :: "(nat \<times> int) list"

definition statics_init :: statics where
  "statics_init = \<lparr>m_instance = None, st_run_mode = SINGLE_LOOP, joinable = [], signal_watchers = [],
     signal_funcs = Map.empty, next_func = 0, signal_calls = []\<rparr>"

section \<open>The instance\<close>

definition init_workers :: "8 word \<Rightarrow> statics \<Rightarrow> statics" where
  "init_workers num_workers st =
     (if m_instance st = None then st\<lparr>m_instance := Some (dispatcher_new (st_run_mode st) num_workers)\<rparr> else st)"

definition init_run_mode :: "mode \<Rightarrow> statics \<Rightarrow> statics result" where
  "init_run_mode m st = rbind (assert_that (m_instance st = None)) (\<lambda>_. Inr (st\<lparr>st_run_mode := m\<rparr>))"

definition run_mode :: "statics \<Rightarrow> mode" where
  "run_mode st = st_run_mode st"

definition instance_of :: "int \<Rightarrow> statics \<Rightarrow> sys \<times> statics" where
  "instance_of nprocessors st =
     (case m_instance st of
        Some s \<Rightarrow> (s, st)
      | None \<Rightarrow> let s = dispatcher_instance (st_run_mode st) nprocessors in (s, st\<lparr>m_instance := Some s\<rparr>))"

text \<open>
  \<^verbatim>\<open>start\<close> gives every worker a thread; \<open>threads\<close> stands for what they do until \<^verbatim>\<open>start\<close> promotes the first.
\<close>

definition start_instance :: "(sys \<Rightarrow> sys) \<Rightarrow> statics \<Rightarrow> statics result" where
  "start_instance threads st =
     (case m_instance st of
        None \<Rightarrow> Inl Memory
      | Some s \<Rightarrow> rbind (start_spawn s) (\<lambda>s. rbind (start_promote (threads s)) (\<lambda>s.
          Inr (st\<lparr>m_instance := Some s, joinable := replicate (length (workers s)) True\<rparr>))))"

text \<open>
  \<^verbatim>\<open>join\<close> after its wait: every worker is told to terminate and its thread joined; \<open>threads w\<close> is what the threads do
  until that of worker \<open>w\<close> has ended. Joining a thread twice throws.
\<close>

fun join_workers :: "(wid \<Rightarrow> sys \<Rightarrow> sys) \<Rightarrow> wid list \<Rightarrow> sys \<times> bool list \<Rightarrow> (sys \<times> bool list) result" where
  "join_workers threads [] x = Inr x"
| "join_workers threads (w # ws) (s, js) =
     rbind (worker_terminate w s) (\<lambda>s.
       if w < length js \<and> js ! w then join_workers threads ws (threads w s, js[w := False]) else Inl Standard)"

definition join_instance :: "(wid \<Rightarrow> sys \<Rightarrow> sys) \<Rightarrow> sys \<Rightarrow> statics \<Rightarrow> statics result" where
  "join_instance threads s st =
     rbind (join_workers threads [0..<length (workers s)] (s, joinable st)) (\<lambda>(s, js).
       Inr (st\<lparr>m_instance := Some s, joinable := js\<rparr>))"

text \<open>
  \<^verbatim>\<open>m_instance.reset()\<close> deletes the dispatcher, its workers and their \<^verbatim>\<open>std::thread\<close> objects; the destructor of
  one that can be joined ends the program. Nobody else holds the instance.
\<close>

definition reset_instance :: "statics \<Rightarrow> statics result" where
  "reset_instance st = rbind (assert_that (\<not> list_ex id (joinable st))) (\<lambda>_. Inr (st\<lparr>m_instance := None, joinable := []\<rparr>))"

definition destroy :: "(wid \<Rightarrow> sys \<Rightarrow> sys) \<Rightarrow> statics \<Rightarrow> statics result" where
  "destroy threads st =
     (case m_instance st of
        None \<Rightarrow> Inr st
      | Some s \<Rightarrow> rbind (if \<not> dm_term s then join_instance threads (dispatcher_terminate s) st else Inr st) reset_instance)"

section \<open>Signals\<close>

definition add_signal_handler :: "int \<Rightarrow> nat \<Rightarrow> statics \<Rightarrow> statics result" where
  "add_signal_handler sig func st =
     rbind (assert_that (\<not> (case m_instance st of None \<Rightarrow> False | Some s \<Rightarrow> dm_started s))) (\<lambda>_.
       Inr (st\<lparr>signal_funcs := (signal_funcs st)(next_func st \<mapsto> func), next_func := next_func st + 1,
               signal_watchers := signal_watchers st @ [(sig, next_func st)]\<rparr>))"

definition handle_signal :: "int \<times> nat \<Rightarrow> statics \<Rightarrow> statics result" where
  "handle_signal = (\<lambda>(signum, pfunc) st.
     case signal_funcs st pfunc of
       None \<Rightarrow> Inl Memory
     | Some func \<Rightarrow> Inr (st\<lparr>signal_calls := signal_calls st @ [(func, signum)],
                            signal_funcs := (signal_funcs st)(pfunc := None)\<rparr>))"

text \<open>A signal that arrives: libev calls the callback of every started watcher for it.\<close>

fun call_watchers :: "(int \<times> nat) list \<Rightarrow> statics \<Rightarrow> statics result" where
  "call_watchers [] st = Inr st"
| "call_watchers (w # ws) st = rbind (handle_signal w st) (call_watchers ws)"

definition signal_arrives :: "int \<Rightarrow> statics \<Rightarrow> statics result" where
  "signal_arrives sig st = call_watchers (filter (\<lambda>w. fst w = sig) (signal_watchers st)) st"

section \<open>Joining\<close>

text \<open>The threads of the single loop mode change neither the mode nor the number of workers.\<close>

definition same_pool :: "(wid \<Rightarrow> sys \<Rightarrow> sys) \<Rightarrow> bool" where
  "same_pool threads \<longleftrightarrow> (\<forall>w s. length (workers (threads w s)) = length (workers s) \<and> m_run_mode (threads w s) = m_run_mode s)"

lemma worker_terminate_single:
  assumes "w < length (workers s)" "m_run_mode s = SINGLE_LOOP"
  shows "\<exists>s'. worker_terminate w s = Inr s' \<and> length (workers s') = length (workers s) \<and> m_run_mode s' = SINGLE_LOOP"
  using assms by (auto simp: worker_terminate_def worker_of_def loop_ptr_def Let_def)

lemma join_workers_all:
  assumes "same_pool threads" "m_run_mode s = SINGLE_LOOP" "length js = length (workers s)" "distinct ws"
    and "\<And>w. w \<in> set ws \<Longrightarrow> w < length js \<and> js ! w"
  shows "\<exists>s'. join_workers threads ws (s, js) = Inr (s', fold (\<lambda>w js. js[w := False]) ws js)"
  using assms(2-)
proof (induction ws arbitrary: s js)
  case (Cons w ws)
  obtain s1 where s1: "worker_terminate w s = Inr s1" "length (workers s1) = length (workers s)" "m_run_mode s1 = SINGLE_LOOP"
    using worker_terminate_single [of w s] Cons.prems by auto
  have "\<exists>s'. join_workers threads ws (threads w s1, js[w := False]) = Inr (s', fold (\<lambda>w js. js[w := False]) ws (js[w := False]))"
    by (rule Cons.IH) (use Cons.prems s1 assms(1) in \<open>auto simp: same_pool_def nth_list_update\<close>)
  with s1(1) Cons.prems(4) show ?case by simp
qed simp

lemma join_workers_twice:
  assumes "same_pool threads" "m_run_mode s = SINGLE_LOOP" "length js = length (workers s)" "distinct ws"
    and "set ws \<subseteq> {..<length js}" "v \<in> set ws" "\<not> js ! v"
  shows "join_workers threads ws (s, js) = Inl Standard"
  using assms(2-)
proof (induction ws arbitrary: s js)
  case (Cons w ws)
  obtain s1 where s1: "worker_terminate w s = Inr s1" "length (workers s1) = length (workers s)" "m_run_mode s1 = SINGLE_LOOP"
    using worker_terminate_single [of w s] Cons.prems by auto
  show ?case
  proof (cases "js ! w")
    case True
    then have "join_workers threads ws (threads w s1, js[w := False]) = Inl Standard"
      by (intro Cons.IH) (use Cons.prems s1 assms(1) in \<open>auto simp: same_pool_def nth_list_update\<close>)
    with True s1(1) Cons.prems(4) show ?thesis by simp
  next
    case False
    with s1(1) show ?thesis by simp
  qed
qed simp

lemma all_joined: "fold (\<lambda>w js. js[w := False]) [0..<length js] js = replicate (length js) False"
proof -
  have "n \<le> length js \<Longrightarrow> fold (\<lambda>w js. js[w := False]) [0..<n] js = replicate n False @ drop n js" for n
    by (induction n) (auto simp: list_update_append Cons_nth_drop_Suc [symmetric] replicate_append_same [symmetric])
  then show ?thesis by simp
qed

section \<open>Properties\<close>


text \<open>One worker that was started; \<^verbatim>\<open>terminate\<close>, then \<^verbatim>\<open>destroy\<close>, with and without \<^verbatim>\<open>terminate\<close>.\<close>

definition one_worker :: "bool \<Rightarrow> statics" where
  "one_worker terminated = statics_init\<lparr>m_instance := Some ((dispatcher_new SINGLE_LOOP 1)\<lparr>workers := [worker_new 0 (Some 0)],
     dm_started := True, dm_term := terminated\<rparr>), joinable := [True]\<rparr>"


text \<open>
  C35: a signal handler works once. Before the dispatcher is started, \<^verbatim>\<open>add_signal_handler\<close> arms a watcher; the
  first signal calls the user's function with the signal's number. The callback then deletes the function object but leaves the
  watcher started, so the second signal calls through freed memory.
\<close>

theorem signal_handler_works_once:
  assumes "\<not> (case m_instance st of None \<Rightarrow> False | Some s \<Rightarrow> dm_started s)"
    and "sig \<notin> fst ` set (signal_watchers st)"
  shows "\<exists>st1 st2. add_signal_handler sig func st = Inr st1 \<and> signal_arrives sig st1 = Inr st2 \<and>
    signal_calls st2 = signal_calls st @ [(func, sig)] \<and> signal_arrives sig st2 = Inl Memory"
proof -
  have "filter (\<lambda>w. fst w = sig) (signal_watchers st) = []" using assms(2) by (auto simp: filter_empty_conv)
  with assms(1) show ?thesis
    by (simp add: add_signal_handler_def signal_arrives_def handle_signal_def)
qed

theorem signal_handler_works_once_witness:
  "\<exists>st1 st2. add_signal_handler 2 7 statics_init = Inr st1 \<and> signal_arrives 2 st1 = Inr st2 \<and>
     signal_calls st2 = [(7, 2)] \<and> signal_arrives 2 st2 = Inl Memory"
  using signal_handler_works_once [of statics_init 2 7] by (simp add: statics_init_def)

end
