(* ===== verification/Thrift.thy ===== *)
theory Thrift
  imports Net_Tasks
begin

text \<open>
  Serving Apache Thrift over uwsgi: the transport (\<^verbatim>\<open>include/tasks/net/uwsgi_thrift_transport.h\<close>), the
  synchronous processor (\<^verbatim>\<open>uwsgi_thrift_processor.h\<close>), the asynchronous processor and its handlers
  (\<^verbatim>\<open>uwsgi_thrift_async_processor.h\<close>, \<^verbatim>\<open>uwsgi_thrift_async_handler.h\<close>) and the writer of results
  (\<^verbatim>\<open>include/tasks/tools/thrift_server_writer.h\<close>).

  Apache Thrift and the code it generates are a parameter. All the library sees of them is which calls
  they make on a transport: \<open>'a tio\<close> is a piece of such code that ends with a value or an exception of
  Thrift. The classes \<open>thrift_code\<close> and \<open>handler_class\<close> collect the calls the processors make.
\<close>

section \<open>Code that talks to a transport\<close>

datatype 'a tio =
    Result 'a
  | Throws thrift_exception
  | Read_bytes int "bytes \<Rightarrow> 'a tio"
  | Write_bytes bytes "'a tio"

record 's transport =
  tr_read :: "int \<Rightarrow> ('s, bytes) prog"
  tr_write :: "bytes \<Rightarrow> ('s, unit) prog"

primrec run_io :: "'s transport \<Rightarrow> 'a tio \<Rightarrow> ('s, 'a) prog" where
  "run_io T (Result a) = ret a"
| "run_io T (Throws e) = fails (Foreign e)"
| "run_io T (Read_bytes n f) = bnd (tr_read T n) (\<lambda>d. run_io T (f d))"
| "run_io T (Write_bytes d p) = sq (tr_write T d) (run_io T p)"

primrec tbind :: "'a tio \<Rightarrow> ('a \<Rightarrow> 'b tio) \<Rightarrow> 'b tio" where
  "tbind (Result a) g = g a"
| "tbind (Throws e) g = Throws e"
| "tbind (Read_bytes n f) g = Read_bytes n (\<lambda>d. tbind (f d) g)"
| "tbind (Write_bytes d p) g = Write_bytes d (tbind p g)"

lemma run_tbind: "run_io T (tbind p g) = bnd (run_io T p) (\<lambda>a. run_io T (g a))"
  by (induction p) (simp_all add: bnd_assoc sq_def)

text \<open>
  The methods of \<^verbatim>\<open>uwsgi_thrift_transport\<close>. A negative size stays negative through the conversions to
  \<^verbatim>\<open>std::size_t\<close> and \<^verbatim>\<open>std::streamsize\<close>, and \<^verbatim>\<open>xsgetn\<close> of the standard library copies nothing then.
\<close>

definition transport_read :: "int \<Rightarrow> ('z http_base_scheme, bytes) prog" where
  "transport_read n h =
     (if n < 0 then (Inr [], h)
      else case http_read (nat n) h of Inl e \<Rightarrow> (Inl e, h) | Inr (d, h') \<Rightarrow> (Inr d, h'))"

definition transport_write :: "bytes \<Rightarrow> ('z http_base_scheme, unit) prog" where
  "transport_write data h = (case http_write data h of Inl e \<Rightarrow> (Inl e, h) | Inr (_, h') \<Rightarrow> (Inr (), h'))"

text \<open>A processor reads from its request and writes into its response.\<close>

definition on_fst :: "('s, 'a) prog \<Rightarrow> ('s \<times> 't, 'a) prog" where
  "on_fst m = (\<lambda>(s, t). case m s of (r, s') \<Rightarrow> (r, (s', t)))"

definition on_snd :: "('t, 'a) prog \<Rightarrow> ('s \<times> 't, 'a) prog" where
  "on_snd m = (\<lambda>(s, t). case m t of (r, t') \<Rightarrow> (r, (s, t')))"

definition server_transport :: "(uwsgi_request \<times> http_response) transport" where
  "server_transport = \<lparr>tr_read = (\<lambda>n. on_fst (transport_read n)), tr_write = (\<lambda>d. on_snd (transport_write d))\<rparr>"

section \<open>Thrift as the processors use it\<close>

definition T_CALL :: nat where "T_CALL = 1"
definition T_REPLY :: nat where "T_REPLY = 2"
definition T_EXCEPTION :: nat where "T_EXCEPTION = 3"
definition T_ONEWAY :: nat where "T_ONEWAY = 4"
definition T_STRUCT :: nat where "T_STRUCT = 12"

text \<open>
  The methods of \<^verbatim>\<open>TBinaryProtocol\<close> and of the generated classes for the arguments \<open>'a\<close> and the result \<open>'r\<close>.
  \<^verbatim>\<open>readEnd\<close>, \<^verbatim>\<open>writeEnd\<close> and \<^verbatim>\<open>flush\<close> of the transport do nothing: the class overrides the last one with an
  empty body and inherits the others from Thrift's base class.
\<close>

record ('a, 'r) thrift_code =
  tc_readMessageBegin :: "(string \<times> nat \<times> int) tio"
  tc_readMessageEnd :: "unit tio"
  tc_read_args :: "'a tio"
  tc_writeMessageBegin :: "string \<Rightarrow> nat \<Rightarrow> int \<Rightarrow> unit tio"
  tc_writeMessageEnd :: "unit tio"
  tc_write_result :: "'r \<Rightarrow> unit tio"
  tc_set_success :: "'r \<Rightarrow> 'r"
  tc_write_exception :: "string \<Rightarrow> unit tio"
  tc_writeStructBegin :: "string \<Rightarrow> unit tio"
  tc_writeStructEnd :: "unit tio"
  tc_writeFieldBegin :: "string \<Rightarrow> nat \<Rightarrow> int \<Rightarrow> unit tio"
  tc_writeFieldEnd :: "unit tio"
  tc_writeFieldStop :: "unit tio"

section \<open>thrift\_server\_writer.h\<close>

definition server_writer_write :: "('a, 'r) thrift_code \<Rightarrow> string \<Rightarrow> ('d \<Rightarrow> unit tio) \<Rightarrow> 'd \<Rightarrow> unit tio" where
  "server_writer_write L name write_to d =
     tbind (tc_writeMessageBegin L name T_REPLY 0) (\<lambda>_.
     tbind (tc_writeStructBegin L ''result'') (\<lambda>_.
     tbind (tc_writeFieldBegin L ''success'' T_STRUCT 0) (\<lambda>_.
     tbind (write_to d) (\<lambda>_.
     tbind (tc_writeFieldEnd L) (\<lambda>_.
     tbind (tc_writeFieldStop L) (\<lambda>_.
     tbind (tc_writeStructEnd L) (\<lambda>_. tc_writeMessageEnd L)))))))"

section \<open>Programs of a processor\<close>

text \<open>A method of a processor works on the task and adds to the calls it makes on the task system.\<close>

type_synonym ('z, 'a) task_prog = "('z uwsgi_task_scheme \<times> h_action list, 'a) prog"

definition acts :: "h_action list \<Rightarrow> ('z, unit) task_prog" where
  "acts as = modify (\<lambda>(t, did). (t, did @ as))"

definition on_io :: "'a tio \<Rightarrow> ('z, 'a) task_prog" where
  "on_io p = (\<lambda>(t, did). case run_io server_transport p (tm_request t, tm_response t) of
     (r, (q, a)) \<Rightarrow> (r, (t\<lparr>tm_request := q, tm_response := a\<rparr>, did)))"

definition on_response :: "(http_response \<Rightarrow> http_response) \<Rightarrow> ('z, unit) task_prog" where
  "on_response f = modify (\<lambda>(t, did). (t\<lparr>tm_response := f (tm_response t)\<rparr>, did))"

definition on_task :: "('z uwsgi_task_scheme \<Rightarrow> 'z uwsgi_task_scheme) \<Rightarrow> ('z, unit) task_prog" where
  "on_task f = modify (\<lambda>(t, did). (f t, did))"

definition catch_thrift :: "('s, 'a) prog \<Rightarrow> (thrift_exception \<Rightarrow> ('s, 'a) prog) \<Rightarrow> ('s, 'a) prog" where
  "catch_thrift m h s = (case m s of (Inl (Foreign e), s') \<Rightarrow> h e s' | r \<Rightarrow> r)"

definition as_handler :: "('z, bool) task_prog \<Rightarrow> 'z request_handler" where
  "as_handler m t = (case m (t, []) of (r, (t', did)) \<Rightarrow> (did, r, t'))"

lemmas task_prog_defs = acts_def on_io_def on_response_def on_task_def catch_thrift_def as_handler_def

section \<open>uwsgi\_thrift\_processor.h\<close>

text \<open>
  \<^verbatim>\<open>process\<close> is the generated processor with the user's handler behind it. Only the transport exception is
  caught.
\<close>

definition thrift_processor_body :: "(string \<Rightarrow> string \<Rightarrow> bool) \<Rightarrow> bool tio \<Rightarrow> ('z, bool) task_prog" where
  "thrift_processor_body iequals process =
     sq (\<lambda>st. case on_io process st of
           (Inr ok, st) \<Rightarrow> on_response (set_status (if ok then ''200 OK'' else ''400 Bad Request'')) st
         | (Inl (Foreign (TTransportException m)), st) \<Rightarrow>
             sq (acts [Set_exception (tasks_exception_msg UWSGI_THRIFT_TRANSPORT (''TTransportException: '' @ m))])
                (on_response (set_status ''400 Bad Request'')) st
         | (Inl e, st) \<Rightarrow> (Inl e, st))
    (sq (on_response (set_header iequals ''Content-Type'' ''application/x-thrift''))
    (sq (acts send_response) (ret True)))"

definition thrift_processor_request :: "(string \<Rightarrow> string \<Rightarrow> bool) \<Rightarrow> bool tio \<Rightarrow> 'z request_handler" where
  "thrift_processor_request iequals process = as_handler (thrift_processor_body iequals process)"

section \<open>uwsgi\_thrift\_async\_handler.h\<close>

record 'r async_handler = error_base +
  ah_result :: 'r
  ah_uwsgi_task :: bool  \<comment> \<open>\<^verbatim>\<open>m_uwsgi_task\<close> is set\<close>
  ah_finish_func :: bool  \<comment> \<open>\<^verbatim>\<open>m_finish_func\<close> is set\<close>

definition async_handler_new :: "'r \<Rightarrow> 'r async_handler" where
  "async_handler_new r = \<lparr>m_exception = tasks_exception_default, ah_result = r, ah_uwsgi_task = False, ah_finish_func = False\<rparr>"

definition handler_set_error :: "string \<Rightarrow> 'r async_handler \<Rightarrow> 'r async_handler" where
  "handler_set_error msg h = set_exception (tasks_exception_msg UWSGI_THRIFT_HANDLER msg) h"

definition set_uwsgi_task :: "'r async_handler \<Rightarrow> 'r async_handler" where
  "set_uwsgi_task h = h\<lparr>ah_uwsgi_task := True\<rparr>"

definition handler_on_finish :: "'r async_handler \<Rightarrow> 'r async_handler" where
  "handler_on_finish h = h\<lparr>ah_finish_func := True\<rparr>"

text \<open>
  What the user's class adds: the name, the default result, and \<^verbatim>\<open>service\<close>. The latter works on the
  handler object; it may call \<^verbatim>\<open>finish()\<close>, or have another thread call it later, and it may throw after that.
\<close>

record ('a, 'r) handler_class =
  hc_service_name :: string
  hc_result :: 'r
  hc_service :: "'a \<Rightarrow> 'r async_handler \<Rightarrow> 'r async_handler \<times> bool \<times> failure option"

section \<open>uwsgi\_thrift\_async\_processor.h\<close>

record 'r async_processor = uwsgi_task +
  am_seqid :: int
  am_handler :: "'r async_handler option"

type_synonym ('r, 'a) async_prog = "('r async_processor \<times> h_action list, 'a) prog"

definition async_processor_new :: "int \<Rightarrow> sock \<Rightarrow> 'r async_processor" where
  "async_processor_new garbage s = uwsgi_task.extend (uwsgi_task_new garbage s) \<lparr>am_seqid = 0, am_handler = None\<rparr>"

definition the_handler :: "('r, 'r async_handler) async_prog" where
  "the_handler st = (case am_handler (fst st) of None \<Rightarrow> (Inl Memory, st) | Some h \<Rightarrow> (Inr h, st))"

definition set_handler :: "'r async_handler \<Rightarrow> ('r, unit) async_prog" where
  "set_handler h = on_task (\<lambda>t. t\<lparr>am_handler := Some h\<rparr>)"

definition write_thrift_error ::
  "(string \<Rightarrow> string \<Rightarrow> bool) \<Rightarrow> ('a, 'r) thrift_code \<Rightarrow> string \<Rightarrow> string \<Rightarrow> ('r, unit) async_prog" where
  "write_thrift_error iequals L msg service_name =
     sq (on_response (set_header iequals ''X-UWSGI_THRIFT_ASYNC_PROCESSOR_ERROR'' msg))
    (sq (on_response (set_status ''400 Bad Request''))
    (bnd (gets (am_seqid \<circ> fst)) (\<lambda>seqid.
     sq (on_io (tc_writeMessageBegin L service_name T_EXCEPTION seqid))
    (sq (on_io (tc_write_exception L msg))
        (on_io (tc_writeMessageEnd L))))))"

definition send_thrift_response :: "(string \<Rightarrow> string \<Rightarrow> bool) \<Rightarrow> ('r, unit) async_prog" where
  "send_thrift_response iequals =
     sq (on_response (set_header iequals ''Content-Type'' ''application/x-thrift'')) (acts send_response)"

text \<open>The callback that \<^verbatim>\<open>handle_request\<close> gives to the handler; its end is \<open>finish_response\<close> of the task system.\<close>

definition async_finish ::
  "(string \<Rightarrow> string \<Rightarrow> bool) \<Rightarrow> ('a, 'r) thrift_code \<Rightarrow> ('a, 'r) handler_class \<Rightarrow> ('r, unit) async_prog" where
  "async_finish iequals L C =
     bnd the_handler (\<lambda>h.
     sq (if error h
         then write_thrift_error iequals L (''Handler Error: '' @ m_what (m_exception h)) (hc_service_name C)
         else bnd (gets (am_seqid \<circ> fst)) (\<lambda>seqid.
              sq (on_io (tc_writeMessageBegin L (hc_service_name C) T_REPLY seqid))
             (sq (set_handler (h\<lparr>ah_result := tc_set_success L (ah_result h)\<rparr>))
             (sq (on_io (tc_write_result L (tc_set_success L (ah_result h))))
             (sq (on_io (tc_writeMessageEnd L))
                 (on_response (set_status ''200 OK'')))))))
    (sq (on_response (set_header iequals ''Content-Type'' ''application/x-thrift''))
        (acts [Finish_response])))"

text \<open>\<^verbatim>\<open>m_handler->service(args)\<close>: the handler's own part, its call of \<^verbatim>\<open>finish()\<close>, and what it throws.\<close>

definition async_service ::
  "(string \<Rightarrow> string \<Rightarrow> bool) \<Rightarrow> ('a, 'r) thrift_code \<Rightarrow> ('a, 'r) handler_class \<Rightarrow> 'a \<Rightarrow> ('r, unit) async_prog" where
  "async_service iequals L C args =
     bnd the_handler (\<lambda>h. case hc_service C args h of
       (h', finishes, thrown) \<Rightarrow>
         sq (set_handler h')
        (sq (if finishes then async_finish iequals L C else ret ())
            (case thrown of None \<Rightarrow> ret () | Some e \<Rightarrow> fails e)))"

text \<open>The \<^verbatim>\<open>try\<close> block after the head of the message has been read.\<close>

definition async_dispatch ::
  "(string \<Rightarrow> string \<Rightarrow> bool) \<Rightarrow> ('a, 'r) thrift_code \<Rightarrow> ('a, 'r) handler_class \<Rightarrow> string \<times> nat \<times> int \<Rightarrow> ('r, unit) async_prog" where
  "async_dispatch iequals L C = (\<lambda>(fname, mtype, seqid).
     sq (on_task (\<lambda>t. t\<lparr>am_seqid := seqid\<rparr>))
    (if mtype \<noteq> T_CALL \<and> mtype \<noteq> T_ONEWAY
     then sq (write_thrift_error iequals L ''invalid message type'' (hc_service_name C)) (send_thrift_response iequals)
     else if fname \<noteq> hc_service_name C
     then sq (write_thrift_error iequals L ''invalid method name'' (hc_service_name C)) (send_thrift_response iequals)
     else bnd (on_io (tc_read_args L)) (\<lambda>args.
          sq (on_io (tc_readMessageEnd L))
         (sq (acts [Disable_dispose])
             (async_service iequals L C args)))))"

definition async_body ::
  "(string \<Rightarrow> string \<Rightarrow> bool) \<Rightarrow> ('a, 'r) thrift_code \<Rightarrow> ('a, 'r) handler_class \<Rightarrow> ('r, bool) async_prog" where
  "async_body iequals L C =
     sq (set_handler (handler_on_finish (set_uwsgi_task (async_handler_new (hc_result C)))))
    (sq (catch_thrift (bnd (on_io (tc_readMessageBegin L)) (async_dispatch iequals L C))
          (\<lambda>e. sq (write_thrift_error iequals L (''TException: '' @ thrift_what e) (hc_service_name C))
                  (send_thrift_response iequals)))
        (ret True))"

definition async_request ::
  "(string \<Rightarrow> string \<Rightarrow> bool) \<Rightarrow> ('a, 'r) thrift_code \<Rightarrow> ('a, 'r) handler_class \<Rightarrow>
   'r async_processor \<Rightarrow> h_action list \<times> bool result \<times> 'r async_processor" where
  "async_request iequals L C = as_handler (async_body iequals L C)"

section \<open>A transport is a pair of byte strings\<close>

text \<open>
  The specification of a transport: what can be read is a byte string that is consumed from the front,
  what is written is appended to another one.
\<close>

definition byte_transport :: "(bytes \<times> bytes) transport" where
  "byte_transport = \<lparr>tr_read = (\<lambda>n (i, out). (Inr (take (nat n) i), (drop (nat n) i, out))),
     tr_write = (\<lambda>d (i, out). (Inr (), (i, out @ d)))\<rparr>"

locale thrift_transport =
  fixes T :: "'s transport"
    and incoming outgoing :: "'s \<Rightarrow> bytes"
    and rest :: "'s \<Rightarrow> 'f"
    and intact :: "'s \<Rightarrow> bool"
  assumes read_law: "intact s \<Longrightarrow> \<exists>s'. tr_read T n s = (Inr (take (nat n) (incoming s)), s') \<and> intact s' \<and>
      incoming s' = drop (nat n) (incoming s) \<and> outgoing s' = outgoing s \<and> rest s' = rest s"
    and write_law: "intact s \<Longrightarrow> \<exists>s'. tr_write T d s = (Inr (), s') \<and> intact s' \<and>
      incoming s' = incoming s \<and> outgoing s' = outgoing s @ d \<and> rest s' = rest s"
begin

lemma run_refines:
  "intact s \<Longrightarrow> run_io byte_transport p (incoming s, outgoing s) = (r, (i, out)) \<Longrightarrow>
   \<exists>s'. run_io T p s = (r, s') \<and> intact s' \<and> incoming s' = i \<and> outgoing s' = out \<and> rest s' = rest s"
proof (induction p arbitrary: s)
  case (Read_bytes n f)
  from read_law [OF Read_bytes.prems(1), of n] obtain s1 where
    s1: "tr_read T n s = (Inr (take (nat n) (incoming s)), s1)" "intact s1" "incoming s1 = drop (nat n) (incoming s)"
      "outgoing s1 = outgoing s" "rest s1 = rest s" by blast
  have "run_io byte_transport (f (take (nat n) (incoming s))) (incoming s1, outgoing s1) = (r, (i, out))"
    using Read_bytes.prems(2) s1 by (simp add: byte_transport_def bnd_def)
  from Read_bytes.IH [OF _ s1(2) this] s1 show ?case by (simp add: bnd_def)
next
  case (Write_bytes d p)
  from write_law [OF Write_bytes.prems(1), of d] obtain s1 where
    s1: "tr_write T d s = (Inr (), s1)" "intact s1" "incoming s1 = incoming s"
      "outgoing s1 = outgoing s @ d" "rest s1 = rest s" by blast
  have "run_io byte_transport p (incoming s1, outgoing s1) = (r, (i, out))"
    using Write_bytes.prems(2) s1 by (simp add: byte_transport_def sq_def bnd_def)
  from Write_bytes.IH [OF s1(2) this] s1 show ?case by (simp add: sq_def bnd_def)
qed (simp_all add: ret_def fails_def)

end

text \<open>The content of an object aside, its position in the content aside, and the objects of a server.\<close>

definition no_content :: "'z http_base_scheme \<Rightarrow> 'z http_base_scheme" where
  "no_content h = h\<lparr>hm_content_buffer := buffer_new\<rparr>"

definition rewound :: "'z http_base_scheme \<Rightarrow> 'z http_base_scheme" where
  "rewound h = h\<lparr>hm_content_buffer := (hm_content_buffer h)\<lparr>gptr := 0\<rparr>\<rparr>"

definition server_in :: "uwsgi_request \<times> http_response \<Rightarrow> bytes" where
  "server_in s = unread (hm_content_buffer (fst s))"

definition server_out :: "uwsgi_request \<times> http_response \<Rightarrow> bytes" where
  "server_out s = unread (hm_content_buffer (snd s))"

definition server_rest :: "uwsgi_request \<times> http_response \<Rightarrow> uwsgi_request \<times> http_response \<times> nat" where
  "server_rest s = (no_content (fst s), no_content (snd s), gptr (hm_content_buffer (snd s)))"

definition server_ok :: "uwsgi_request \<times> http_response \<Rightarrow> bool" where
  "server_ok s \<longleftrightarrow> buffer_ok (hm_content_buffer (fst s)) \<and> append_ok (hm_content_buffer (snd s))"

lemma transport_read_ok:
  assumes "buffer_ok (hm_content_buffer h)"
  shows "\<exists>h'. transport_read n h = (Inr (take (nat n) (unread (hm_content_buffer h))), h') \<and>
    buffer_ok (hm_content_buffer h') \<and> unread (hm_content_buffer h') = drop (nat n) (unread (hm_content_buffer h)) \<and>
    no_content h' = no_content h \<and> rewound h' = rewound h"
proof (cases "n < 0")
  case False
  let ?b = "hm_content_buffer h"
  let ?b' = "?b\<lparr>gptr := gptr ?b + min (nat n) (m_size ?b - gptr ?b)\<rparr>"
  have "buffer_ok ?b'" "unread ?b' = drop (nat n) (unread ?b)"
    using assms by (auto simp: buffer_ok_def unread_def min_def add.commute)
  then show ?thesis using False buffer_read_ok [OF assms]
    by (simp add: transport_read_def http_read_def no_content_def rewound_def)
qed (use assms in \<open>simp add: transport_read_def\<close>)

lemma transport_write_ok:
  assumes "append_ok (hm_content_buffer h)"
  shows "\<exists>h'. transport_write d h = (Inr (), h') \<and> append_ok (hm_content_buffer h') \<and>
    unread (hm_content_buffer h') = unread (hm_content_buffer h) @ d \<and>
    gptr (hm_content_buffer h') = gptr (hm_content_buffer h) \<and> no_content h' = no_content h"
proof -
  obtain b where b: "buffer_write d (hm_content_buffer h) = Inr (length d, b)" "append_ok b"
    "unread b = unread (hm_content_buffer h) @ d" "gptr b = gptr (hm_content_buffer h)"
    using buffer_write_append [OF assms] by blast
  then show ?thesis by (simp add: transport_write_def http_write_def no_content_def)
qed

interpretation server: thrift_transport server_transport server_in server_out server_rest server_ok
proof
  fix s :: "uwsgi_request \<times> http_response" and n d
  assume s: "server_ok s"
  obtain q a where qa: "s = (q, a)" by fastforce
  show "\<exists>s'. tr_read server_transport n s = (Inr (take (nat n) (server_in s)), s') \<and> server_ok s' \<and>
      server_in s' = drop (nat n) (server_in s) \<and> server_out s' = server_out s \<and> server_rest s' = server_rest s"
    using transport_read_ok [of q n] s unfolding qa
    by (auto simp: server_transport_def server_in_def server_out_def server_rest_def server_ok_def on_fst_def)
  show "\<exists>s'. tr_write server_transport d s = (Inr (), s') \<and> server_ok s' \<and>
      server_in s' = server_in s \<and> server_out s' = server_out s @ d \<and> server_rest s' = server_rest s"
    using transport_write_ok [of a d] s unfolding qa
    by (auto simp: server_transport_def server_in_def server_out_def server_rest_def server_ok_def on_snd_def)
qed

section \<open>What a processor does, over byte strings\<close>

text \<open>
  An abstract task: the bytes left to read of the request, the bytes written to the response, and the
  rest of the task. \<open>does m x r y\<close>: from every task of that description \<open>m\<close> ends with \<open>r\<close> in one of
  the description \<open>y\<close>; the list is the calls made on the task system so far.
\<close>

definition frame_of :: "'z uwsgi_task_scheme \<Rightarrow> 'z uwsgi_task_scheme" where
  "frame_of t = t\<lparr>tm_request := no_content (tm_request t), tm_response := no_content (tm_response t)\<rparr>"

fun described :: "bytes \<times> bytes \<times> 'z uwsgi_task_scheme \<Rightarrow> 'z uwsgi_task_scheme \<Rightarrow> bool" where
  "described (i, out, f) t \<longleftrightarrow> server_ok (tm_request t, tm_response t) \<and>
     server_in (tm_request t, tm_response t) = i \<and> server_out (tm_request t, tm_response t) = out \<and>
     gptr (hm_content_buffer (tm_response t)) = 0 \<and> frame_of t = f"

definition does :: "('z, 'a) task_prog \<Rightarrow> (bytes \<times> bytes \<times> 'z uwsgi_task_scheme) \<times> h_action list \<Rightarrow>
    'a result \<Rightarrow> (bytes \<times> bytes \<times> 'z uwsgi_task_scheme) \<times> h_action list \<Rightarrow> bool" where
  "does m x r y \<longleftrightarrow> (\<forall>t. described (fst x) t \<longrightarrow> (\<exists>t'. m (t, snd x) = (r, (t', snd y)) \<and> described (fst y) t'))"

named_theorems run_rules \<open>how the methods of a processor go\<close>

lemma does_ret [run_rules]: "does (ret a) x (Inr a) x"
  by (simp add: does_def ret_def)

lemma does_fails [run_rules]: "does (fails e) x (Inl e) x"
  by (simp add: does_def fails_def)

lemma does_bnd: "does m x (Inr a) y \<Longrightarrow> does (f a) y r z \<Longrightarrow> does (bnd m f) x r z"
  unfolding does_def bnd_def by fastforce

lemma does_bnd_fail: "does m x (Inl e) y \<Longrightarrow> does (bnd m f) x (Inl e) y"
  unfolding does_def bnd_def by fastforce

lemma does_sq: "does m x (Inr ()) y \<Longrightarrow> does n y r z \<Longrightarrow> does (sq m n) x r z"
  unfolding sq_def by (rule does_bnd)

lemma does_end: "does m x r y \<Longrightarrow> y = y' \<Longrightarrow> does m x r y'"
  by simp

lemma does_catch_thrift:
  "does m x (Inr a) y \<Longrightarrow> does (catch_thrift m h) x (Inr a) y"
  "does m x (Inl (Foreign e)) y \<Longrightarrow> does (h e) y r z \<Longrightarrow> does (catch_thrift m h) x r z"
  unfolding does_def catch_thrift_def by fastforce+

lemma does_acts [run_rules]: "does (acts as) (s, did) (Inr ()) (s, did @ as)"
  by (simp add: does_def acts_def modify_def)

lemma does_on_io:
  assumes "run_io byte_transport p (i, out) = (r, (i', out'))"
  shows "does (on_io p) ((i, out, f), did) r ((i', out', f), did)"
  unfolding does_def
proof (intro allI impI)
  fix t
  assume t: "described (fst ((i, out, f), did)) t"
  let ?s = "(tm_request t, tm_response t)"
  have "run_io byte_transport p (server_in ?s, server_out ?s) = (r, (i', out'))" using assms t by simp
  from server.run_refines [OF _ this] t obtain q a where
    s': "run_io server_transport p ?s = (r, (q, a))" "server_ok (q, a)" "server_in (q, a) = i'" "server_out (q, a) = out'"
      "server_rest (q, a) = server_rest ?s" by auto
  then have "frame_of (t\<lparr>tm_request := q, tm_response := a\<rparr>) = frame_of t"
    by (simp add: frame_of_def server_rest_def)
  with s' t show "\<exists>t'. on_io p (t, snd ((i, out, f), did)) = (r, (t', snd ((i', out', f), did))) \<and>
      described (fst ((i', out', f), did)) t'"
    by (simp add: on_io_def server_rest_def)
qed

lemma does_on_response:
  assumes "\<And>a b. f (a\<lparr>hm_content_buffer := b\<rparr>) = (f a)\<lparr>hm_content_buffer := b\<rparr>"
  shows "does (on_response f) ((i, out, fr), did) (Inr ()) ((i, out, fr\<lparr>tm_response := f (tm_response fr)\<rparr>), did)"
proof -
  have c: "hm_content_buffer (f a) = hm_content_buffer a" for a
    using arg_cong [OF assms [where a = a and b = "hm_content_buffer a"], of hm_content_buffer] by simp
  have n: "no_content (f a) = f (no_content a)" for a using assms by (simp add: no_content_def)
  show ?thesis
    by (auto simp: does_def on_response_def modify_def c n frame_of_def server_ok_def server_in_def server_out_def)
qed

lemma does_on_task:
  assumes "\<And>t. tm_request (g t) = tm_request t" "\<And>t. tm_response (g t) = tm_response t" "\<And>t. frame_of (g t) = g (frame_of t)"
  shows "does (on_task g) ((i, out, fr), did) (Inr ()) ((i, out, g fr), did)"
  by (auto simp: does_def on_task_def modify_def assms)

lemma does_gets_seqid [run_rules]: "does (gets (am_seqid \<circ> fst)) ((i, out, f), did) (Inr (am_seqid f)) ((i, out, f), did)"
  by (auto simp: does_def gets_def frame_of_def)

lemma does_the_handler: "am_handler f = Some h \<Longrightarrow> does the_handler ((i, out, f), did) (Inr h) ((i, out, f), did)"
  by (auto simp: does_def the_handler_def frame_of_def)

lemma does_set_handler [run_rules]:
  "does (set_handler h) ((i, out, f), did) (Inr ()) ((i, out, f\<lparr>am_handler := Some h\<rparr>), did)"
  unfolding set_handler_def by (rule does_on_task) (simp_all add: frame_of_def)

lemma does_set_header [run_rules]: "does (on_response (set_header iequals n v)) ((i, out, fr), did) (Inr ())
    ((i, out, fr\<lparr>tm_response := set_header iequals n v (tm_response fr)\<rparr>), did)"
  by (rule does_on_response) (simp add: set_header_def Let_def)

lemma does_set_status [run_rules]: "does (on_response (set_status v)) ((i, out, fr), did) (Inr ())
    ((i, out, fr\<lparr>tm_response := set_status v (tm_response fr)\<rparr>), did)"
  by (rule does_on_response) (simp add: set_status_def)

section \<open>What is relied on of Thrift\<close>

text \<open>
  Writing produces bytes and reading consumes them, or throws, in dependence of what is there: \<open>codec\<close> is
  the format of Thrift's messages, and \<open>codes L D\<close> says that the methods follow it.
\<close>

record ('a, 'r) codec =
  cd_begin :: "bytes \<Rightarrow> (thrift_exception + string \<times> nat \<times> int) \<times> bytes"
  cd_args :: "bytes \<Rightarrow> (thrift_exception + 'a) \<times> bytes"
  cd_end :: "bytes \<Rightarrow> (thrift_exception + unit) \<times> bytes"
  ce_begin :: "string \<Rightarrow> nat \<Rightarrow> int \<Rightarrow> bytes"
  ce_end :: bytes
  ce_result :: "'r \<Rightarrow> bytes"
  ce_exception :: "string \<Rightarrow> bytes"

definition writes :: "unit tio \<Rightarrow> bytes \<Rightarrow> bool" where
  "writes p d \<longleftrightarrow> (\<forall>i out. run_io byte_transport p (i, out) = (Inr (), (i, out @ d)))"

definition reads :: "'a tio \<Rightarrow> (bytes \<Rightarrow> (thrift_exception + 'a) \<times> bytes) \<Rightarrow> bool" where
  "reads p f \<longleftrightarrow> (\<forall>i out. run_io byte_transport p (i, out) = (map_sum Foreign id (fst (f i)), (snd (f i), out)))"

definition codes :: "('a, 'r) thrift_code \<Rightarrow> ('a, 'r) codec \<Rightarrow> bool" where
  "codes L D \<longleftrightarrow> reads (tc_readMessageBegin L) (cd_begin D) \<and> reads (tc_read_args L) (cd_args D) \<and>
     reads (tc_readMessageEnd L) (cd_end D) \<and> (\<forall>n ty id. writes (tc_writeMessageBegin L n ty id) (ce_begin D n ty id)) \<and>
     writes (tc_writeMessageEnd L) (ce_end D) \<and> (\<forall>r. writes (tc_write_result L r) (ce_result D r)) \<and>
     (\<forall>m. writes (tc_write_exception L m) (ce_exception D m))"

lemma codesD:
  assumes "codes L D"
  shows "writes (tc_writeMessageBegin L n ty seqid) (ce_begin D n ty seqid)" "writes (tc_writeMessageEnd L) (ce_end D)"
    "writes (tc_write_result L r) (ce_result D r)" "writes (tc_write_exception L m) (ce_exception D m)"
  using assms by (simp_all add: codes_def)

lemma does_writes: "writes p d \<Longrightarrow> does (on_io p) ((i, out, f), did) (Inr ()) ((i, out @ d, f), did)"
  by (rule does_on_io) (simp add: writes_def)

lemma does_reads:
  "reads p g \<Longrightarrow> g i = (Inr a, i') \<Longrightarrow> does (on_io p) ((i, out, f), did) (Inr a) ((i', out, f), did)"
  "reads p g \<Longrightarrow> g i = (Inl e, i') \<Longrightarrow> does (on_io p) ((i, out, f), did) (Inl (Foreign e)) ((i', out, f), did)"
  by (rule does_on_io, simp add: reads_def)+

text \<open>The two messages a processor sends, and what it makes of a request.\<close>

definition exception_message :: "('a, 'r) codec \<Rightarrow> string \<Rightarrow> string \<Rightarrow> int \<Rightarrow> bytes" where
  "exception_message D name msg seqid = ce_begin D name T_EXCEPTION seqid @ ce_exception D msg @ ce_end D"

definition reply_message :: "('a, 'r) codec \<Rightarrow> string \<Rightarrow> 'r \<Rightarrow> int \<Rightarrow> bytes" where
  "reply_message D name r seqid = ce_begin D name T_REPLY seqid @ ce_result D r @ ce_end D"

datatype 'a verdict = Refuse string int | Call 'a int

definition verdict_of :: "('a, 'r) codec \<Rightarrow> string \<Rightarrow> bytes \<Rightarrow> 'a verdict" where
  "verdict_of D name body =
     (case cd_begin D body of
        (Inl e, _) \<Rightarrow> Refuse (''TException: '' @ thrift_what e) 0
      | (Inr (fname, mtype, seqid), i) \<Rightarrow>
          if mtype \<noteq> T_CALL \<and> mtype \<noteq> T_ONEWAY then Refuse ''invalid message type'' seqid
          else if fname \<noteq> name then Refuse ''invalid method name'' seqid
          else (case cd_args D i of
                  (Inl e, _) \<Rightarrow> Refuse (''TException: '' @ thrift_what e) seqid
                | (Inr args, i) \<Rightarrow>
                    (case fst (cd_end D i) of
                       Inl e \<Rightarrow> Refuse (''TException: '' @ thrift_what e) seqid
                     | Inr _ \<Rightarrow> Call args seqid)))"

definition refused :: "(string \<Rightarrow> string \<Rightarrow> bool) \<Rightarrow> string \<Rightarrow> http_response \<Rightarrow> http_response" where
  "refused iequals msg a =
     set_status ''400 Bad Request'' (set_header iequals ''X-UWSGI_THRIFT_ASYNC_PROCESSOR_ERROR'' msg a)"

definition typed :: "(string \<Rightarrow> string \<Rightarrow> bool) \<Rightarrow> http_response \<Rightarrow> http_response" where
  "typed iequals a = set_header iequals ''Content-Type'' ''application/x-thrift'' a"

lemma does_write_thrift_error:
  assumes "codes L D"
  shows "does (write_thrift_error iequals L msg name) ((i, out, f), did) (Inr ())
    ((i, out @ exception_message D name msg (am_seqid f), f\<lparr>tm_response := refused iequals msg (tm_response f)\<rparr>), did)"
  unfolding write_thrift_error_def
  by (rule does_end, (rule does_sq does_bnd run_rules does_writes codesD [OF assms])+)
     (simp add: refused_def exception_message_def)

lemma does_refuse:
  assumes "codes L D"
  shows "does (sq (write_thrift_error iequals L msg name) (send_thrift_response iequals)) ((i, out, f), did) (Inr ())
    ((i, out @ exception_message D name msg (am_seqid f), f\<lparr>tm_response := typed iequals (refused iequals msg (tm_response f))\<rparr>),
     did @ send_response)"
  unfolding send_thrift_response_def
  by (rule does_end, (rule does_sq does_write_thrift_error [OF assms] run_rules)+) (simp add: typed_def)

text \<open>The callback fills the response in dependence of the handler and ends with \<open>Finish_response\<close>.\<close>

fun finished :: "(string \<Rightarrow> string \<Rightarrow> bool) \<Rightarrow> ('a, 'r) thrift_code \<Rightarrow> 'r async_handler \<Rightarrow> 'r async_processor \<Rightarrow> 'r async_processor" where
  "finished iequals L h f =
     (if error h then f\<lparr>tm_response := typed iequals (refused iequals (''Handler Error: '' @ m_what (m_exception h)) (tm_response f))\<rparr>
      else f\<lparr>am_handler := Some (h\<lparr>ah_result := tc_set_success L (ah_result h)\<rparr>),
             tm_response := typed iequals (set_status ''200 OK'' (tm_response f))\<rparr>)"

definition handler_message :: "('a, 'r) thrift_code \<Rightarrow> ('a, 'r) codec \<Rightarrow> string \<Rightarrow> 'r async_handler \<Rightarrow> int \<Rightarrow> bytes" where
  "handler_message L D name h seqid =
     (if error h then exception_message D name (''Handler Error: '' @ m_what (m_exception h)) seqid
      else reply_message D name (tc_set_success L (ah_result h)) seqid)"

lemma does_async_finish:
  assumes "codes L D" "am_handler f = Some h"
  shows "does (async_finish iequals L C) ((i, out, f), did) (Inr ())
    ((i, out @ handler_message L D (hc_service_name C) h (am_seqid f), finished iequals L h f), did @ [Finish_response])"
proof (cases "error h")
  case True
  show ?thesis unfolding async_finish_def
    by (rule does_bnd [OF does_the_handler [OF assms(2)]], rule does_end, simp only: True if_True,
        (rule does_sq does_write_thrift_error [OF assms(1)] run_rules)+) (simp add: True typed_def handler_message_def)
next
  case False
  show ?thesis unfolding async_finish_def
    by (rule does_bnd [OF does_the_handler [OF assms(2)]], rule does_end, simp only: False if_False,
        (rule does_sq does_bnd run_rules does_writes codesD [OF assms(1)])+)
       (simp add: False typed_def handler_message_def reply_message_def)
qed

text \<open>The handler object as \<^verbatim>\<open>handle_request\<close> sets it up.\<close>

definition fresh_handler :: "('a, 'r) handler_class \<Rightarrow> 'r async_handler" where
  "fresh_handler C = handler_on_finish (set_uwsgi_task (async_handler_new (hc_result C)))"

lemma does_set_seqid [run_rules]: "does (on_task (\<lambda>t. t\<lparr>am_seqid := seqid\<rparr>)) ((i, out, f), did) (Inr ())
    ((i, out, f\<lparr>am_seqid := seqid\<rparr>), did)"
  by (rule does_on_task) (simp_all add: frame_of_def)

lemma does_dispatch:
  assumes "codes L D"
  shows "mtype \<noteq> T_CALL \<and> mtype \<noteq> T_ONEWAY \<Longrightarrow> does (async_dispatch iequals L C (fname, mtype, seqid)) ((i, out, f), did) (Inr ())
      ((i, out @ exception_message D (hc_service_name C) ''invalid message type'' seqid, f\<lparr>am_seqid := seqid,
        tm_response := typed iequals (refused iequals ''invalid message type'' (tm_response f))\<rparr>), did @ send_response)"
    "\<not> (mtype \<noteq> T_CALL \<and> mtype \<noteq> T_ONEWAY) \<Longrightarrow> fname \<noteq> hc_service_name C \<Longrightarrow>
      does (async_dispatch iequals L C (fname, mtype, seqid)) ((i, out, f), did) (Inr ())
      ((i, out @ exception_message D (hc_service_name C) ''invalid method name'' seqid, f\<lparr>am_seqid := seqid,
        tm_response := typed iequals (refused iequals ''invalid method name'' (tm_response f))\<rparr>), did @ send_response)"
  using does_sq [OF does_set_seqid does_refuse [OF assms]] by (auto simp: async_dispatch_def)

lemma does_dispatch_throw:
  assumes "codes L D" "\<not> (mtype \<noteq> T_CALL \<and> mtype \<noteq> T_ONEWAY)"
  shows "cd_args D i = (Inl e, i') \<Longrightarrow>
      does (async_dispatch iequals L C (hc_service_name C, mtype, seqid)) ((i, out, f), did) (Inl (Foreign e))
        ((i', out, f\<lparr>am_seqid := seqid\<rparr>), did)"
    "cd_args D i = (Inr args, i1) \<Longrightarrow> cd_end D i1 = (Inl e, i') \<Longrightarrow>
      does (async_dispatch iequals L C (hc_service_name C, mtype, seqid)) ((i, out, f), did) (Inl (Foreign e))
        ((i', out, f\<lparr>am_seqid := seqid\<rparr>), did)"
proof -
  have rd: "reads (tc_read_args L) (cd_args D)" "reads (tc_readMessageEnd L) (cd_end D)"
    using assms(1) by (simp_all add: codes_def)
  show "cd_args D i = (Inl e, i') \<Longrightarrow>
      does (async_dispatch iequals L C (hc_service_name C, mtype, seqid)) ((i, out, f), did) (Inl (Foreign e))
        ((i', out, f\<lparr>am_seqid := seqid\<rparr>), did)"
    using assms(2) does_sq [OF does_set_seqid does_bnd_fail [OF does_reads(2) [OF rd(1)]]] by (auto simp: async_dispatch_def)
  show "cd_args D i = (Inr args, i1) \<Longrightarrow> cd_end D i1 = (Inl e, i') \<Longrightarrow>
      does (async_dispatch iequals L C (hc_service_name C, mtype, seqid)) ((i, out, f), did) (Inl (Foreign e))
        ((i', out, f\<lparr>am_seqid := seqid\<rparr>), did)"
    using assms(2) does_sq [OF does_set_seqid does_bnd [OF does_reads(1) [OF rd(1)] does_bnd_fail [OF does_reads(2) [OF rd(2)]]]]
    by (auto simp: async_dispatch_def sq_def)
qed

text \<open>The body of \<^verbatim>\<open>handle_request\<close> from what its \<^verbatim>\<open>try\<close> block does.\<close>

lemma does_async_body:
  assumes "codes L D" "cd_begin D i = (b, i1)"
  shows "b = Inr x \<Longrightarrow> does (async_dispatch iequals L C x) ((i1, out, f\<lparr>am_handler := Some (fresh_handler C)\<rparr>), did) (Inr ()) y \<Longrightarrow>
      does (async_body iequals L C) ((i, out, f), did) (Inr True) y"
    "b = Inr x \<Longrightarrow> does (async_dispatch iequals L C x) ((i1, out, f\<lparr>am_handler := Some (fresh_handler C)\<rparr>), did)
        (Inl (Foreign e)) ((i', out', f'), did') \<Longrightarrow>
      does (async_body iequals L C) ((i, out, f), did) (Inr True)
        ((i', out' @ exception_message D (hc_service_name C) (''TException: '' @ thrift_what e) (am_seqid f'),
          f'\<lparr>tm_response := typed iequals (refused iequals (''TException: '' @ thrift_what e) (tm_response f'))\<rparr>), did' @ send_response)"
    "b = Inl e \<Longrightarrow> does (async_body iequals L C) ((i, out, f), did) (Inr True)
        ((i1, out @ exception_message D (hc_service_name C) (''TException: '' @ thrift_what e) (am_seqid f),
          f\<lparr>am_handler := Some (fresh_handler C), tm_response := typed iequals (refused iequals (''TException: '' @ thrift_what e) (tm_response f))\<rparr>),
         did @ send_response)"
proof -
  have rd: "reads (tc_readMessageBegin L) (cd_begin D)" using assms(1) by (simp add: codes_def)
  note refuse = does_refuse [OF assms(1)]
  note ok = does_sq [OF does_set_handler does_sq [OF does_catch_thrift(1) does_ret]]
  note bad = does_sq [OF does_set_handler does_sq [OF does_catch_thrift(2) [OF _ refuse] does_ret]]
  show "b = Inr x \<Longrightarrow> does (async_dispatch iequals L C x) ((i1, out, f\<lparr>am_handler := Some (fresh_handler C)\<rparr>), did) (Inr ()) y \<Longrightarrow>
      does (async_body iequals L C) ((i, out, f), did) (Inr True) y"
    unfolding async_body_def fresh_handler_def using assms(2) by (intro ok does_bnd [OF does_reads(1) [OF rd]]) simp_all
  show "b = Inr x \<Longrightarrow> does (async_dispatch iequals L C x) ((i1, out, f\<lparr>am_handler := Some (fresh_handler C)\<rparr>), did)
        (Inl (Foreign e)) ((i', out', f'), did') \<Longrightarrow>
      does (async_body iequals L C) ((i, out, f), did) (Inr True)
        ((i', out' @ exception_message D (hc_service_name C) (''TException: '' @ thrift_what e) (am_seqid f'),
          f'\<lparr>tm_response := typed iequals (refused iequals (''TException: '' @ thrift_what e) (tm_response f'))\<rparr>), did' @ send_response)"
    unfolding async_body_def fresh_handler_def using assms(2) by (intro bad does_bnd [OF does_reads(1) [OF rd]]) simp_all
  show "b = Inl e \<Longrightarrow> does (async_body iequals L C) ((i, out, f), did) (Inr True)
        ((i1, out @ exception_message D (hc_service_name C) (''TException: '' @ thrift_what e) (am_seqid f),
          f\<lparr>am_handler := Some (fresh_handler C), tm_response := typed iequals (refused iequals (''TException: '' @ thrift_what e) (tm_response f))\<rparr>),
         did @ send_response)"
    unfolding async_body_def fresh_handler_def using assms(2)
    by (intro does_end [OF bad [OF does_bnd_fail [OF does_reads(2) [OF rd]]]]) simp_all
qed

text \<open>A call whose arguments or end do not parse.\<close>

lemma does_async_unparsed:
  assumes "codes L D" "verdict_of D (hc_service_name C) i = Refuse msg seqid"
    and b: "cd_begin D i = (Inr (hc_service_name C, mtype, sid), i1)" and call: "\<not> (mtype \<noteq> T_CALL \<and> mtype \<noteq> T_ONEWAY)"
  shows "\<exists>i'. does (async_body iequals L C) ((i, out, f), did) (Inr True)
    ((i', out @ exception_message D (hc_service_name C) msg sid, f\<lparr>am_handler := Some (fresh_handler C), am_seqid := sid,
      tm_response := typed iequals (refused iequals msg (tm_response f))\<rparr>), did @ send_response)"
proof -
  let ?f = "f\<lparr>am_handler := Some (fresh_handler C)\<rparr>"
  obtain a i2 where a: "cd_args D i1 = (a, i2)" by fastforce
  note th = does_dispatch_throw [OF assms(1) call, where i = i1 and iequals = iequals and C = C and seqid = sid and out = out
      and f = ?f and did = did]
  have r: "does (async_body iequals L C) ((i, out, f), did) (Inr True)
      ((i', out @ exception_message D (hc_service_name C) (''TException: '' @ thrift_what e) sid,
        ?f\<lparr>am_seqid := sid, tm_response := typed iequals (refused iequals (''TException: '' @ thrift_what e) (tm_response f))\<rparr>),
       did @ send_response)"
    if "does (async_dispatch iequals L C (hc_service_name C, mtype, sid)) ((i1, out, ?f), did) (Inl (Foreign e))
      ((i', out, ?f\<lparr>am_seqid := sid\<rparr>), did)" for e i'
    using does_async_body(2) [OF assms(1) b refl that] by simp
  show ?thesis
  proof (cases a)
    case (Inl e)
    with assms(2) b call a have "msg = ''TException: '' @ thrift_what e" by (auto simp: verdict_of_def)
    with r [OF th(1)] a Inl show ?thesis by auto
  next
    case (Inr args)
    obtain en i3 where en: "cd_end D i2 = (en, i3)" by fastforce
    with assms(2) b call a Inr obtain e where "en = Inl e" "msg = ''TException: '' @ thrift_what e"
      by (auto simp: verdict_of_def split: sum.splits)
    with r [OF th(2)] a Inr en show ?thesis by auto
  qed
qed

lemma does_async_refuse:
  assumes "codes L D" "verdict_of D (hc_service_name C) i = Refuse msg seqid" "am_seqid f = 0"
  shows "\<exists>i'. does (async_body iequals L C) ((i, out, f), did) (Inr True)
    ((i', out @ exception_message D (hc_service_name C) msg seqid, f\<lparr>am_handler := Some (fresh_handler C), am_seqid := seqid,
      tm_response := typed iequals (refused iequals msg (tm_response f))\<rparr>), did @ send_response)"
proof -
  let ?f = "f\<lparr>am_handler := Some (fresh_handler C)\<rparr>"
  obtain b i1 where b: "cd_begin D i = (b, i1)" by fastforce
  note body = does_async_body [OF assms(1) b]
  have same: "f\<lparr>am_handler := x, am_seqid := 0, tm_response := y\<rparr> = f\<lparr>am_handler := x, tm_response := y\<rparr>" for x y
    using assms(3) by (cases f) simp
  show ?thesis
  proof (cases b)
    case (Inl e)
    with b assms(2) have "msg = ''TException: '' @ thrift_what e" "seqid = 0" by (simp_all add: verdict_of_def)
    with body(3) [OF Inl, of iequals C out f did] assms(3) show ?thesis by (auto simp: same)
  next
    case (Inr x)
    obtain fname mtype sid where x: "x = (fname, mtype, sid)" by (metis prod_cases3)
    note d = does_dispatch [OF assms(1), where mtype = mtype and iequals = iequals and C = C and fname = fname and seqid = sid
        and i = i1 and out = out and f = ?f and did = did]
    have sid: "seqid = sid" using assms(2) b Inr x by (auto simp: verdict_of_def split: if_splits prod.splits sum.splits)
    consider "mtype \<noteq> T_CALL \<and> mtype \<noteq> T_ONEWAY" | "\<not> (mtype \<noteq> T_CALL \<and> mtype \<noteq> T_ONEWAY)" "fname \<noteq> hc_service_name C"
      | "\<not> (mtype \<noteq> T_CALL \<and> mtype \<noteq> T_ONEWAY)" "fname = hc_service_name C" by blast
    then show ?thesis
    proof cases
      case 1
      with assms(2) b Inr x have "msg = ''invalid message type''" by (simp add: verdict_of_def)
      with body(1) [OF Inr, unfolded x, OF d(1) [OF 1]] sid show ?thesis by (auto intro: exI [of _ i1])
    next
      case 2
      with assms(2) b Inr x have "msg = ''invalid method name''" by (auto simp: verdict_of_def)
      with body(1) [OF Inr, unfolded x, OF d(2) [OF 2]] sid show ?thesis by (auto intro: exI [of _ i1])
    next
      case 3
      from does_async_unparsed [OF assms(1,2) b [unfolded Inr x 3(2)] 3(1)] show ?thesis unfolding sid .
    qed
  qed
qed

text \<open>A message for the handler: what the service does, with what it throws.\<close>

lemma does_service:
  assumes "codes L D" "am_handler f = Some h" "hc_service C args h = (h', finishes, thrown)"
  shows "does (async_service iequals L C args) ((i, out, f), did) (case thrown of None \<Rightarrow> Inr () | Some e \<Rightarrow> Inl e)
    (if finishes
     then ((i, out @ handler_message L D (hc_service_name C) h' (am_seqid f), finished iequals L h' (f\<lparr>am_handler := Some h'\<rparr>)), did @ [Finish_response])
     else ((i, out, f\<lparr>am_handler := Some h'\<rparr>), did))"
proof -
  have t: "does (case thrown of None \<Rightarrow> ret () | Some e \<Rightarrow> fails e) x (case thrown of None \<Rightarrow> Inr () | Some e \<Rightarrow> Inl e) x"
    for x :: "(bytes \<times> bytes \<times> 'b async_processor) \<times> h_action list" by (cases thrown) (simp_all add: run_rules)
  have fin: "does (if finishes then async_finish iequals L C else ret ()) ((i, out, f\<lparr>am_handler := Some h'\<rparr>), did) (Inr ())
      (if finishes
       then ((i, out @ handler_message L D (hc_service_name C) h' (am_seqid f), finished iequals L h' (f\<lparr>am_handler := Some h'\<rparr>)), did @ [Finish_response])
       else ((i, out, f\<lparr>am_handler := Some h'\<rparr>), did))"
    using does_async_finish [OF assms(1), of "f\<lparr>am_handler := Some h'\<rparr>" h' iequals C i out did]
    by (cases finishes) (simp_all add: run_rules)
  show ?thesis unfolding async_service_def
    by (rule does_bnd [OF does_the_handler [OF assms(2)]])
       (simp only: assms(3) prod.case, rule does_sq [OF does_set_handler does_sq [OF fin t]])
qed

lemma does_dispatch_call:
  assumes "codes L D" "cd_begin D i = (Inr (fname, mtype, sid), i1)" "verdict_of D (hc_service_name C) i = Call args seqid"
    and "does (async_service iequals L C args) ((snd (cd_end D (snd (cd_args D i1))), out, f\<lparr>am_seqid := seqid\<rparr>), did @ [Disable_dispose]) r y"
  shows "does (async_dispatch iequals L C (fname, mtype, sid)) ((i1, out, f), did) r y"
proof -
  have rd: "reads (tc_read_args L) (cd_args D)" "reads (tc_readMessageEnd L) (cd_end D)"
    using assms(1) by (simp_all add: codes_def)
  from assms(2,3) have v: "mtype = T_CALL \<or> mtype = T_ONEWAY" "fname = hc_service_name C" "sid = seqid"
    "fst (cd_args D i1) = Inr args" "fst (cd_end D (snd (cd_args D i1))) = Inr ()"
    by (auto simp: verdict_of_def split: if_splits sum.splits prod.splits)
  have "does (bnd (on_io (tc_read_args L)) (\<lambda>args. sq (on_io (tc_readMessageEnd L)) (sq (acts [Disable_dispose]) (async_service iequals L C args))))
      ((i1, out, f\<lparr>am_seqid := seqid\<rparr>), did) r y"
    by (rule does_bnd [OF does_reads(1) [OF rd(1)]], rule prod_eqI, simp add: v(4), simp,
        rule does_sq [OF does_reads(1) [OF rd(2)] does_sq [OF does_acts assms(4)]], rule prod_eqI, simp_all add: v(5))
  from does_sq [OF does_set_seqid this] v show ?thesis by (auto simp: async_dispatch_def)
qed

lemma does_async_call:
  assumes "codes L D" "verdict_of D (hc_service_name C) i = Call args seqid"
    and "hc_service C args (fresh_handler C) = (h, finishes, thrown)"
  shows "\<exists>i'. case thrown of
      None \<Rightarrow> does (async_body iequals L C) ((i, out, f), did) (Inr True)
        (if finishes
         then ((i', out @ handler_message L D (hc_service_name C) h seqid, finished iequals L h (f\<lparr>am_seqid := seqid, am_handler := Some h\<rparr>)),
               did @ [Disable_dispose, Finish_response])
         else ((i', out, f\<lparr>am_seqid := seqid, am_handler := Some h\<rparr>), did @ [Disable_dispose]))
    | Some (Foreign e) \<Rightarrow> \<not> finishes \<longrightarrow> does (async_body iequals L C) ((i, out, f), did) (Inr True)
        ((i', out @ exception_message D (hc_service_name C) (''TException: '' @ thrift_what e) seqid,
          f\<lparr>am_seqid := seqid, am_handler := Some h,
            tm_response := typed iequals (refused iequals (''TException: '' @ thrift_what e) (tm_response f))\<rparr>),
         did @ Disable_dispose # send_response)
    | Some _ \<Rightarrow> True"
proof -
  let ?f = "f\<lparr>am_handler := Some (fresh_handler C)\<rparr>"
  from assms(2) obtain fname mtype sid i1 where b: "cd_begin D i = (Inr (fname, mtype, sid), i1)"
    by (auto simp: verdict_of_def split: if_splits sum.splits prod.splits)
  let ?i = "snd (cd_end D (snd (cd_args D i1)))"
  note svc = does_service [OF assms(1) _ assms(3), where f = "?f\<lparr>am_seqid := seqid\<rparr>" and iequals = iequals
      and i = ?i and out = out and did = "did @ [Disable_dispose]", simplified]
  note call = does_dispatch_call [OF assms(1) b assms(2) svc]
  have u: "f\<lparr>am_handler := x, am_seqid := seqid\<rparr> = f\<lparr>am_seqid := seqid, am_handler := x\<rparr>" for x by simp
  show ?thesis
  proof (cases thrown)
    case None
    with does_async_body(1) [OF assms(1) b refl] call show ?thesis by (auto simp: u intro!: exI [of _ ?i] split: if_splits)
  next
    case (Some e)
    show ?thesis
    proof (cases "\<exists>x. e = Foreign x \<and> \<not> finishes")
      case True
      then obtain x where x: "e = Foreign x" "\<not> finishes" by blast
      with call Some have "does (async_dispatch iequals L C (fname, mtype, sid)) ((i1, out, ?f), did) (Inl (Foreign x))
          ((?i, out, f\<lparr>am_seqid := seqid, am_handler := Some h\<rparr>), did @ [Disable_dispose])" by (simp add: u)
      from does_async_body(2) [OF assms(1) b refl this] Some x show ?thesis by (auto intro!: exI [of _ ?i])
    next
      case False
      with Some show ?thesis by (cases e) auto
    qed
  qed
qed

lemma describe:
  assumes "server_ok (tm_request t, tm_response t)" "server_out (tm_request t, tm_response t) = []"
    "gptr (hm_content_buffer (tm_response t)) = 0"
  shows "described (server_in (tm_request t, tm_response t), [], frame_of t) t"
  using assms by simp

lemma doesD:
  "does m ((i, out, f), as) r ((i', out', f'), as') \<Longrightarrow> described (i, out, f) t \<Longrightarrow>
   \<exists>t'. m (t, as) = (r, (t', as')) \<and> described (i', out', f') t'"
  unfolding does_def by (metis fst_conv snd_conv)

lemma does_request:
  assumes "does (async_body iequals L C) ((i, out, f), []) (Inr True) ((i', out', f'), as)" "described (i, out, f) t"
  shows "\<exists>t'. async_request iequals L C t = (as, Inr True, t') \<and> described (i', out', f') t'"
  using assms by (fastforce simp: does_def async_request_def as_handler_def)

lemma described_response: "described (i, out, f) t \<Longrightarrow> no_content (tm_response t) = tm_response f"
  by (auto simp: frame_of_def)

lemma described_clear:
  assumes "described (i, out, f) t"
  shows "\<exists>f'. described ([], out, f') (t\<lparr>tm_request := uwsgi_clear (tm_request t), am_handler := Some h\<rparr>) \<and>
    am_handler f' = Some h \<and> am_seqid f' = am_seqid f"
  using assms by (auto simp: server_ok_def server_in_def server_out_def uwsgi_clear_def http_clear_def frame_of_def)

section \<open>A small message format\<close>

text \<open>
  An instance of the parameters for the witnesses: the head of a message is a name of one letter and the
  type, arguments and results are one letter.
\<close>

definition short_read :: "nat \<Rightarrow> bytes \<Rightarrow> (bytes \<Rightarrow> 'a) \<Rightarrow> (thrift_exception + 'a) \<times> bytes" where
  "short_read n i f = (if length i < n then (Inl (TTransportException ''end of file''), []) else (Inr (f (take n i)), drop n i))"

definition letters :: "nat \<Rightarrow> (bytes \<Rightarrow> 'a) \<Rightarrow> 'a tio" where
  "letters n f = Read_bytes (int n) (\<lambda>d. if length d < n then Throws (TTransportException ''end of file'') else Result (f d))"

definition short_thrift :: "(char, char) thrift_code" where
  "short_thrift = \<lparr>tc_readMessageBegin = letters 2 (\<lambda>d. ([d ! 0], of_char (d ! 1), 7)), tc_readMessageEnd = Result (),
     tc_read_args = letters 1 hd, tc_writeMessageBegin = (\<lambda>n ty _. Write_bytes (n @ [char_of ty]) (Result ())),
     tc_writeMessageEnd = Result (), tc_write_result = (\<lambda>r. Write_bytes [r] (Result ())), tc_set_success = id,
     tc_write_exception = (\<lambda>m. Write_bytes m (Result ())), tc_writeStructBegin = (\<lambda>_. Result ()), tc_writeStructEnd = Result (),
     tc_writeFieldBegin = (\<lambda>_ _ _. Result ()), tc_writeFieldEnd = Result (), tc_writeFieldStop = Result ()\<rparr>"

definition short_codec :: "(char, char) codec" where
  "short_codec = \<lparr>cd_begin = (\<lambda>i. short_read 2 i (\<lambda>d. ([d ! 0], of_char (d ! 1), 7))), cd_args = (\<lambda>i. short_read 1 i hd),
     cd_end = Pair (Inr ()), ce_begin = (\<lambda>n ty _. n @ [char_of ty]), ce_end = [], ce_result = (\<lambda>r. [r]), ce_exception = id\<rparr>"

lemma reads_letters: "reads (letters n f) (\<lambda>i. short_read n i f)"
  by (simp add: reads_def letters_def short_read_def byte_transport_def bnd_def ret_def fails_def)

lemma short_codes: "codes short_thrift short_codec"
proof -
  have "reads (Result ()) (Pair (Inr ()))" by (simp add: reads_def ret_def)
  moreover have "writes (Result ()) []" "writes (Write_bytes d (Result ())) d" for d
    by (simp_all add: writes_def byte_transport_def sq_def bnd_def ret_def)
  ultimately show ?thesis by (simp add: codes_def short_thrift_def short_codec_def reads_letters)
qed

text \<open>A service \<^verbatim>\<open>l\<close> that returns its argument, at once unless it is \<^verbatim>\<open>w\<close>, and throws on \<^verbatim>\<open>t\<close>.\<close>

definition echo_class :: "(char, char) handler_class" where
  "echo_class = \<lparr>hc_service_name = ''l'', hc_result = CHR ''0'',
     hc_service = (\<lambda>a h. (h\<lparr>ah_result := a\<rparr>, a \<noteq> CHR ''w'' \<and> a \<noteq> CHR ''t'',
       if a = CHR ''t'' then Some (Foreign (TException ''no'')) else None))\<rparr>"

definition task_with :: "bytes \<Rightarrow> char async_processor" where
  "task_with body = (async_processor_new 0 (socket_of_fd 3))\<lparr>tm_request := uwsgi_request_new\<lparr>hm_content_buffer :=
     \<lparr>m_buffer = body, m_size = length body, gptr = 0, pptr = length body\<rparr>\<rparr>\<rparr>"

lemma task_with_ok:
  "server_ok (tm_request (task_with body), tm_response (task_with body))"
  "server_out (tm_request (task_with body), tm_response (task_with body)) = []"
  "server_in (tm_request (task_with body), tm_response (task_with body)) = body"
  "gptr (hm_content_buffer (tm_response (task_with body))) = 0" "am_seqid (task_with body) = 0"
  by (simp_all add: task_with_def async_processor_new_def uwsgi_task.defs uwsgi_task_new_def http_response_new_def
      server_ok_def server_in_def server_out_def append_ok_def buffer_ok_def unread_def buffer_new_def)

section \<open>The synchronous processor\<close>

lemma thrift_processor_outcome:
  assumes "described (i, out, f) t" "run_io byte_transport process (i, out) = (r, (i', out'))"
  shows "\<exists>t'. (case r of
      Inr ok \<Rightarrow> thrift_processor_request iequals process t = (send_response, Inr True, t') \<and> described (i', out',
        f\<lparr>tm_response := typed iequals (set_status (if ok then ''200 OK'' else ''400 Bad Request'') (tm_response f))\<rparr>) t'
    | Inl (Foreign (TTransportException m)) \<Rightarrow> thrift_processor_request iequals process t =
        (Set_exception (tasks_exception_msg UWSGI_THRIFT_TRANSPORT (''TTransportException: '' @ m)) # send_response, Inr True, t') \<and>
        described (i', out', f\<lparr>tm_response := typed iequals (set_status ''400 Bad Request'' (tm_response f))\<rparr>) t'
    | Inl e \<Rightarrow> thrift_processor_request iequals process t = ([], Inl e, t') \<and> described (i', out', f) t')"
proof -
  have io: "does (on_io process) ((i, out, f), []) r ((i', out', f), [])" by (rule does_on_io [OF assms(2)])
  from doesD [OF io assms(1)] obtain t1 where t1: "on_io process (t, []) = (r, (t1, []))" "described (i', out', f) t1" by blast
  have rest: "\<exists>t'. sq (on_response (set_header iequals ''Content-Type'' ''application/x-thrift'')) (sq (acts send_response) (ret True)) (t2, as) =
      (Inr True, (t', as @ send_response)) \<and> described (i', out', f2\<lparr>tm_response := typed iequals (tm_response f2)\<rparr>) t'"
    if "described (i', out', f2) t2" for t2 f2 as
    using doesD [OF does_sq [OF does_set_header does_sq [OF does_acts does_ret]] that] by (simp add: typed_def)
  have status: "\<exists>t'. on_response (set_status v) (t1, as) = (Inr (), (t', as)) \<and>
      described (i', out', f\<lparr>tm_response := set_status v (tm_response f)\<rparr>) t'" for v as
    using doesD [OF does_set_status t1(2)] .
  show ?thesis
  proof (cases r)
    case (Inr ok)
    obtain t2 where t2: "on_response (set_status (if ok then ''200 OK'' else ''400 Bad Request'')) (t1, []) = (Inr (), (t2, []))"
      "described (i', out', f\<lparr>tm_response := set_status (if ok then ''200 OK'' else ''400 Bad Request'') (tm_response f)\<rparr>) t2"
      using status by blast
    from rest [OF t2(2), of "[]"] t1(1) t2(1) Inr show ?thesis
      by (auto simp: thrift_processor_request_def as_handler_def thrift_processor_body_def sq_def bnd_def)
  next
    case (Inl e)
    show ?thesis
    proof (cases "\<exists>m. e = Foreign (TTransportException m)")
      case True
      then obtain m where m: "e = Foreign (TTransportException m)" ..
      let ?x = "[Set_exception (tasks_exception_msg UWSGI_THRIFT_TRANSPORT (''TTransportException: '' @ m))]"
      obtain t2 where t2: "on_response (set_status ''400 Bad Request'') (t1, ?x) = (Inr (), (t2, ?x))"
        "described (i', out', f\<lparr>tm_response := set_status ''400 Bad Request'' (tm_response f)\<rparr>) t2"
        using status by blast
      from rest [OF t2(2), of ?x] t1(1) t2(1) Inl m show ?thesis
        by (auto simp: thrift_processor_request_def as_handler_def thrift_processor_body_def sq_def bnd_def acts_def modify_def)
    next
      case False
      then have "thrift_processor_request iequals process t = ([], Inl e, t1)"
        using t1(1) Inl by (auto simp: thrift_processor_request_def as_handler_def thrift_processor_body_def sq_def bnd_def
            split: failure.splits thrift_exception.splits)
      with Inl False t1(2) show ?thesis by (auto split: failure.splits thrift_exception.splits)
    qed
  qed
qed

section \<open>Properties\<close>



text \<open>
  C34: the synchronous processor lets a message that does not parse end the program. \<^verbatim>\<open>handle_request\<close>
  catches Thrift's transport exception only; any other exception of the generated code (a protocol
  exception for a bad version or size, which a peer can send) leaves \<^verbatim>\<open>handle_request\<close>, and \<^verbatim>\<open>handle_event\<close>
  of the task, which catches exceptions of the library only, passes it on to the worker's thread.
\<close>

theorem protocol_exception_escapes:
  assumes "uwsgi_read_data iequals K (tm_request t, tm_socket t, k) = Some (Inr (), (q, (s, k1)))"
    "is_done q" "modifier1 (um_header q) = UWSGI_VARS"
    "server_ok (q, tm_response t)" "gptr (hm_content_buffer (tm_response t)) = 0"
    "run_io byte_transport process (unread (hm_content_buffer q), unread (hm_content_buffer (tm_response t))) =
      (Inl (Foreign (TException m)), (i', out'))"
  shows "\<exists>t'. uwsgi_handle_event iequals order K (thrift_processor_request iequals process) EV_READ (t, k) =
    Some (Inl (Foreign (TException m)), (t', k1))"
proof -
  let ?t = "t\<lparr>tm_request := q, tm_socket := s\<rparr>"
  have "described (unread (hm_content_buffer q), unread (hm_content_buffer (tm_response t)), frame_of ?t) ?t"
    using assms(4,5) by (simp add: server_in_def server_out_def)
  from thrift_processor_outcome [OF this assms(6), of iequals] obtain t' where
    "thrift_processor_request iequals process ?t = ([], Inl (Foreign (TException m)), t')" by auto
  with assms(1-3) show ?thesis by (simp add: uwsgi_handle_event_def uwsgi_read_event_def)
qed

text \<open>A processor that finds a bad version, on the packet of the uwsgi round trip.\<close>

theorem protocol_exception_escapes_witness:
  "\<exists>h1 t' k'. uwsgi_prepare ascii_iequals id posted_request = Inr h1 \<and>
     uwsgi_handle_event ascii_iequals id eager_kernel
       (thrift_processor_request ascii_iequals (Read_bytes 4 (\<lambda>_. Throws (TException ''bad version'')))) EV_READ
       (uwsgi_task_new 0 (socket_of_fd 3), script_start [] [99, 99, 99] (unread (hm_data_buffer h1) @ ''xyz'')) =
     Some (Inl (Foreign (TException ''bad version'')), (t', k'))"
proof -
  obtain h1 where h1: "uwsgi_prepare ascii_iequals id posted_request = Inr h1" "length (unread (hm_data_buffer h1)) = 33"
    using posted_packet by blast
  define d where "d = unread (hm_data_buffer h1)"
  let ?k = "script_start [] [99, 99, 99] (d @ ''xyz'')" and ?s = "socket_of_fd 3"
  obtain k3 q where q: "uwsgi_read_data ascii_iequals eager_kernel (uwsgi_request_new, (?s, ?k)) = Some (Inr (), (q, (?s, k3)))"
    "is_done q" "buffer_ok (hm_content_buffer q)"
    using posted_arrives [of eager_kernel h1 d] h1 by (auto simp: d_def eager_kernel_def script_kernel_def)
  have m: "modifier1 (um_header q) = UWSGI_VARS"
    using q(2) uwsgi_read_data_inv [OF q(1)] by (auto simp: vars_inv_def is_done_def uwsgi_request_new_def uwsgi_with_def)
  have "\<exists>t'. uwsgi_handle_event ascii_iequals id eager_kernel
       (thrift_processor_request ascii_iequals (Read_bytes 4 (\<lambda>_. Throws (TException ''bad version'')))) EV_READ
       (uwsgi_task_new 0 ?s, ?k) = Some (Inl (Foreign (TException ''bad version'')), (t', k3))"
    by (rule protocol_exception_escapes)
       (use q m in \<open>simp_all add: uwsgi_task_new_def server_ok_def http_response_new_def byte_transport_def bnd_def fails_def\<close>)
  with h1(1) show ?thesis by (auto simp: d_def)
qed

end
