(* ===== verification/Thrift_Tasks.thy ===== *)
theory Thrift_Tasks
  imports Thrift
begin

text \<open>
  The asynchronous Thrift processor as a task of the system: how the end of a response, which can come
  from any thread, interacts with events of the task, with its disposal and with the leader.
\<close>

section \<open>A response that comes too late\<close>

text \<open>
  A processor whose service goes on elsewhere: the request leaves the task waiting with disposal disabled,
  and the next event is the end of the connection.
\<close>

definition handled_before :: "tid \<Rightarrow> sys \<Rightarrow> nat" where
  "handled_before t s = length (filter (\<lambda>x. case x of Handled _ u _ \<Rightarrow> u = t | _ \<Rightarrow> False) (history s))"

definition one_request :: handler where
  "one_request t r s = (if handled_before t s = 1 then ([Disable_dispose], True)
     else ([Set_exception (tasks_exception_msg SOCKET_NOCON ''connection closed'')], False))"

definition request_taken :: "label list" where
  "request_taken = [Thread 0, Start, Thread 0, Thread 0, Add (net_io_task_new 3 EV_READ), Async 0 0, Fire 0 0 EV_READ, Poll_return 0,
     Thread 0, Thread 0, Thread 0, Thread 0]"

text \<open>The peer goes away; between that event and its handling the service finishes; then the task is disposed.\<close>

definition peer_gone :: "label list" where
  "peer_gone = request_taken @ [Fire 0 0 EV_READ, Poll_return 0, Finish 0, Thread 0, Thread 0, Thread 0, Thread 0]"

fun is_memory :: "'a result \<Rightarrow> bool" where
  "is_memory (Inl Memory) = True"
| "is_memory _ = False"

lemma is_memory: "is_memory r \<longleftrightarrow> r = Inl Memory"
  by (cases r rule: is_memory.cases) auto

text \<open>
  C33: the finish callback can leave a closure behind that uses a deleted task. It queues the sending of
  the response and then allows disposal at once. In a state that one worker reaches, the task has been
  disposed of because its peer went away, while the closure is still in the worker's queue: the async
  callback that runs it next touches the deleted task.
\<close>

theorem late_response_uses_deleted_task:
  "\<exists>s. run_from_start one_request SINGLE_LOOP 1 peer_gone = Inr s \<and> lf_reach one_request SINGLE_LOOP 1 s \<and>
     tasks s 0 = None \<and> wm_tfq (workers s ! 0) = [Send_response 0] \<and> wm_async_sent (workers s ! 0) \<and>
     wm_pc (workers s ! 0) = Polling \<and> tasks_async_callback False 0 0 s = Inl Memory"
proof -
  have "\<exists>s. run_from_start one_request SINGLE_LOOP 1 peer_gone = Inr s \<and> lf_reach one_request SINGLE_LOOP 1 s \<and>
      (map_option em_fd (tasks s 0) = None \<and> wm_tfq (workers s ! 0) = [Send_response 0] \<and> wm_async_sent (workers s ! 0) \<and>
       wm_pc (workers s ! 0) = Polling \<and> is_memory (tasks_async_callback False 0 0 s))"
    by (rule lf_reach_run) code_simp
  then show ?thesis by (simp add: is_memory)
qed

end
