(* ===== verification/Thrift_Client.thy ===== *)
theory Thrift_Client
  imports Thrift
begin

text \<open>
  The blocking Thrift client over uwsgi (\<^verbatim>\<open>include/tasks/net/uwsgi_thrift_client.h\<close>), and a call from end
  to end: the client's request, its way to the asynchronous processor, and the reply back.
\<close>

section \<open>The client\<close>

record thrift_client =
  cl_request :: uwsgi_request
  cl_response :: http_response
  cl_socket :: sock

text \<open>
  The constructors: \<open>garbage\<close> is what the request's packet header and the response's status code hold,
  which neither initialises.
\<close>

definition client_new_host :: "uwsgi_packet_header \<times> int \<Rightarrow> string \<Rightarrow> int \<Rightarrow> thrift_client" where
  "client_new_host garbage host port = \<lparr>cl_request = uwsgi_request_host (fst garbage) host port,
     cl_response = http_response_new (snd garbage), cl_socket = socket_of_fd (-1)\<rparr>"

definition client_new_path :: "uwsgi_packet_header \<times> int \<Rightarrow> string \<Rightarrow> thrift_client" where
  "client_new_path garbage path = \<lparr>cl_request = uwsgi_request_path (fst garbage) path,
     cl_response = http_response_new (snd garbage), cl_socket = socket_of_fd (-1)\<rparr>"

definition client_read :: "int \<Rightarrow> (thrift_client, bytes) prog" where
  "client_read n c = (case transport_read n (cl_response c) of (r, p) \<Rightarrow> (r, c\<lparr>cl_response := p\<rparr>))"

definition client_write :: "bytes \<Rightarrow> (thrift_client, unit) prog" where
  "client_write d c = (case transport_write d (cl_request c) of (r, q) \<Rightarrow> (r, c\<lparr>cl_request := q\<rparr>))"

definition client_transport :: "thrift_client transport" where
  "client_transport = \<lparr>tr_read = client_read, tr_write = client_write\<rparr>"

definition is_open :: "thrift_client \<Rightarrow> bool" where
  "is_open c \<longleftrightarrow> sm_fd (cl_socket c) \<noteq> -1"

type_synonym ('k, 'a) client_prog = "(thrift_client \<times> 'k, 'a) prog"

definition on_client_socket :: "('k, 'a) sock_prog \<Rightarrow> ('k, 'a) client_prog" where
  "on_client_socket m = (\<lambda>(c, k). case m (cl_socket c, k) of (r, (s, k')) \<Rightarrow> (r, (c\<lparr>cl_socket := s\<rparr>, k')))"

definition client_open :: "'k kernel \<Rightarrow> ('k, unit) client_prog" where
  "client_open K =
     bnd (gets fst) (\<lambda>c.
       if is_open c then ret ()
       else sq (on_client_socket (on_obj set_blocking))
              (if um_host (cl_request c) \<noteq> NO_VAL
               then on_client_socket (connect_host K (um_host (cl_request c)) (um_port (cl_request c)))
               else if um_path (cl_request c) \<noteq> NO_VAL
               then on_client_socket (connect_path K (um_path (cl_request c)))
               else ret ()))"

definition client_close :: "'k kernel \<Rightarrow> ('k, unit) client_prog" where
  "client_close K = on_client_socket (io_close K)"

text \<open>\<^verbatim>\<open>readEnd\<close> is declared to return a number and has no \<^verbatim>\<open>return\<close>; what a caller gets is \<open>garbage\<close>.\<close>

definition client_read_end :: "'k kernel \<Rightarrow> 32 word \<Rightarrow> ('k, 32 word) client_prog" where
  "client_read_end K garbage =
     sq (modify (\<lambda>(c, k). (c\<lparr>cl_request := uwsgi_clear (cl_request c), cl_response := response_clear (cl_response c)\<rparr>, k)))
    (sq (client_close K)
    (sq (client_open K) (ret garbage)))"

text \<open>
  \<^verbatim>\<open>flush\<close>: one \<^verbatim>\<open>write_data\<close>, then reads until the response is done, which need not happen.
\<close>

partial_function (option) await_response ::
  "(string \<Rightarrow> string \<Rightarrow> bool) \<Rightarrow> 'k kernel \<Rightarrow> http_response \<times> sock \<times> 'k \<Rightarrow> (unit result \<times> http_response \<times> sock \<times> 'k) option" where
  "await_response iequals K st =
     (if is_done (fst st) then Some (Inr (), st)
      else case response_read_data iequals K st of
             None \<Rightarrow> None
           | Some (Inl e, st') \<Rightarrow> Some (Inl e, st')
           | Some (Inr _, st') \<Rightarrow> await_response iequals K st')"

declare await_response.simps [code]

definition client_flush ::
  "(string \<Rightarrow> string \<Rightarrow> bool) \<Rightarrow> (headers_t \<Rightarrow> headers_t) \<Rightarrow> 'k kernel \<Rightarrow> thrift_client \<times> 'k \<Rightarrow>
   (unit result \<times> thrift_client \<times> 'k) option" where
  "client_flush iequals order K = (\<lambda>(c, k).
     case write_data K (uwsgi_prepare iequals order) (cl_request c, cl_socket c, k) of
       (Inl e, (q, s, k)) \<Rightarrow> Some (Inl e, (c\<lparr>cl_request := q, cl_socket := s\<rparr>, k))
     | (Inr _, (q, s, k)) \<Rightarrow>
         (case await_response iequals K (cl_response c, s, k) of
            None \<Rightarrow> None
          | Some (r, (p, s, k)) \<Rightarrow> Some (r, (c\<lparr>cl_request := q, cl_response := p, cl_socket := s\<rparr>, k))))"

text \<open>A call of the generated client: it writes the message, flushes, and reads the answer.\<close>

definition client_call ::
  "(string \<Rightarrow> string \<Rightarrow> bool) \<Rightarrow> (headers_t \<Rightarrow> headers_t) \<Rightarrow> 'k kernel \<Rightarrow> unit tio \<Rightarrow> 'r tio \<Rightarrow> thrift_client \<times> 'k \<Rightarrow>
   ('r result \<times> thrift_client \<times> 'k) option" where
  "client_call iequals order K send recv = (\<lambda>(c, k).
     case run_io client_transport send c of
       (Inl e, c) \<Rightarrow> Some (Inl e, (c, k))
     | (Inr _, c) \<Rightarrow>
         (case client_flush iequals order K (c, k) of
            None \<Rightarrow> None
          | Some (Inl e, (c, k)) \<Rightarrow> Some (Inl e, (c, k))
          | Some (Inr _, (c, k)) \<Rightarrow> (case run_io client_transport recv c of (r, c) \<Rightarrow> Some (r, (c, k)))))"

section \<open>The client as a transport\<close>

definition client_in :: "thrift_client \<Rightarrow> bytes" where
  "client_in c = unread (hm_content_buffer (cl_response c))"

definition client_out :: "thrift_client \<Rightarrow> bytes" where
  "client_out c = unread (hm_content_buffer (cl_request c))"

definition client_rest :: "thrift_client \<Rightarrow> thrift_client \<times> nat" where
  "client_rest c = (c\<lparr>cl_request := no_content (cl_request c), cl_response := rewound (cl_response c)\<rparr>,
     gptr (hm_content_buffer (cl_request c)))"

definition client_ok :: "thrift_client \<Rightarrow> bool" where
  "client_ok c \<longleftrightarrow> append_ok (hm_content_buffer (cl_request c)) \<and> buffer_ok (hm_content_buffer (cl_response c))"

interpretation client: thrift_transport client_transport client_in client_out client_rest client_ok
proof
  fix c n d
  assume c: "client_ok c"
  show "\<exists>c'. tr_read client_transport n c = (Inr (take (nat n) (client_in c)), c') \<and> client_ok c' \<and>
      client_in c' = drop (nat n) (client_in c) \<and> client_out c' = client_out c \<and> client_rest c' = client_rest c"
    using transport_read_ok [of "cl_response c" n] c
    by (auto simp: client_transport_def client_read_def client_in_def client_out_def client_rest_def client_ok_def)
  show "\<exists>c'. tr_write client_transport d c = (Inr (), c') \<and> client_ok c' \<and>
      client_in c' = client_in c \<and> client_out c' = client_out c @ d \<and> client_rest c' = client_rest c"
    using transport_write_ok [of "cl_request c" d] c
    by (auto simp: client_transport_def client_write_def client_in_def client_out_def client_rest_def client_ok_def)
qed

section \<open>The exchange\<close>

text \<open>A blocking socket sends all of what it is given before \<^verbatim>\<open>sendto\<close> returns.\<close>

definition sends_all :: "'k kernel \<Rightarrow> bool" where
  "sends_all K \<longleftrightarrow> (\<forall>fd data a k. fst (k_sendto K fd data a k) = int (length data))"

lemma sends_all_write:
  assumes "sends_all K" "sm_type s = TCP"
  shows "\<exists>k'. socket_write K data (-1) [] (s, k) = (Inr (int (length data)), (s, k'))"
proof -
  obtain n k' where n: "k_sendto K (sm_fd s) data (sm_addr s) k = (n, k')" by fastforce
  moreover have "n = int (length data)" using assms(1) n unfolding sends_all_def by (metis fst_conv)
  ultimately show ?thesis using socket_write_stream [OF assms(2) n] by simp
qed

lemma send_data_all:
  assumes "sends_all K" "sm_type s = TCP" "bufs_ok h" "hm_state h = WRITE_DATA"
  shows "\<exists>h' k'. send_data K (h, (s, k)) = (Inr (), (h', (s, k'))) \<and> hm_state h' \<in> {WRITE_CONTENT, DONE} \<and> bufs_ok h' \<and>
    hm_content_buffer h' = hm_content_buffer h"
proof -
  let ?b = "hm_data_buffer h"
  have b: "buffer_ok ?b" using assms(3) by (simp add: bufs_ok_def)
  obtain k1 where k1: "socket_write K (unread ?b) (-1) [] (s, k) = (Inr (int (length (unread ?b))), (s, k1))"
    using sends_all_write [OF assms(1,2)] by blast
  let ?b' = "if unread ?b = [] then ?b else move_ptr_read (length (unread ?b)) ?b"
  have ok: "buffer_ok ?b'" "unread ?b' = []" using b by (simp_all add: buffer_ok_move unread_move)
  have w: "write_headers K (h, (s, k)) = (Inr (), (h\<lparr>hm_data_buffer := ?b'\<rparr>, (s, k1)))"
    using k1 b by (auto simp: write_headers_def prog_defs http_prog_defs readable_ok)
  show ?thesis using w assms(3,4) ok to_read_zero [OF ok(1)]
    by (auto simp: send_data_def sq_def bnd_def the_http_def gets_def on_http_def modify_def bufs_ok_def)
qed

lemma send_content_all:
  assumes "sends_all K" "sm_type s = TCP" "bufs_ok h" "hm_state h \<in> {WRITE_CONTENT, DONE}"
  shows "\<exists>h' k'. send_content K (h, (s, k)) = (Inr (), (h', (s, k'))) \<and> hm_state h' = DONE \<and>
    (append_ok (hm_content_buffer h) \<longrightarrow> append_ok (hm_content_buffer h'))"
proof (cases "hm_state h = WRITE_CONTENT")
  case True
  let ?b = "hm_content_buffer h"
  have b: "buffer_ok ?b" using assms(3) by (simp add: bufs_ok_def)
  obtain k1 where k1: "socket_write K (unread ?b) (-1) [] (s, k) = (Inr (int (length (unread ?b))), (s, k1))"
    using sends_all_write [OF assms(1,2)] by blast
  let ?b' = "if unread ?b = [] then ?b else move_ptr_read (length (unread ?b)) ?b"
  have ok: "buffer_ok ?b'" "unread ?b' = []" using b by (simp_all add: buffer_ok_move unread_move)
  have ap: "append_ok ?b \<longrightarrow> append_ok ?b'" using ok(1) by (simp add: append_ok_def move_ptr_read_def)
  have w: "write_content K (h, (s, k)) = (Inr (), (h\<lparr>hm_content_buffer := ?b'\<rparr>, (s, k1)))"
    using k1 b by (auto simp: write_content_def prog_defs http_prog_defs readable_ok)
  show ?thesis using w True ok ap to_read_zero [OF ok(1)]
    by (auto simp: send_content_def sq_def bnd_def the_http_def gets_def on_http_def modify_def)
next
  case False
  with assms(4) show ?thesis by (auto simp: send_content_def prog_defs http_prog_defs)
qed

text \<open>On such a socket one call of \<^verbatim>\<open>write_data\<close> sends the whole request.\<close>

lemma request_sent_at_once:
  assumes "packet_fit iequals order h" "hm_state h = READY" "sends_in_order K sent" "sends_all K" "sm_type s = TCP"
  shows "\<exists>h' k'. write_data K (uwsgi_prepare iequals order) (h, (s, k)) = (Inr (), (h', (s, k'))) \<and> is_done h' \<and>
    (append_ok (hm_content_buffer h) \<longrightarrow> append_ok (hm_content_buffer h')) \<and>
    sent k' (sm_fd s) = sent k (sm_fd s) @ packet_head iequals order h @ unread (hm_content_buffer h)"
proof -
  let ?prep = "uwsgi_prepare iequals order"
  obtain h1 where h1: "?prep h = Inr h1" "bufs_ok h1" "hm_content_buffer h1 = hm_content_buffer h" using uq.prep_ok [OF assms(1)] by blast
  let ?h = "h1\<lparr>hm_state := WRITE_DATA\<rparr>"
  obtain h2 k2 where s1: "send_data K (?h, (s, k)) = (Inr (), (h2, (s, k2)))" "hm_state h2 \<in> {WRITE_CONTENT, DONE}" "bufs_ok h2"
    "hm_content_buffer h2 = hm_content_buffer ?h"
    using send_data_all [OF assms(4,5), of ?h k] h1(2) by (auto simp: bufs_ok_def)
  obtain h3 k3 where s2: "send_content K (h2, (s, k2)) = (Inr (), (h3, (s, k3)))" "hm_state h3 = DONE"
    "append_ok (hm_content_buffer h2) \<longrightarrow> append_ok (hm_content_buffer h3)"
    using send_content_all [OF assms(4,5) s1(3,2)] by blast
  have "fill_data ?prep (h, (s, k)) = (Inr (), (?h, (s, k)))"
    using assms(2) h1(1) by (simp add: fill_data_def prog_defs http_prog_defs)
  with s1(1) s2(1) have w: "write_data K ?prep (h, (s, k)) = (Inr (), (h3, (s, k3)))"
    by (simp add: write_data_def sq_def bnd_def)
  then have "write_calls K ?prep 1 (h, (s, k)) = (h3, (s, k3))" by simp
  from uq.goes_out_in_order [OF assms(1,2,3,5) this] w s1(4) s2(2,3) h1(3) show ?thesis by (auto simp: is_done_def)
qed

section \<open>The two messages on the wire\<close>

definition thrift_packet :: "uwsgi_packet_header \<Rightarrow> bytes \<Rightarrow> bytes" where
  "thrift_packet pkt m = (let enc = encode_var (''CONTENT_LENGTH'', to_string (length m))
     in header_bytes (pkt\<lparr>datasize := word_of_nat (4 + length enc)\<rparr>) @ enc @ replicate 4 (CHR 0x00))"

definition thrift_answer :: "bytes \<Rightarrow> bytes" where
  "thrift_answer body = ''HTTP/1.1 200 OK'' @ CRLF @ ''Content-Type: application/x-thrift'' @ CRLF @
     ''Content-Length: '' @ to_string (length body) @ CRLF @ CRLF @ body"

text \<open>A request that holds a message and nothing else.\<close>

definition posts :: "uwsgi_packet_header \<Rightarrow> bytes \<Rightarrow> uwsgi_request \<Rightarrow> bool" where
  "posts pkt m q \<longleftrightarrow> hm_data_buffer q = buffer_new \<and> append_ok (hm_content_buffer q) \<and> gptr (hm_content_buffer q) = 0 \<and>
     unread (hm_content_buffer q) = m \<and> hm_state q = READY \<and> hm_headers q = [] \<and> um_header q = pkt"

text \<open>A response with the one header the processor sets.\<close>

definition answers :: "bytes \<Rightarrow> http_response \<Rightarrow> bool" where
  "answers body a \<longleftrightarrow> hm_data_buffer a = buffer_new \<and> append_ok (hm_content_buffer a) \<and> gptr (hm_content_buffer a) = 0 \<and>
     unread (hm_content_buffer a) = body \<and> hm_state a = READY \<and> pm_status a = ''200 OK'' \<and>
     hm_headers a = [(''Content-Type'', ''application/x-thrift'')]"

lemma append_ok_size: "append_ok b \<Longrightarrow> gptr b = 0 \<Longrightarrow> m_size b = length (unread b)"
  by (simp add: unread_def append_ok_def buffer_ok_def)

lemma length_to_string: "n < 10 ^ Suc k \<Longrightarrow> length (to_string n) \<le> Suc k"
proof (induction k arbitrary: n)
  case 0
  then show ?case by (subst to_string.simps) simp
next
  case (Suc k)
  then have "n div 10 < 10 ^ Suc k" by (simp add: less_mult_imp_div_less mult.commute)
  with Suc.IH have "length (to_string (n div 10)) \<le> Suc k" by blast
  then show ?case by (subst to_string.simps) simp
qed

lemma posts_vars:
  assumes "posts pkt m q" "m \<noteq> []"
  shows "hm_headers (wire_vars iequals q) = [(''CONTENT_LENGTH'', to_string (length m))]"
  using assms append_ok_size [of "hm_content_buffer q"] by (simp add: posts_def wire_vars_def set_header_def Let_def)

lemma length_var_ok:
  assumes "n < 2 ^ 31"
  shows "var_ok (''CONTENT_LENGTH'', to_string n)" "length (encode_var (''CONTENT_LENGTH'', to_string n)) \<le> 65529"
proof -
  have "length (to_string n) \<le> Suc 9" using assms by (intro length_to_string) simp
  then show "var_ok (''CONTENT_LENGTH'', to_string n)" "length (encode_var (''CONTENT_LENGTH'', to_string n)) \<le> 65529"
    by (simp_all add: var_ok_def to_string_not_Nil encode_var_def bytes_of_u16_def)
qed

lemma posts_packet:
  assumes "posts pkt m q" "m \<noteq> []" "length m < 2 ^ 31" "\<And>x. order [x] = [x]"
  shows "packet_fit iequals order q" "packet_head iequals order q = thrift_packet pkt m"
proof -
  show "packet_fit iequals order q"
    using assms length_var_ok(1) [OF assms(3)] posts_vars [OF assms(1,2)]
    by (simp add: packet_fit_def posts_def append_ok_ok buffer_new_def)
  have "map (pad_nth []) [n..<n + 4] = replicate 4 (CHR 0x00)" for n
    by (rule nth_equalityI) (simp_all add: pad_nth_def)
  from this [of "4 + n" for n] show "packet_head iequals order q = thrift_packet pkt m"
    using assms(1,4) posts_vars [OF assms(1,2)]
    by (simp add: packet_head_def thrift_packet_def posts_def Let_def buffer_new_def add.commute)
qed

lemma answers_wire:
  assumes "answers body a" "\<And>x. order [x] = [x]"
  shows "response_fit a" "response_head order a @ unread (hm_content_buffer a) = thrift_answer body"
proof -
  show "response_fit a" using assms(1)
    by (simp add: answers_def response_fit_def append_ok_ok append_ok_def buffer_ok_def buffer_new_def unread_def)
  have "m_size (hm_content_buffer a) = length body" using assms(1) append_ok_size by (auto simp: answers_def)
  then show "response_head order a @ unread (hm_content_buffer a) = thrift_answer body"
    using assms by (simp add: answers_def response_head_def thrift_answer_def header_line_def)
qed

section \<open>The client's part\<close>

lemma client_sends:
  assumes "writes send m"
  shows "\<exists>c'. run_io client_transport send ((client_new_host (pkt, g) host port)\<lparr>cl_socket := s\<rparr>) = (Inr (), c') \<and>
    cl_socket c' = s \<and> cl_response c' = http_response_new g \<and> posts pkt m (cl_request c')"
proof -
  let ?c = "(client_new_host (pkt, g) host port)\<lparr>cl_socket := s\<rparr>"
  have c: "client_ok ?c" "client_in ?c = []" "client_out ?c = []"
    by (simp_all add: client_new_host_def uwsgi_request_host_def uwsgi_with_def http_response_new_def client_ok_def
        client_in_def client_out_def append_ok_def buffer_ok_def buffer_new_def unread_def)
  obtain c' where c': "run_io client_transport send ?c = (Inr (), c')" "client_ok c'" "client_in c' = []" "client_out c' = m"
    "client_rest c' = client_rest ?c"
    using client.run_refines [OF c(1), of send "Inr ()" "[]" m] assms c(2,3) by (auto simp: writes_def)
  from c'(5) have r: "cl_socket c' = s" "no_content (cl_request c') = no_content (cl_request ?c)"
    "rewound (cl_response c') = rewound (cl_response ?c)" "gptr (hm_content_buffer (cl_request c')) = 0"
    by (auto simp: client_rest_def client_new_host_def uwsgi_request_host_def uwsgi_with_def buffer_new_def
        dest: arg_cong [of _ _ cl_socket] arg_cong [of _ _ cl_request] arg_cong [of _ _ cl_response])
  have "hm_content_buffer (cl_response c') = buffer_new"
    using r(3) c'(2) by (cases "hm_content_buffer (cl_response c')") (auto simp: rewound_def client_new_host_def
        http_response_new_def buffer_new_def client_ok_def buffer_ok_def dest: arg_cong [of _ _ hm_content_buffer])
  then have "cl_response c' = http_response_new g"
    using r(3) by (cases "cl_response c'") (simp add: rewound_def client_new_host_def http_response_new_def)
  moreover have "posts pkt m (cl_request c')"
    using c'(2,4) r(2,4) by (cases "cl_request c'") (auto simp: posts_def client_ok_def client_out_def no_content_def
      client_new_host_def uwsgi_request_host_def uwsgi_with_def)
  ultimately show ?thesis using c'(1) r(1) by blast
qed

lemma response_done:
  assumes "sm_type s = TCP" "length (thrift_answer body) < 4095"
    and "k_recvfrom K (sm_fd s) 4095 False k = ((int (length (thrift_answer body)), thrift_answer body, a), k')"
    and "iequals ''Content-Length'' ''Content-Length''" "\<not> reserved iequals ''Content-Type''"
  shows "\<exists>p. await_response iequals K (http_response_new g, (s, k)) = Some (Inr (), (p, (s, k'))) \<and>
    unread (hm_content_buffer p) = body \<and> append_ok (hm_content_buffer p)"
proof -
  let ?a = "(http_response_new 0)\<lparr>pm_status := ''200 OK'', hm_headers := [(''Content-Type'', ''application/x-thrift'')],
     hm_content_buffer := \<lparr>m_buffer = body, m_size = length body, gptr = 0, pptr = length body\<rparr>\<rparr>"
  have a: "answers body ?a"
    by (simp add: answers_def http_response_new_def append_ok_def buffer_ok_def unread_def)
  from rp.prep_ok [OF answers_wire(1) [OF a, of id]] obtain h1 where
    h1: "response_prepare id ?a = Inr h1" "unread (hm_data_buffer h1) = response_head id ?a" "hm_content_buffer h1 = hm_content_buffer ?a"
    by auto
  have w: "thrift_answer body = unread (hm_data_buffer h1) @ unread (hm_content_buffer h1)"
    using answers_wire(2) [OF a, of id] h1(2,3) by simp
  have st: "atoi ''200 OK'' = 200" "plain ''200 OK''" by (code_simp, simp add: plain_def)
  have "\<exists>p. response_read_data iequals K (http_response_new g, (s, k)) = Some (Inr (), (p, (s, k'))) \<and>
    is_done p \<and> pm_status p = pm_status ?a \<and> pm_status_code p = atoi (pm_status ?a) \<and>
    hm_headers p = id (hm_headers ?a) @ [(''Content-Length'', to_string (length (unread (hm_content_buffer ?a))))] \<and>
    unread (hm_content_buffer p) = unread (hm_content_buffer ?a) \<and> append_ok (hm_content_buffer p)"
    by (rule response_arrives [where h = ?a and order = id and iequals = iequals, OF _ _ _ _ _ _ _ _ _ assms(4) h1(1) w assms(2,1,3)])
       (use a assms(5) in \<open>simp_all add: st answers_def header_ok_def plain_def append_ok_def buffer_ok_def buffer_new_def unread_def\<close>)
  moreover have "unread (hm_content_buffer ?a) = body" by (simp add: unread_def)
  moreover have "\<not> is_done (http_response_new g)" by (simp add: is_done_def http_response_new_def)
  ultimately show ?thesis
    by (subst await_response.simps) (auto simp: await_response.simps)
qed

lemma client_call_returns:
  assumes io: "writes send m" "m \<noteq> []" "length m < 2 ^ 31" "reads recv f"
    and k: "sends_in_order K sent" "sends_all K" "sm_type s = TCP" "length (thrift_answer body) < 4095"
    and rx: "\<And>k1. sent k1 (sm_fd s) = sent k (sm_fd s) @ thrift_packet pkt m @ m \<Longrightarrow>
      \<exists>a k2. k_recvfrom K (sm_fd s) 4095 False k1 = ((int (length (thrift_answer body)), thrift_answer body, a), k2)"
    and o: "\<And>x. order [x] = [x]" "iequals ''Content-Length'' ''Content-Length''" "\<not> reserved iequals ''Content-Type''"
  shows "\<exists>c' k'. client_call iequals order K send recv ((client_new_host (pkt, g) host port)\<lparr>cl_socket := s\<rparr>, k) =
    Some (map_sum Foreign id (fst (f body)), (c', k'))"
proof -
  let ?c = "(client_new_host (pkt, g) host port)\<lparr>cl_socket := s\<rparr>"
  obtain c1 where c1: "run_io client_transport send ?c = (Inr (), c1)" "cl_socket c1 = s" "cl_response c1 = http_response_new g"
    "posts pkt m (cl_request c1)" using client_sends [OF io(1)] by blast
  obtain q k1 where w: "write_data K (uwsgi_prepare iequals order) (cl_request c1, (s, k)) = (Inr (), (q, (s, k1)))"
    "sent k1 (sm_fd s) = sent k (sm_fd s) @ thrift_packet pkt m @ m" "append_ok (hm_content_buffer q)"
    using request_sent_at_once [OF posts_packet(1) [OF c1(4) io(2,3) o(1)] _ k(1-3), where k = k and iequals = iequals]
      posts_packet(2) [OF c1(4) io(2,3) o(1)] c1(4) by (auto simp: posts_def)
  obtain a k2 where "k_recvfrom K (sm_fd s) 4095 False k1 = ((int (length (thrift_answer body)), thrift_answer body, a), k2)"
    using rx [OF w(2)] by blast
  from response_done [OF k(3,4) this o(2,3)] obtain p where
    p: "await_response iequals K (http_response_new g, (s, k1)) = Some (Inr (), (p, (s, k2)))"
    "unread (hm_content_buffer p) = body" "append_ok (hm_content_buffer p)" by blast
  let ?c2 = "c1\<lparr>cl_request := q, cl_response := p, cl_socket := s\<rparr>"
  have fl: "client_flush iequals order K (c1, k) = Some (Inr (), (?c2, k2))"
    using w(1) p(1) c1(2,3) by (simp add: client_flush_def)
  have rd: "fst (run_io client_transport recv ?c2) = map_sum Foreign id (fst (f body))"
  proof -
    have "client_ok ?c2" using w(3) p(3) by (simp add: client_ok_def append_ok_ok)
    moreover have "client_in ?c2 = body" using p(2) by (simp add: client_in_def)
    ultimately show ?thesis
      using client.run_refines [of ?c2 recv "map_sum Foreign id (fst (f body))" "snd (f body)" "client_out ?c2"] io(4)
      by (auto simp: reads_def)
  qed
  show ?thesis using c1(1) fl rd by (auto simp: client_call_def split: prod.splits)
qed

section \<open>The server's part\<close>

text \<open>The packet and the body arrive in the three pieces the server asks for.\<close>

definition delivers :: "'k kernel \<Rightarrow> int \<Rightarrow> bytes \<Rightarrow> bytes \<Rightarrow> 'k \<Rightarrow> 'k \<Rightarrow> bool" where
  "delivers K fd d body k k' \<longleftrightarrow> (\<exists>a1 k1 a2 k2 a3. k_recvfrom K fd 4 False k = ((4, take 4 d, a1), k1) \<and>
     k_recvfrom K fd (length d - 4) False k1 = ((int (length d - 4), drop 4 d, a2), k2) \<and>
     k_recvfrom K fd (length body) False k2 = ((int (length body), body, a3), k'))"

lemma processor_answers:
  assumes L: "codes L D" "verdict_of D (hc_service_name C) m = Call args seqid"
    and svc: "hc_service C args (fresh_handler C) = (h, True, None)" "\<not> error h"
    and q: "unread (hm_content_buffer q) = m" "buffer_ok (hm_content_buffer q)"
  shows "\<exists>t'. async_request iequals L C ((async_processor_new g s)\<lparr>tm_request := q\<rparr>) =
      ([Disable_dispose, Finish_response], Inr True, t') \<and> tm_socket t' = s \<and>
    answers (reply_message D (hc_service_name C) (tc_set_success L (ah_result h)) seqid) (tm_response t')"
proof -
  let ?t = "(async_processor_new g s)\<lparr>tm_request := q\<rparr>"
  let ?f = "(frame_of ?t)\<lparr>am_seqid := seqid, am_handler := Some h\<rparr>"
  let ?r = "reply_message D (hc_service_name C) (tc_set_success L (ah_result h)) seqid"
  note new = async_processor_new_def uwsgi_task.defs uwsgi_task_new_def http_response_new_def
  have d: "described (m, [], frame_of ?t) ?t"
    using q by (simp add: new server_ok_def server_in_def server_out_def)
  from does_async_call [OF L svc(1), of iequals "[]" "frame_of ?t" "[]"] obtain i' where
    "does (async_body iequals L C) ((m, [], frame_of ?t), []) (Inr True)
      ((i', ?r, finished iequals L h ?f), [Disable_dispose, Finish_response])"
    using svc(2) by (auto simp: handler_message_def)
  from does_request [OF this d] obtain t' where
    t': "async_request iequals L C ?t = ([Disable_dispose, Finish_response], Inr True, t')"
      "described (i', ?r, finished iequals L h ?f) t'" by blast
  have f: "frame_of t' = finished iequals L h ?f" "server_ok (tm_request t', tm_response t')"
    "unread (hm_content_buffer (tm_response t')) = ?r" "gptr (hm_content_buffer (tm_response t')) = 0"
    using t'(2) by (simp_all add: server_out_def)
  have "tm_socket t' = s" using arg_cong [OF f(1), of tm_socket] svc(2) by (simp add: frame_of_def new)
  moreover have "no_content (tm_response t') = typed iequals (set_status ''200 OK'' (http_response_new g))"
    using arg_cong [OF f(1), of tm_response] svc(2) by (simp add: frame_of_def new no_content_def)
  then have "answers ?r (tm_response t')" using f(2-4)
    by (cases "tm_response t'") (auto simp: answers_def server_ok_def no_content_def typed_def set_header_def
        set_status_def http_response_new_def Let_def split: if_splits)
  ultimately show ?thesis using t'(1) by blast
qed

lemma processor_serves:
  assumes L: "codes L D" "verdict_of D (hc_service_name C) m = Call args seqid"
    and svc: "hc_service C args (fresh_handler C) = (h, True, None)" "\<not> error h"
    and m: "m \<noteq> []" "length m < 2 ^ 31" "modifier1 pkt = UWSGI_VARS"
    and rx: "sm_type s = TCP" "delivers K (sm_fd s) (thrift_packet pkt m) m k k3"
    and tx: "sends_in_order K sent" "always_accepts K" "\<And>x. order [x] = [x]"
  shows "\<exists>n t' k'. handle_events (uwsgi_handle_event iequals order K (async_request iequals L C))
        (EV_READ # replicate n EV_WRITE) (async_processor_new g s, k) =
        Some (Inr ([Disable_dispose, Finish_response], False), (t', k')) \<and>
      sent k' (sm_fd s) = sent k3 (sm_fd s) @
        thrift_answer (reply_message D (hc_service_name C) (tc_set_success L (ah_result h)) seqid)"
proof -
  let ?q = "(uwsgi_with pkt [] 0 [])\<lparr>hm_content_buffer := \<lparr>m_buffer = m, m_size = length m, gptr = 0, pptr = length m\<rparr>\<rparr>"
  let ?kvs = "[(''CONTENT_LENGTH'', to_string (length m))]"
  have q: "posts pkt m ?q" by (simp add: posts_def uwsgi_with_def append_ok_def buffer_ok_def unread_def)
  note w = posts_packet [OF q m(1,2), of id iequals, simplified] and v = posts_vars [OF q m(1)]
  obtain h1 where h1: "uwsgi_prepare iequals id ?q = Inr h1" "thrift_packet pkt m = unread (hm_data_buffer h1)"
    using uq.prep_ok [OF w(1)] w(2) by auto
  obtain a1 k1 a2 k2 a3 where r: "k_recvfrom K (sm_fd s) 4 False k = ((4, take 4 (thrift_packet pkt m), a1), k1)"
    "k_recvfrom K (sm_fd s) (length (thrift_packet pkt m) - 4) False k1 =
      ((int (length (thrift_packet pkt m) - 4), drop 4 (thrift_packet pkt m), a2), k2)"
    "if m = [] then k3 = k2 else k_recvfrom K (sm_fd s) (length m) False k2 = ((int (length m), m, a3), k3)"
    using rx(2) m(1) unfolding delivers_def by auto
  show ?thesis
  proof (rule uwsgi_serves [where h = ?q and kvs = ?kvs and body = m and order = id, OF _ _ _ _ _ m(2) _ _ _ _ _ _ h1 rx(1) r _ _ _ tx(1,2)])
    fix q' :: uwsgi_request
    assume "unread (hm_content_buffer q') = m" "buffer_ok (hm_content_buffer q')"
    from processor_answers [OF L svc this, of iequals g s] obtain t' where
      t': "async_request iequals L C ((async_processor_new g s)\<lparr>tm_request := q'\<rparr>) =
        ([Disable_dispose, Finish_response], Inr True, t')" "tm_socket t' = s"
        "answers (reply_message D (hc_service_name C) (tc_set_success L (ah_result h)) seqid) (tm_response t')" by blast
    from t'(3) have "hm_state (tm_response t') = READY" by (simp add: answers_def)
    with t'(1,2) answers_wire [OF t'(3) tx(3)]
    show "\<exists>t'. async_request iequals L C ((async_processor_new g s)\<lparr>tm_request := q'\<rparr>) =
          ([Disable_dispose, Finish_response], Inr True, t') \<and> tm_socket t' = s \<and> response_fit (tm_response t') \<and>
        hm_state (tm_response t') = READY \<and> response_head order (tm_response t') @ unread (hm_content_buffer (tm_response t')) =
          thrift_answer (reply_message D (hc_service_name C) (tc_set_success L (ah_result h)) seqid)"
      by (intro exI [of _ t'] conjI)
  qed (use q m v length_var_ok [OF m(2)] in \<open>simp_all add: posts_def async_processor_new_def uwsgi_task.defs uwsgi_task_new_def\<close>)
qed

section \<open>Properties\<close>


text \<open>The service that returns its argument, called with \<^verbatim>\<open>x\<close>.\<close>

definition x_call :: bytes where
  "x_call = [CHR ''l'', CHR 0x01, CHR ''x'']"

definition x_reply :: bytes where
  "x_reply = [CHR ''l'', CHR 0x02, CHR ''x'']"

definition answering_kernel :: "script kernel" where
  "answering_kernel = eager_kernel\<lparr>k_recvfrom := (\<lambda>_ _ _ k. ((int (length (thrift_answer x_reply)), thrift_answer x_reply, None), k))\<rparr>"

lemma answering_ok: "sends_in_order answering_kernel sc_sent" "sends_all answering_kernel"
  by (simp_all add: answering_kernel_def eager_kernel_def sends_in_order_def sends_all_def)

lemma x_delivered:
  "\<exists>k3. delivers eager_kernel 3 (thrift_packet zero_header x_call) x_call
     (script_start [] [99, 99, 99] (thrift_packet zero_header x_call @ x_call)) k3 \<and> sc_sent k3 3 = []"
proof -
  define d where "d = thrift_packet zero_header x_call"
  have "length (to_string (length x_call)) = 1" by code_simp
  then have "length d = 27"
    by (simp add: d_def thrift_packet_def Let_def header_bytes_def encode_var_def bytes_of_u16_def)
  then show ?thesis unfolding d_def [symmetric]
    by (simp add: delivers_def x_call_def eager_kernel_def script_kernel_def script_recv_def script_start_def Let_def)
qed


end
