(* ===== verification/Echo_Server.thy ===== *)
theory Echo_Server
  imports Net_Tasks "HOL-Library.Signed_Division"
begin

unbundle bit_operations_syntax

text \<open>
  The echo server of the examples (\<^verbatim>\<open>examples/echoserver/echoserver.h\<close>, \<^verbatim>\<open>echoserver.cpp\<close>): the task that
  sends back what a client has sent, and the timer that reports the counters.
\<close>

section \<open>Counters\<close>

record stats =
  st_req_count :: "32 word"
  st_clients :: "32 word"
  st_last :: int

definition stats_new :: "int \<Rightarrow> stats" where
  "stats_new now = \<lparr>st_req_count = 0, st_clients = 0, st_last = now\<rparr>"

definition inc_req :: "stats \<Rightarrow> stats" where
  "inc_req st = st\<lparr>st_req_count := st_req_count st + 1\<rparr>"

definition inc_clients :: "stats \<Rightarrow> stats" where
  "inc_clients st = st\<lparr>st_clients := st_clients st + 1\<rparr>"

definition dec_clients :: "stats \<Rightarrow> stats" where
  "dec_clients st = st\<lparr>st_clients := st_clients st - 1\<rparr>"

text \<open>
  \<^verbatim>\<open>dispatcher::print_worker_stats\<close>, as what is printed of each worker, and the handler of the timer with
  the numbers it prints; the division is that of C.
\<close>

definition print_worker_stats :: "sys \<Rightarrow> (8 word \<times> 64 word) list" where
  "print_worker_stats s = map (\<lambda>w. (wm_id w, wm_events_count w)) (workers s)"

definition stats_handle_event :: "int \<Rightarrow> sys \<Rightarrow> (stats, (int \<times> int \<times> (8 word \<times> 64 word) list) \<times> bool) prog" where
  "stats_handle_event now s st =
     (let diff = now - st_last st; count = sint (st_req_count st);
          st = st\<lparr>st_req_count := 0, st_last := now\<rparr>
      in if diff = 0 then (Inl Arithmetic, st)
         else (Inr ((count sdiv diff, sint (st_clients st), print_worker_stats s), True), st))"

section \<open>The handler\<close>

record echo_handler =
  eh_socket :: sock
  eh_write_queue :: "bytes list"
  eh_write_offset :: int

definition echo_handler_new :: "sock \<Rightarrow> stats \<Rightarrow> echo_handler \<times> stats" where
  "echo_handler_new s st = (\<lparr>eh_socket = s, eh_write_queue = [], eh_write_offset = 0\<rparr>, inc_clients st)"

definition echo_handler_delete :: "stats \<Rightarrow> stats" where
  "echo_handler_delete st = dec_clients st"

type_synonym ('k, 'a) echo_prog = "(echo_handler \<times> stats \<times> 'k, 'a) prog"

text \<open>
  The two halves of \<^verbatim>\<open>handle_event\<close>; false is the early return after a socket exception. A read that
  returns -1 asks \<^verbatim>\<open>resize\<close> for the largest number there is.
\<close>

definition echo_read :: "'k kernel \<Rightarrow> ('k, bool) echo_prog" where
  "echo_read K = (\<lambda>(h, st, k).
     case socket_read K 1024 (eh_socket h, k) of
       (Inl (Thrown x), (s, k)) \<Rightarrow> (Inr False, (h\<lparr>eh_socket := s\<rparr>, st, k))
     | (Inl e, (s, k)) \<Rightarrow> (Inl e, (h\<lparr>eh_socket := s\<rparr>, st, k))
     | (Inr (n, d), (s, k)) \<Rightarrow>
         (if n < 0 then (Inl Standard, (h\<lparr>eh_socket := s\<rparr>, st, k))
          else let buf = take (nat n) (overwrite 0 d (zeros 1024)) @ zeros (nat n - 1024)
               in (Inr True, (h\<lparr>eh_socket := s, eh_write_queue := eh_write_queue h @ [buf]\<rparr>, st, k))))"

definition echo_write :: "'k kernel \<Rightarrow> ('k, bool) echo_prog" where
  "echo_write K = (\<lambda>(h, st, k).
     case eh_write_queue h of
       [] \<Rightarrow> (Inr True, (h, st, k))
     | buf # bufs \<Rightarrow>
         (if eh_write_offset h < 0 \<or> eh_write_offset h > int (length buf) then (Inl Memory, (h, st, k))
          else let data = drop (nat (eh_write_offset h)) buf
               in case socket_write K data (-1) [] (eh_socket h, k) of
                    (Inl (Thrown x), (s, k)) \<Rightarrow> (Inr False, (h\<lparr>eh_socket := s\<rparr>, st, k))
                  | (Inl e, (s, k)) \<Rightarrow> (Inl e, (h\<lparr>eh_socket := s\<rparr>, st, k))
                  | (Inr n, (s, k)) \<Rightarrow>
                      (if n = int (length data)
                       then (Inr True, (h\<lparr>eh_socket := s, eh_write_queue := bufs, eh_write_offset := 0\<rparr>, inc_req st, k))
                       else (Inr True, (h\<lparr>eh_socket := s, eh_write_offset := eh_write_offset h + n\<rparr>, st, k)))))"

definition echo_handle_event :: "'k kernel \<Rightarrow> int \<Rightarrow> ('k, h_action list \<times> bool) echo_prog" where
  "echo_handle_event K events =
     bnd (if events AND EV_READ \<noteq> 0 then echo_read K else ret True) (\<lambda>go.
       if \<not> go then ret ([], False)
       else bnd (if events AND EV_WRITE \<noteq> 0 then echo_write K else ret True) (\<lambda>go.
         if \<not> go then ret ([], False)
         else bnd (gets (eh_write_queue \<circ> fst)) (\<lambda>q.
           ret ([Set_events (if q = [] then EV_READ else EV_READ OR EV_WRITE), Update_watcher], True))))"

definition echo_events :: "'k kernel \<Rightarrow> int list \<Rightarrow> echo_handler \<times> stats \<times> 'k \<Rightarrow> (outcome \<times> echo_handler \<times> stats \<times> 'k) option" where
  "echo_events K = handle_events (\<lambda>ev st. Some (echo_handle_event K ev st))"

section \<open>What has not been sent back\<close>

definition pending :: "echo_handler \<Rightarrow> bytes" where
  "pending h = drop (nat (eh_write_offset h)) (concat (eh_write_queue h))"

definition echo_ok :: "echo_handler \<Rightarrow> bool" where
  "echo_ok h \<longleftrightarrow> sm_type (eh_socket h) = TCP \<and> [] \<notin> set (eh_write_queue h) \<and> 0 \<le> eh_write_offset h \<and>
     (case eh_write_queue h of [] \<Rightarrow> eh_write_offset h = 0 | buf # _ \<Rightarrow> eh_write_offset h < int (length buf))"

text \<open>
  A kernel whose two directions are apart, and one that reports an event only for a descriptor that is
  ready: no call is refused with \<^verbatim>\<open>EAGAIN\<close>.
\<close>

definition full_duplex :: "'k kernel \<Rightarrow> ('k \<Rightarrow> int \<Rightarrow> bytes) \<Rightarrow> ('k \<Rightarrow> int \<Rightarrow> bytes) \<Rightarrow> bool" where
  "full_duplex K sent inbox \<longleftrightarrow> sends_in_order K sent \<and> recv_in_order K inbox \<and>
     (\<forall>fd d a k n k'. k_sendto K fd d a k = (n, k') \<longrightarrow> inbox k' = inbox k) \<and>
     (\<forall>fd len w k r k'. k_recvfrom K fd len w k = (r, k') \<longrightarrow> sent k' = sent k)"

definition never_refuses :: "'k kernel \<Rightarrow> bool" where
  "never_refuses K \<longleftrightarrow> (\<forall>fd d a k n k'. k_sendto K fd d a k = (n, k') \<longrightarrow> n < 0 \<longrightarrow> k_errno K k' \<noteq> EAGAIN) \<and>
     (\<forall>fd len w k n d a k'. k_recvfrom K fd len w k = ((n, d, a), k') \<longrightarrow> n < 0 \<longrightarrow> k_errno K k' \<noteq> EAGAIN)"

lemma full_duplexD:
  assumes "full_duplex K sent inbox"
  shows "k_sendto K fd d a k = (n, k') \<Longrightarrow>
      n \<le> int (length d) \<and> sent k' = (sent k)(fd := sent k fd @ take (nat n) d)"
    "k_recvfrom K fd len w k = ((n, d, a), k') \<Longrightarrow>
      n \<le> int len \<and> length d = nat n \<and> inbox k = (inbox k')(fd := d @ inbox k' fd)"
    "k_sendto K fd d a k = (n, k') \<Longrightarrow> inbox k' = inbox k"
    "k_recvfrom K fd len w k = (r, k') \<Longrightarrow> sent k' = sent k"
  using assms unfolding full_duplex_def sends_in_order_def recv_in_order_def by metis+

lemma never_refusesD:
  assumes "never_refuses K"
  shows "k_sendto K fd d a k = (n, k') \<Longrightarrow> n < 0 \<Longrightarrow> k_errno K k' \<noteq> EAGAIN"
    "k_recvfrom K fd len w k = ((n, d, a), k') \<Longrightarrow> n < 0 \<Longrightarrow> k_errno K k' \<noteq> EAGAIN"
  using assms unfolding never_refuses_def by blast+

text \<open>What a part of the handler does to the stream: bytes are taken from the inbox, and sent or pending.\<close>

definition echoes :: "('k \<Rightarrow> int \<Rightarrow> bytes) \<Rightarrow> ('k \<Rightarrow> int \<Rightarrow> bytes) \<Rightarrow> echo_handler \<times> stats \<times> 'k \<Rightarrow> echo_handler \<times> stats \<times> 'k \<Rightarrow> bool" where
  "echoes sent inbox = (\<lambda>(h, st, k) (h', st', k'). echo_ok h' \<and> eh_socket h' = eh_socket h \<and>
     (\<exists>got. inbox k (sm_fd (eh_socket h)) = got @ inbox k' (sm_fd (eh_socket h)) \<and>
        sent k' (sm_fd (eh_socket h)) @ pending h' = sent k (sm_fd (eh_socket h)) @ pending h @ got))"

lemma echoes_refl: "echo_ok h \<Longrightarrow> echoes sent inbox (h, st, k) (h, st, k)"
  by (simp add: echoes_def)

lemma echoes_trans: "echoes sent inbox x y \<Longrightarrow> echoes sent inbox y z \<Longrightarrow> echoes sent inbox x z"
  by (auto simp: echoes_def)

lemma throw_io_thrown: "\<exists>x. throw_io K c msg st = (Inl (Thrown x), st)"
  by (cases st) (simp add: prog_defs sock_defs)

lemma echo_read_echoes:
  assumes "full_duplex K sent inbox" "never_refuses K" "echo_ok h"
  shows "\<exists>go st'. echo_read K (h, st, k) = (Inr go, st') \<and> echoes sent inbox (h, st, k) st'"
proof -
  let ?s = "eh_socket h"
  obtain r k' where "k_recvfrom K (sm_fd ?s) 1024 False k = (r, k')" by fastforce
  then obtain n d a where r: "k_recvfrom K (sm_fd ?s) 1024 False k = ((n, d, a), k')" by (cases r) auto
  have q: "n \<le> int 1024" "length d = nat n" "inbox k = (inbox k')(sm_fd ?s := d @ inbox k' (sm_fd ?s))" "sent k' = sent k"
    "n < 0 \<Longrightarrow> k_errno K k' \<noteq> EAGAIN"
    using full_duplexD(2) [OF assms(1) r] full_duplexD(4) [OF assms(1) r] never_refusesD(2) [OF assms(2) r] by blast+
  have s: "sm_type ?s = TCP" using assms(3) by (simp add: echo_ok_def)
  consider "n < 0" | "n = 0" | "n > 0" by linarith
  then show ?thesis
  proof cases
    case 1
    with q have "d = []" by simp
    moreover from 1 q(5) throw_io_thrown [of K SOCKET_READ "''error reading from''" "(?s, k')"] socket_read_stream [OF s r]
    obtain x where "socket_read K 1024 (?s, k) = (Inl (Thrown x), (?s, k'))" by auto
    ultimately show ?thesis using q assms(3) by (auto simp: echo_read_def echoes_def)
  next
    case 2
    with q have "d = []" by simp
    with 2 q s socket_read_stream [OF s r] assms(3) show ?thesis by (auto simp: echo_read_def echoes_def)
  next
    case 3
    have b: "take (nat n) (overwrite 0 d (zeros 1024)) @ zeros (nat n - 1024) = d"
      using 3 q(1,2) by (simp add: overwrite_def zeros_def)
    let ?h = "h\<lparr>eh_write_queue := eh_write_queue h @ [d]\<rparr>"
    have "echo_ok ?h" "pending ?h = pending h @ d"
      using assms(3) 3 q(2) by (auto simp: echo_ok_def pending_def split: list.splits)
    with 3 q s b socket_read_stream [OF s r] show ?thesis by (auto simp: echo_read_def echoes_def)
  qed
qed

lemma echo_write_echoes:
  assumes "full_duplex K sent inbox" "never_refuses K" "echo_ok h"
  shows "\<exists>go st'. echo_write K (h, st, k) = (Inr go, st') \<and> echoes sent inbox (h, st, k) st'"
proof (cases "eh_write_queue h")
  case Nil
  with assms(3) show ?thesis by (intro exI [of _ True]) (simp add: echo_write_def echoes_refl)
next
  case (Cons buf bufs)
  let ?s = "eh_socket h" and ?d = "drop (nat (eh_write_offset h)) buf"
  have h: "sm_type ?s = TCP" "0 \<le> eh_write_offset h" "eh_write_offset h < int (length buf)" "buf \<noteq> []" "[] \<notin> set bufs"
    using assms(3) Cons by (auto simp: echo_ok_def)
  obtain n k' where r: "k_sendto K (sm_fd ?s) ?d (sm_addr ?s) k = (n, k')" by fastforce
  have q: "n \<le> int (length ?d)" "sent k' = (sent k)(sm_fd ?s := sent k (sm_fd ?s) @ take (nat n) ?d)" "inbox k' = inbox k"
    "n < 0 \<Longrightarrow> k_errno K k' \<noteq> EAGAIN"
    using full_duplexD(1) [OF assms(1) r] full_duplexD(3) [OF assms(1) r] never_refusesD(1) [OF assms(2) r] by blast+
  have p: "pending h = ?d @ concat bufs" using Cons h by (simp add: pending_def)
  consider "n < 0" | "n = int (length ?d)" | "0 \<le> n" "n < int (length ?d)" using q(1) by linarith
  then show ?thesis
  proof cases
    case 1
    with q(4) throw_io_thrown [of K SOCKET_WRITE "''error writing to''" "(?s, k')"] socket_write_stream [OF h(1) r]
    obtain x where "socket_write K ?d (-1) [] (?s, k) = (Inl (Thrown x), (?s, k'))" by auto
    with 1 q h Cons assms(3) show ?thesis by (auto simp: echo_write_def echoes_def Let_def)
  next
    case 2
    let ?h = "h\<lparr>eh_write_queue := bufs, eh_write_offset := 0\<rparr>"
    have "echo_ok ?h" "pending ?h = concat bufs" using h by (auto simp: echo_ok_def pending_def split: list.splits)
    with 2 q h p Cons socket_write_stream [OF h(1) r] show ?thesis by (auto simp: echo_write_def echoes_def Let_def)
  next
    case 3
    let ?h = "h\<lparr>eh_write_offset := eh_write_offset h + n\<rparr>"
    have "echo_ok ?h" using 3 h Cons assms(3) by (auto simp: echo_ok_def)
    moreover have "pending ?h = drop (nat n) ?d @ concat bufs"
      using 3 h Cons by (simp add: pending_def nat_add_distrib add.commute)
    moreover have "take (nat n) ?d @ drop (nat n) ?d = ?d" by (rule append_take_drop_id)
    ultimately show ?thesis using 3 q h p Cons socket_write_stream [OF h(1) r]
      by (auto simp: echo_write_def echoes_def Let_def)
  qed
qed

lemma echo_event_echoes:
  assumes "full_duplex K sent inbox" "never_refuses K" "echo_ok h"
  shows "\<exists>acts cont h' st' k'. echo_handle_event K ev (h, st, k) = (Inr (acts, cont), (h', st', k')) \<and>
    echoes sent inbox (h, st, k) (h', st', k') \<and>
    (cont \<longrightarrow> acts = [Set_events (if pending h' = [] then EV_READ else EV_READ OR EV_WRITE), Update_watcher])"
proof -
  have ask: "(pending x = []) = (eh_write_queue x = [])" if "echo_ok x" for x
    using that by (auto simp: echo_ok_def pending_def split: list.splits)
  obtain g1 h1 st1 k1 where r: "(if ev AND EV_READ \<noteq> 0 then echo_read K else ret True) (h, st, k) = (Inr g1, (h1, st1, k1))"
    "echoes sent inbox (h, st, k) (h1, st1, k1)"
    using echo_read_echoes [OF assms, of st k] echoes_refl [OF assms(3), of sent inbox st k]
    by (cases "ev AND EV_READ = 0") (auto simp: ret_def)
  then have "echo_ok h1" by (simp add: echoes_def)
  then obtain g2 h2 st2 k2 where w: "(if ev AND EV_WRITE \<noteq> 0 then echo_write K else ret True) (h1, st1, k1) = (Inr g2, (h2, st2, k2))"
    "echoes sent inbox (h1, st1, k1) (h2, st2, k2)"
    using echo_write_echoes [OF assms(1,2), of h1 st1 k1] echoes_refl [of h1 sent inbox st1 k1]
    by (cases "ev AND EV_WRITE = 0") (auto simp: ret_def)
  then have "echo_ok h2" by (simp add: echoes_def)
  show ?thesis
  proof (cases g1)
    case True
    with r w echoes_trans [OF r(2) w(2)] ask [OF \<open>echo_ok h2\<close>] show ?thesis
      by (cases g2) (auto simp: echo_handle_event_def bnd_def ret_def gets_def)
  next
    case False
    with r show ?thesis by (auto simp: echo_handle_event_def bnd_def ret_def)
  qed
qed

section \<open>Properties\<close>


text \<open>A kernel that delivers what is there and takes everything.\<close>

definition ready_kernel :: "script kernel" where
  "ready_kernel = eager_kernel\<lparr>k_recvfrom := (\<lambda>fd len w k. let n = min len (length (sc_inbox k fd))
     in ((int n, take n (sc_inbox k fd), None), k\<lparr>sc_inbox := (sc_inbox k)(fd := drop n (sc_inbox k fd))\<rparr>))\<rparr>"

lemma ready_ok: "full_duplex ready_kernel sc_sent sc_inbox" "never_refuses ready_kernel"
  by (auto simp: full_duplex_def never_refuses_def ready_kernel_def eager_kernel_def sends_in_order_def recv_in_order_def
      Let_def fun_eq_iff)

abbreviation ping :: "echo_handler \<times> stats \<times> script" where
  "ping \<equiv> (fst (echo_handler_new (socket_of_fd 3) (stats_new 0)), snd (echo_handler_new (socket_of_fd 3) (stats_new 0)),
     script_start [] [] ''ping'')"


text \<open>
  The echo handler takes the -1 of a descriptor that is not ready for a number of bytes. After a
  read that is refused with \<^verbatim>\<open>EAGAIN\<close>, \<^verbatim>\<open>resize\<close> throws an exception that \<^verbatim>\<open>handle_event\<close> does not
  catch. After a write that is refused in the middle of a buffer, the offset goes back by one and the handler goes
  on: a byte that has been sent is pending again. If the write is refused at the start of
  a buffer, the next writable event reads memory before the buffer.
\<close>

theorem echo_refused:
  assumes s: "sm_type (eh_socket h) = TCP" and again: "\<And>k. k_errno K k = EAGAIN"
    and tx: "\<And>d k. k_sendto K (sm_fd (eh_socket h)) d (sm_addr (eh_socket h)) k = (-1, k)"
    and rx: "k_recvfrom K (sm_fd (eh_socket h)) 1024 False k = ((-1, [], a), k)"
    and q: "eh_write_queue h = buf # bufs" "0 \<le> eh_write_offset h" "eh_write_offset h < int (length buf)"
  shows "\<exists>acts h'. echo_handle_event K EV_READ (h, st, k) = (Inl Standard, (h, st, k)) \<and>
    echo_handle_event K EV_WRITE (h, st, k) = (Inr (acts, True), (h', st, k)) \<and>
    (if 0 < eh_write_offset h then pending h' = buf ! nat (eh_write_offset h - 1) # pending h
     else echo_handle_event K EV_WRITE (h', st, k) = (Inl Memory, (h', st, k)))"
proof -
  let ?h = "h\<lparr>eh_write_offset := eh_write_offset h - 1\<rparr>"
  have "socket_read K 1024 (eh_socket h, k) = (Inr (-1, []), (eh_socket h, k))"
    using socket_read_stream [OF s rx] again by simp
  then have r: "echo_handle_event K EV_READ (h, st, k) = (Inl Standard, (h, st, k))"
    by (simp add: echo_handle_event_def echo_read_def bnd_def)
  have "socket_write K d (-1) [] (eh_socket h, k) = (Inr (-1), (eh_socket h, k))" for d
    using socket_write_stream [OF s tx] again by simp
  then have w: "echo_handle_event K EV_WRITE (h, st, k) = (Inr ([Set_events (EV_READ OR EV_WRITE), Update_watcher], True), (?h, st, k))"
    using q by (simp add: echo_handle_event_def echo_write_def bnd_def ret_def gets_def Let_def and.commute)
  have "pending ?h = buf ! nat (eh_write_offset h - 1) # pending h" if "0 < eh_write_offset h"
  proof -
    have "Suc (nat (eh_write_offset h - 1)) = nat (eh_write_offset h)" using that by simp
    with q that Cons_nth_drop_Suc [of "nat (eh_write_offset h - 1)" buf] show ?thesis by (simp add: pending_def)
  qed
  moreover have "echo_handle_event K EV_WRITE (?h, st, k) = (Inl Memory, (?h, st, k))" if "\<not> 0 < eh_write_offset h"
    using that q by (simp add: echo_handle_event_def echo_write_def bnd_def ret_def and.commute)
  ultimately show ?thesis using r w by auto
qed

text \<open>Three of four bytes sent, then a kernel that refuses.\<close>

theorem echo_refused_witness:
  "\<exists>h h'. pending h = ''g'' \<and>
     (\<exists>acts. echo_handle_event (script_kernel\<lparr>k_errno := \<lambda>_. EAGAIN, k_sendto := \<lambda>_ _ _ k. (-1, k), k_recvfrom := \<lambda>_ _ _ k. ((-1, [], None), k)\<rparr>)
        EV_WRITE (h, stats_new 0, script_start [] [] []) = (Inr (acts, True), (h', stats_new 0, script_start [] [] []))) \<and>
     pending h' = ''ng''"
proof -
  let ?K = "script_kernel\<lparr>k_errno := \<lambda>_. EAGAIN, k_sendto := \<lambda>_ _ _ k. (-1, k), k_recvfrom := \<lambda>_ _ _ k. ((-1, [], None), k)\<rparr>"
  let ?h = "\<lparr>eh_socket = socket_of_fd 3, eh_write_queue = [''ping''], eh_write_offset = 3\<rparr>"
  have "pending ?h = ''g''" by (simp add: pending_def)
  with echo_refused [of ?h ?K "script_start [] [] []" None "''ping''" "[]" "stats_new 0"] show ?thesis
    by (simp add: socket_of_fd_def) blast
qed

end
