(* ===== verification/Example_Handlers.thy ===== *)
theory Example_Handlers
  imports Thrift Echo_Server
begin

text \<open>
  The request handlers of the uwsgi examples (\<^verbatim>\<open>examples/uwsgi/uwsgi_handler.cpp\<close>,
  \<^verbatim>\<open>examples/thrift_server/uwsgi_handler.cpp\<close>): user code on top of the uwsgi task. The counters they
  share with the timer of the theory of the echo server are a field of the task here.
\<close>

record counted_task = uwsgi_task +
  ct_stats :: stats

definition uwsgi_handler_new :: "int \<Rightarrow> sock \<Rightarrow> stats \<Rightarrow> counted_task" where
  "uwsgi_handler_new garbage s st = uwsgi_task.extend (uwsgi_task_new garbage s) \<lparr>ct_stats = inc_clients st\<rparr>"

definition uwsgi_handler_request :: "counted_task \<Rightarrow> h_action list \<times> bool result \<times> counted_task" where
  "uwsgi_handler_request = as_handler
     (sq (on_response (set_status ''204 No Content''))
     (sq (acts send_response)
     (sq (on_task (\<lambda>t. t\<lparr>ct_stats := inc_req (ct_stats t)\<rparr>)) (ret True))))"

text \<open>
  The second handler writes one object as the result of a call \<^verbatim>\<open>lookup\<close>, whatever the request was; \<open>write_id_name\<close> is the
  generated \<^verbatim>\<open>write\<close> of the object's class.
\<close>

definition lookup_request ::
  "(string \<Rightarrow> string \<Rightarrow> bool) \<Rightarrow> ('a, 'r) thrift_code \<Rightarrow> (int \<times> string \<Rightarrow> unit tio) \<Rightarrow>
   counted_task \<Rightarrow> h_action list \<times> bool result \<times> counted_task" where
  "lookup_request iequals L write_id_name = as_handler
     (sq (on_io (server_writer_write L ''lookup'' write_id_name (33, ''testtest'')))
     (sq (on_response (set_status ''200 OK''))
     (sq (on_response (set_header iequals ''Content-Type'' ''application/x-thrift''))
     (sq (acts send_response)
     (sq (on_task (\<lambda>t. t\<lparr>ct_stats := inc_req (ct_stats t)\<rparr>)) (ret True))))))"

lemma uwsgi_handler_serves:
  assumes h: "hm_data_buffer h = buffer_new" "append_ok (hm_content_buffer h)" "gptr (hm_content_buffer h) = 0"
      "modifier1 (um_header h) = UWSGI_VARS"
    and body: "body = unread (hm_content_buffer h)" "length body < 2 ^ 31"
      "body = [] \<longrightarrow> map_of (hm_headers h) ''CONTENT_LENGTH'' = None"
    and kvs: "kvs = order (hm_headers (wire_vars iequals h))" "set kvs = set (hm_headers (wire_vars iequals h))"
      "distinct (map fst kvs)" "\<forall>kv \<in> set kvs. var_ok kv" "length (concat (map encode_var kvs)) \<le> 65529"
    and p: "uwsgi_prepare iequals order h = Inr h1" "d = unread (hm_data_buffer h1)"
    and rx: "sm_type s = TCP" "k_recvfrom K (sm_fd s) 4 False k = ((4, take 4 d, a1), k1)"
      "k_recvfrom K (sm_fd s) (length d - 4) False k1 = ((int (length d - 4), drop 4 d, a2), k2)"
      "if body = [] then k3 = k2 else k_recvfrom K (sm_fd s) (length body) False k2 = ((int (length body), body, a3), k3)"
    and o: "order' [] = []"
    and tx: "sends_in_order K sent" "always_accepts K"
  shows "\<exists>n t' k'. handle_events (uwsgi_handle_event iequals order' K uwsgi_handler_request) (EV_READ # replicate n EV_WRITE)
        (uwsgi_handler_new g s st, k) = Some (Inr (send_response, False), (t', k')) \<and>
      sent k' (sm_fd s) = sent k3 (sm_fd s) @ ''HTTP/1.1 204 No Content'' @ CRLF @ ''Content-Length: 0'' @ CRLF @ CRLF"
proof (rule uwsgi_serves [OF h body kvs p rx _ _ _ tx])
  have z: "to_string 0 = ''0''" by code_simp
  show "\<exists>t'. uwsgi_handler_request ((uwsgi_handler_new g s st)\<lparr>tm_request := q\<rparr>) = (send_response, Inr True, t') \<and>
      tm_socket t' = s \<and> response_fit (tm_response t') \<and> hm_state (tm_response t') = READY \<and>
      response_head order' (tm_response t') @ unread (hm_content_buffer (tm_response t')) =
        ''HTTP/1.1 204 No Content'' @ CRLF @ ''Content-Length: 0'' @ CRLF @ CRLF" for q
    using o by (simp add: uwsgi_handler_request_def uwsgi_handler_new_def uwsgi_task.defs uwsgi_task_new_def task_prog_defs sq_def bnd_def
        ret_def modify_def set_status_def http_response_new_def response_fit_def response_head_def append_ok_def buffer_ok_def
        buffer_new_def unread_def z)
qed (simp_all add: uwsgi_handler_new_def uwsgi_task.defs uwsgi_task_new_def)

end
