(* ===== verification/Spec2Isabelle.thy ===== *)
theory Spec2Isabelle
  imports Task_Properties Multi_Loop Http_Round_Trip Uwsgi_Properties Executor Term Two_Lock_Queue Net_Tasks Disk_Io Shutdown
    One_Hand Dispatcher_Run Lead_Token Task_Lifetime Memory_Safety Lifecycle Thrift_Tasks Thrift_Client Example_Handlers
begin

text \<open>
  A verification development for libtasks, a C++ library for asynchronous I/O after the Leader/Followers
  pattern on top of libev. Paths are relative to \<^verbatim>\<open>src/\<close>; headers are under \<^verbatim>\<open>include/tasks\<close>.

  \<^bold>\<open>The program.\<close> A singleton \<^verbatim>\<open>dispatcher\<close> owns a fixed number of \<^verbatim>\<open>worker\<close> threads and a \<^verbatim>\<open>bitset\<close> of
  the free ones. In single loop mode one worker, the leader, runs the event loop; when events have
  fired it promotes a free follower to leader, passes the loop on, handles its events and becomes a
  follower. In multi loop mode every worker has a loop. An event belongs to a task; the watcher of the
  task is stopped when it fires and started again when the handler has returned true. Code that must run
  on a loop is a closure that either runs at once on the leader's thread or waits in the queue of a
  worker's async watcher. \<^verbatim>\<open>exec_task\<close>s run on \<^verbatim>\<open>executor\<close> threads instead, disk tasks on a thread of
  their own. On top of this stand sockets, HTTP and uwsgi messages in growing \<^verbatim>\<open>buffer\<close>s, the tasks that
  serve and send them, Thrift servers and a client over uwsgi, a serial line, and a two-lock queue.

  \<^bold>\<open>Theories and sources.\<close>
  \<^item> \<open>Prelude\<close>: lists, maps and words shared by all theories; \<^verbatim>\<open>atoi\<close>, \<^verbatim>\<open>std::to_string\<close>, C conversions,
    little endian 16 bit numbers. \<open>Errors\<close> (\<^verbatim>\<open>tasks_exception.h\<close>, \<^verbatim>\<open>error_base.h\<close>): exceptions, failed
    assertions and bad memory accesses as values of \<open>failure\<close>; \<open>prog\<close>, a computation that keeps its
    state when it throws. \<open>Labelled_Steps\<close>: the locale \<open>labelled_invariant\<close> of step functions with an
    invariant, interpreted by \<open>Executor\<close> and \<open>Two_Lock_Queue\<close>.
  \<^item> \<open>Bitset\<close> (\<^verbatim>\<open>tools/bitset.h\<close>) with the locale \<open>slot_pool\<close>, the contract the dispatcher relies on, and
    \<open>Buffer\<close> (\<^verbatim>\<open>tools/buffer.h\<close>) with the locale \<open>byte_stream\<close>; both interpreted on the code's model.
  \<^item> \<open>System\<close> (the fields of \<^verbatim>\<open>dispatcher.h\<close>, \<^verbatim>\<open>worker.h\<close>, \<^verbatim>\<open>task.h\<close>, \<^verbatim>\<open>event_task.h\<close>,
    \<^verbatim>\<open>io_task_base.h\<close>, \<^verbatim>\<open>timer_task.h\<close>, \<^verbatim>\<open>disposable.h\<close>, \<^verbatim>\<open>cleanup_task.h\<close>), \<open>Watchers\<close>
    (\<^verbatim>\<open>exec_in_worker_ctx\<close>, \<^verbatim>\<open>async_call\<close>, the callbacks of libev, \<^verbatim>\<open>tasks/io_task_base.cpp\<close>,
    \<^verbatim>\<open>tasks/timer_task.cpp\<close>, \<^verbatim>\<open>tasks/net_io_task.cpp\<close>), \<open>Dispatcher\<close> (\<^verbatim>\<open>tasks/dispatcher.cpp\<close>),
    \<open>Worker\<close> (\<^verbatim>\<open>tasks/worker.cpp\<close>). All threads share one record \<open>sys\<close>; a thread's position in
    \<^verbatim>\<open>worker::run\<close> is the field \<open>wm_pc\<close>.
  \<^item> \<open>Leader_Followers\<close>: the step relation \<open>lf_step\<close> in which worker threads, libev and outside threads
    take turns, the reachable states \<open>lf_reach\<close>, and the invariant of leadership. \<open>Task_Exclusion\<close>: a
    count of everything that can lead to an event of a task, and its invariant. \<open>Leader_Properties\<close>,
    \<open>Task_Properties\<close>: the theorems on both. \<open>Lead_Token\<close>: an abstract token protocol that the steps refine. \<open>Multi_Loop\<close>: the invariant of the other mode over the same
    steps. \<open>One_Hand\<close>: exclusion in both modes, from the locale \<open>loop_discipline\<close> (what the count relies on of a run mode), which
    each mode interprets. \<open>Shutdown\<close>: \<^verbatim>\<open>join\<close> and \<^verbatim>\<open>terminate\<close>. \<open>Dispatcher_Run\<close>: the thread inside \<^verbatim>\<open>dispatcher::run\<close>, with
    workers and executors around it, and \<^verbatim>\<open>remove_task\<close>. \<open>Task_Lifetime\<close>: the locale \<open>task_relation\<close> of relations
    that every operation and step respects because the primitive changes do, interpreted by the life of task objects.
    \<open>Task_Grips\<close>: all that may still lead to a task, counted as grips, and an invariant of the grips with the primitive
    changes that keep it; \<open>Task_Safety\<close>: every operation keeps it and does not touch deleted tasks; \<open>Memory_Safety\<close>: so does
    every step.
    \<open>Lifecycle\<close>: the static methods of \<^verbatim>\<open>dispatcher.h\<close> (\<^verbatim>\<open>instance\<close>, \<^verbatim>\<open>destroy\<close>) and the signal handlers.
  \<^item> \<open>Executor\<close> (\<^verbatim>\<open>executor.h\<close>, \<^verbatim>\<open>tasks/executor.cpp\<close>, \<^verbatim>\<open>exec_task.h\<close>, \<^verbatim>\<open>tasks/exec.cpp\<close>, and
    \<^verbatim>\<open>free_executor\<close>, \<^verbatim>\<open>add_exec_task\<close> of the dispatcher), \<open>Disk_Io\<close> (\<^verbatim>\<open>tasks/disk_io_task.cpp\<close>).
  \<^item> \<open>Socket\<close> (\<^verbatim>\<open>tasks/net/socket.cpp\<close>, \<^verbatim>\<open>io_base.h\<close>) over a record of system calls \<open>kernel\<close>.
    \<open>Http_Base\<close> (\<^verbatim>\<open>tasks/net/http_base.cpp\<close>) with the locale \<open>outgoing\<close>: what \<^verbatim>\<open>write_data\<close> relies on of
    \<^verbatim>\<open>prepare_data_buffer\<close>, and what follows for the wire; interpreted by \<open>Http_Request\<close>,
    \<open>Http_Round_Trip\<close> (for \<open>Http_Response\<close>) and \<open>Uwsgi_Properties\<close> (for \<open>Uwsgi_Request\<close>), each after
    the file of its name under \<^verbatim>\<open>tasks/net\<close>. \<open>Net_Tasks\<close>: \<^verbatim>\<open>tasks/net/uwsgi_task.cpp\<close>,
    \<^verbatim>\<open>net/http_sender.h\<close>, \<^verbatim>\<open>net/acceptor.h\<close>.
  \<^item> \<open>Thrift\<close> (\<^verbatim>\<open>net/uwsgi_thrift_transport.h\<close>, \<^verbatim>\<open>net/uwsgi_thrift_processor.h\<close>,
    \<^verbatim>\<open>net/uwsgi_thrift_async_handler.h\<close>, \<^verbatim>\<open>net/uwsgi_thrift_async_processor.h\<close>,
    \<^verbatim>\<open>tools/thrift_server_writer.h\<close>): code of Apache Thrift is a \<open>tio\<close>, a program that reads from and writes to a
    transport; the locale \<open>thrift_transport\<close> says that a transport is a pair of byte strings, and is interpreted on the
    server's objects here and on the client's in \<open>Thrift_Client\<close> (\<^verbatim>\<open>net/uwsgi_thrift_client.h\<close>). \<open>Thrift_Tasks\<close>: the
    end of an asynchronous response as a step of the task system.
  \<^item> \<open>Echo_Server\<close>, \<open>Example_Handlers\<close>: the handlers of \<^verbatim>\<open>examples/echoserver\<close>, \<^verbatim>\<open>examples/uwsgi\<close> and
    \<^verbatim>\<open>examples/thrift_server\<close>.
  \<^item> \<open>Term\<close> (\<^verbatim>\<open>tasks/serial/term.cpp\<close>, \<^verbatim>\<open>tasks/serial_io_task.cpp\<close>), \<open>Two_Lock_Queue\<close>
    (\<^verbatim>\<open>tools/queue.h\<close>, \<^verbatim>\<open>tools/spinlock.h\<close>) on an explicit heap.

  \<^bold>\<open>What is shown.\<close>
  \<^item> Leadership (single loop mode, any number of workers, any interleaving, any handlers): the loop has
    exactly one owner and only it polls; \<^verbatim>\<open>run\<close> never fails outside handlers; a promotion takes an idle
    worker out of the pool and brings it into \<^verbatim>\<open>ev_loop\<close>; a task is in one hand at a time; every step is a step of a token
    protocol with a holder, an heir and a pool, which never overlap. A worker told
    to terminate leaves, and \<^verbatim>\<open>run\<close> returns with all threads ended and all its tasks handed over. In multi loop mode every worker
    keeps its own loop, and a task's watcher and events stay with the worker the task is assigned to. In both modes a
    task number names one object of one class, which is deleted at most once. In single loop mode no step touches a deleted
    task or deletes one whose watcher is armed, for user code that adds I/O and timer tasks and does not answer asynchronously.
  \<^item> Tasks: the order of callbacks and deletion at the end of a task, delayed disposal, queued closures,
    disk tasks; the round robin choice in multi loop mode. Executors: no task is lost or run twice, except
    by the time-out race that is proved possible; their destructor returns. What \<^verbatim>\<open>destroy\<close> does in every case.
  \<^item> Messages: what \<^verbatim>\<open>write_data\<close> has sent is a prefix of the message and all of it when it is done;
    termination; what is on the wire; responses and uwsgi requests arrive as they were sent; a uwsgi task
    serves a request from packet to response; a sender turns to reading. A Thrift request is answered once, and a
    Thrift call goes from the client through the asynchronous processor and back. The echo server sends back what it got.
  \<^item> Data structures: the buffer refines a byte stream, the queue a first-in first-out list, without
    touching freed memory; \<^verbatim>\<open>bitset::next\<close> finds the first set bit in cyclic order.
  \<^item> Defects, as theorems about the code as it is: an endless loop in \<^verbatim>\<open>parse_vars\<close>, a null pointer and
    a premature end in the response parser, an overflow of \<^verbatim>\<open>sun_path\<close>, the lost exec task, two stop bits
    that cannot be set, closures dropped with \<^verbatim>\<open>NDEBUG\<close>, a dead branch in the uwsgi task, a Thrift response that uses its
    deleted task, a signal handler that works once, an echo server that takes -1 for a length, and others.

  \<^bold>\<open>Parameters.\<close> System calls are the records \<open>kernel\<close>, \<open>disk_kernel\<close> and the serial one of \<open>Term\<close>; what
  is used of them are the hypotheses \<open>sends_in_order\<close>, \<open>recv_in_order\<close>, \<open>always_accepts\<close>,
  \<open>reads_at_most\<close>, with executable instances for the witnesses. The order in which an \<^verbatim>\<open>unordered_map\<close> is
  visited is \<open>order\<close>, \<^verbatim>\<open>boost::iequals\<close> is \<open>iequals\<close>, user code is \<open>handler\<close>, \<open>request_handler\<close>,
  \<open>response_handler\<close>, \<open>handler_class\<close>. Apache Thrift and the generated classes are \<open>thrift_code\<close>; the hypothesis \<open>codes\<close> says
  that they follow some message format. Uninitialised memory is an argument.

  \<^bold>\<open>Bounds.\<close> Integers have their width where it shows: \<^verbatim>\<open>uint8_t\<close> worker numbers and round robin
  counter, 16 bit positions in \<^verbatim>\<open>parse_vars\<close>, \<^verbatim>\<open>int\<close> and \<^verbatim>\<open>size_t\<close> conversions. \<^verbatim>\<open>parse_vars\<close> and the
  loop of \<^verbatim>\<open>read_data\<close> and of the Thrift client's \<^verbatim>\<open>flush\<close> are \<^verbatim>\<open>partial_function\<close>s, as they need not return. Fuel occurs in
  \<open>write_until\<close>, \<open>run_worker\<close>, \<open>delete_from\<close> and \<open>exec_join\<close> only, with theorems that enough of it gives the result.
  Assertions are compiled in, except where \<^verbatim>\<open>NDEBUG\<close> is a parameter; only the Linux branches of
  conditional code are modelled.

  \<^bold>\<open>Not modelled.\<close> libev beyond which callbacks can run when; memory ordering weaker than sequential
  consistency, and data races on plain fields; Apache Thrift itself and generated code; \<^verbatim>\<open>dispose\<close> of
  disk tasks, which nothing calls; the time measurements of \<^verbatim>\<open>worker.h\<close>, which are not compiled; logging and the version
  string, which only print; the main functions of the examples, their clients, and the tests.
\<close>

end
